(* ===== verification/Prelude.thy ===== *)
theory Prelude
  imports Main "HOL-Library.Word"
begin

text \<open>
  The vocabulary shared by every theory of the development: the C integer types as words, the
  outcome of kernel code (a value, a panic with its message, or a thread that waits), the
  byte-addressed physical memory with little-endian loads and stores, and the facts on alignment
  and address ranges that the component proofs rest on.
\<close>

unbundle bit_operations_syntax

section \<open>C integer types (kernel/types.h)\<close>

type_synonym u8 = "8 word"
type_synonym u16 = "16 word"
type_synonym u32 = "32 word"
type_synonym u64 = "64 word"

type_synonym addr = u64
type_synonym mem = "u64 \<Rightarrow> u8"
type_synonym bytes = "u8 list"

section \<open>Outcomes of kernel code\<close>

text \<open>
  \<open>Ok\<close> is a normal return, \<open>Panic\<close> the call of \<open>panic\<close> (printf.c), which never returns, and
  \<open>Blocked\<close> a thread that waits: it spins on a spinlock held by another hart, or it is put to
  sleep and has to be woken by another thread.
\<close>

datatype 'a outcome = Ok 'a | Panic string | Blocked

fun bnd :: "'a outcome \<Rightarrow> ('a \<Rightarrow> 'b outcome) \<Rightarrow> 'b outcome" where
  "bnd (Ok x) f = f x"
| "bnd (Panic e) f = Panic e"
| "bnd Blocked f = Blocked"

named_theorems kernel_defs \<open>definitions unfolded together when a kernel path is evaluated\<close>
named_theorems word_facts \<open>facts that move word arithmetic to natural numbers\<close>

lemma bnd_cong [fundef_cong]:
  "x = y \<Longrightarrow> (\<And>z. y = Ok z \<Longrightarrow> f z = g z) \<Longrightarrow> bnd x f = bnd y g"
  by (cases y) auto

lemma bnd_eq_Ok [simp]: "bnd x f = Ok y \<longleftrightarrow> (\<exists>z. x = Ok z \<and> f z = Ok y)"
  by (cases x) auto

lemma bnd_eq_Panic: "bnd x f = Panic e \<longleftrightarrow> x = Panic e \<or> (\<exists>z. x = Ok z \<and> f z = Panic e)"
  by (cases x) auto

lemma bnd_assoc: "bnd (bnd x f) g = bnd x (\<lambda>z. bnd (f z) g)"
  by (cases x) auto

lemma bnd_Ok_right [simp]: "bnd x Ok = x"
  by (cases x) auto

section \<open>Word arithmetic as arithmetic of naturals\<close>

lemma unat_add_nowrap [word_facts]:
  "unat (a :: 'a::len word) + unat b < 2 ^ LENGTH('a) \<Longrightarrow> unat (a + b) = unat a + unat b"
  by (simp add: unat_word_ariths)

lemma unat_diff_le [word_facts]:
  "(b :: 'a::len word) \<le> a \<Longrightarrow> unat (a - b) = unat a - unat b"
  by (simp add: unat_sub)

lemma unat_add_of_nat:
  "unat (a :: 'a::len word) + k < 2 ^ LENGTH('a) \<Longrightarrow> unat (a + of_nat k) = unat a + k"
proof -
  assume h: "unat a + k < 2 ^ LENGTH('a)"
  then have "unat (of_nat k :: 'a word) = k"
    by (simp add: unat_of_nat take_bit_nat_eq_self)
  with h show ?thesis
    by (simp add: unat_word_ariths)
qed

lemma add_of_nat_neq:
  assumes "unat (a :: u64) + i < 2 ^ 64" and "unat b + j < 2 ^ 64" and "unat a + i \<noteq> unat b + j"
  shows "a + of_nat i \<noteq> b + of_nat j"
proof
  assume "a + of_nat i = b + of_nat j"
  then have "unat (a + of_nat i) = unat (b + of_nat j)" by (rule arg_cong)
  with assms show False by (simp add: unat_add_of_nat)
qed

lemma unat_ucast_up [word_facts]:
  "LENGTH('a::len) \<le> LENGTH('b::len) \<Longrightarrow> unat (ucast (w :: 'a word) :: 'b word) = unat w"
proof -
  assume le: "LENGTH('a) \<le> LENGTH('b)"
  have "unat w < 2 ^ LENGTH('a)" by (rule unsigned_less)
  also have "(2 :: nat) ^ LENGTH('a) \<le> 2 ^ LENGTH('b)" using le by (rule power_increasing) simp
  finally show ?thesis by (simp add: unsigned_ucast_eq take_bit_nat_eq_self)
qed

section \<open>Address ranges and alignment\<close>

text \<open>\<open>in_rng a n x\<close>: address \<open>x\<close> is one of the \<open>n\<close> addresses that start at \<open>a\<close>.\<close>

definition in_rng :: "addr \<Rightarrow> nat \<Rightarrow> addr \<Rightarrow> bool" where
  "in_rng a n x \<longleftrightarrow> unat (x - a) < n"

definition aligned :: "nat \<Rightarrow> addr \<Rightarrow> bool" where
  "aligned n a \<longleftrightarrow> unat a mod n = 0"

lemma in_rng_0 [simp]: "\<not> in_rng a 0 x"
  by (simp add: in_rng_def)

lemma in_rng_self [simp]: "in_rng a n a \<longleftrightarrow> 0 < n"
  by (simp add: in_rng_def)

lemma in_rng_mono: "in_rng a n x \<Longrightarrow> n \<le> k \<Longrightarrow> in_rng a k x"
  by (simp add: in_rng_def)

lemma aligned_0 [simp]: "aligned n 0"
  by (simp add: aligned_def)

lemma aligned_dvd: "aligned n a \<longleftrightarrow> n dvd unat a"
  by (simp add: aligned_def mod_eq_0_iff_dvd)

lemma aligned_le:
  assumes "aligned n a" and "n dvd 2 ^ 64" and "0 < n"
  shows "unat a + n \<le> 2 ^ 64"
proof -
  have lt: "unat a < 2 ^ 64" using unsigned_less [where w = a and ?'a = nat] by simp
  from assms(1,2) have "n dvd 2 ^ 64 - unat a"
    by (simp add: aligned_dvd dvd_diff_nat)
  with lt have "n \<le> 2 ^ 64 - unat a" by (simp add: dvd_imp_le)
  with lt show ?thesis by simp
qed

lemma in_rng_iff: "in_rng a n x \<longleftrightarrow> (\<exists>k<n. k < 2 ^ 64 \<and> x = a + of_nat k)"
proof
  assume "in_rng a n x"
  moreover have "x = a + of_nat (unat (x - a))" by simp
  moreover have "unat (x - a) < 2 ^ 64" using unsigned_less [where w = "x - a" and ?'a = nat] by simp
  ultimately show "\<exists>k<n. k < 2 ^ 64 \<and> x = a + of_nat k" unfolding in_rng_def by blast
next
  assume "\<exists>k<n. k < 2 ^ 64 \<and> x = a + of_nat k"
  then show "in_rng a n x" by (auto simp: in_rng_def unat_of_nat take_bit_nat_eq_self)
qed

lemma eq_add_of_nat: "k < 2 ^ 64 \<Longrightarrow> (x :: addr) = a + of_nat k \<longleftrightarrow> unat (x - a) = k"
  by (auto simp: unat_of_nat take_bit_nat_eq_self)

lemma in_rng_aligned:
  assumes al: "aligned n a" and d: "n dvd 2 ^ 64" and n: "0 < n"
  shows "in_rng a n x \<longleftrightarrow> unat x div n = unat a div n"
proof
  assume "in_rng a n x"
  then obtain k where k: "k < n" "x = a + of_nat k" by (auto simp: in_rng_iff)
  moreover have "unat a + n \<le> 2 ^ 64" using assms by (rule aligned_le)
  ultimately have "unat x = unat a + k" by (simp add: unat_add_of_nat)
  with al k(1) show "unat x div n = unat a div n"
    by (auto simp: aligned_dvd elim!: dvdE)
next
  assume eq: "unat x div n = unat a div n"
  have ua: "unat a = unat a div n * n" using al by (simp add: aligned_dvd)
  have ux: "unat x = unat a div n * n + unat x mod n" using eq by (metis div_mult_mod_eq)
  with ua have le: "unat a \<le> unat x" by simp
  then have "unat (x - a) = unat x - unat a" by (simp add: unat_sub word_le_nat_alt)
  also have "\<dots> = unat x mod n" using ua ux by simp
  finally show "in_rng a n x" using n by (simp add: in_rng_def)
qed

lemma in_rng_disjoint:
  assumes "aligned n a" "aligned n b" "n dvd 2 ^ 64" "0 < n" "a \<noteq> b" "in_rng a n x"
  shows "\<not> in_rng b n x"
proof
  assume "in_rng b n x"
  with assms have "unat a div n = unat b div n" by (simp add: in_rng_aligned)
  with assms have "unat a = unat b"
    by (auto simp: aligned_dvd elim!: dvdE)
  with assms(5) show False by (simp add: word_unat_eq_iff)
qed

section \<open>Physical memory: little-endian loads and stores\<close>

text \<open>
  \<open>load m a n\<close> reads the \<open>n\<close>-byte unsigned integer at \<open>a\<close>; \<open>store m a n v\<close> writes the low \<open>n\<close>
  bytes of \<open>v\<close> there.
\<close>

fun load :: "mem \<Rightarrow> addr \<Rightarrow> nat \<Rightarrow> u64" where
  "load m a 0 = 0"
| "load m a (Suc n) = ucast (m a) OR push_bit 8 (load m (a + 1) n)"

definition store :: "mem \<Rightarrow> addr \<Rightarrow> nat \<Rightarrow> u64 \<Rightarrow> mem" where
  "store m a n v = (\<lambda>x. if in_rng a n x then ucast (drop_bit (8 * unat (x - a)) v) else m x)"

abbreviation load64 :: "mem \<Rightarrow> addr \<Rightarrow> u64" where
  "load64 m a \<equiv> load m a 8"

abbreviation store64 :: "mem \<Rightarrow> addr \<Rightarrow> u64 \<Rightarrow> mem" where
  "store64 m a v \<equiv> store m a 8 v"

lemma bit_load:
  "bit (load m a n) k \<longleftrightarrow> k < 8 * n \<and> k < 64 \<and> bit (m (a + of_nat (k div 8))) (k mod 8)"
proof (induction n arbitrary: a k)
  case 0
  then show ?case by simp
next
  case (Suc n)
  show ?case
  proof (cases "k < 8")
    case True
    then show ?thesis by (simp add: bit_simps)
  next
    case False
    then obtain j where k: "k = j + 8" by (metis add.commute le_add_diff_inverse not_less)
    have "\<not> bit (m a) (j + 8)" using bit_imp_le_length by fastforce
    moreover have "(j + 8) div 8 = Suc (j div 8)" by simp
    ultimately show ?thesis using Suc.IH [of "a + 1" j]
      by (auto simp: bit_simps k algebra_simps)
  qed
qed

lemma load_cong:
  assumes "\<And>x. in_rng a n x \<Longrightarrow> m x = m' x" and "n \<le> 2 ^ 64"
  shows "load m a n = load m' a n"
proof (rule bit_word_eqI)
  fix k :: nat
  assume "k < LENGTH(64)"
  show "bit (load m a n) k = bit (load m' a n) k"
  proof (cases "k < 8 * n")
    case True
    then have "k div 8 < n" by (simp add: less_mult_imp_div_less mult.commute)
    with assms(2) have "in_rng a n (a + of_nat (k div 8))" by (auto simp: in_rng_iff)
    with assms(1) show ?thesis by (simp add: bit_load)
  qed (simp add: bit_load)
qed

lemma load_store_same [simp]: "n \<le> 8 \<Longrightarrow> load (store m a n v) a n = take_bit (8 * n) v"
proof (rule bit_word_eqI)
  fix k :: nat
  assume n: "n \<le> 8" and k: "k < LENGTH(64)"
  have idx: "unat (of_nat (k div 8) :: u64) = k div 8"
    using k by (simp add: unat_of_nat take_bit_nat_eq_self)
  show "bit (load (store m a n v) a n) k = bit (take_bit (8 * n) v) k"
  proof (cases "k < 8 * n")
    case True
    then have "k div 8 < n" by (simp add: less_mult_imp_div_less mult.commute)
    then show ?thesis using k True
      by (simp add: bit_load store_def in_rng_def idx bit_simps)
  qed (simp add: bit_load bit_simps)
qed

lemma load64_store64 [simp]: "load64 (store64 m a v) a = v"
  by (simp add: take_bit_word_eq_self)

lemma load_store_other:
  assumes "\<And>x. in_rng b k x \<Longrightarrow> \<not> in_rng a n x" and "k \<le> 2 ^ 64"
  shows "load (store m a n v) b k = load m b k"
  using assms by (intro load_cong) (auto simp: store_def)

lemma load64_store64_aligned:
  "aligned 8 a \<Longrightarrow> aligned 8 b \<Longrightarrow> a \<noteq> b \<Longrightarrow> load64 (store64 m a v) b = load64 m b"
  by (rule load_store_other) (auto dest: in_rng_disjoint [of 8 b a])

lemma store_outside [simp]: "\<not> in_rng a n x \<Longrightarrow> store m a n v x = m x"
  by (simp add: store_def)

end
