(* ===== verification/Cstring.thy ===== *)
theory Cstring
  imports Prelude
begin

text \<open>
  kernel/string.c. The routines that write memory are loops over the byte-addressed memory, one
  store per iteration as in the source; the routines that only read take the characters behind a
  pointer as a function of the offset, so that the same definition serves a string in memory
  (\<open>ptr m a\<close>) and a local character array (\<open>arr xs\<close>).
\<close>

section \<open>Pointers to characters\<close>

type_synonym cptr = "nat \<Rightarrow> u8"

definition ptr :: "mem \<Rightarrow> addr \<Rightarrow> cptr" where
  "ptr m a = (\<lambda>i. m (a + of_nat i))"

definition arr :: "bytes \<Rightarrow> cptr" where
  "arr xs = (\<lambda>i. if i < length xs then xs ! i else 0)"

definition rd :: "mem \<Rightarrow> addr \<Rightarrow> nat \<Rightarrow> bytes" where
  "rd m a n = map (ptr m a) [0..<n]"

definition wr :: "mem \<Rightarrow> addr \<Rightarrow> bytes \<Rightarrow> mem" where
  "wr m a bs = (\<lambda>x. if in_rng a (length bs) x then bs ! unat (x - a) else m x)"

section \<open>The routines of string.c\<close>

function memset_loop :: "mem \<Rightarrow> addr \<Rightarrow> u8 \<Rightarrow> nat \<Rightarrow> nat \<Rightarrow> mem" where
  "memset_loop m cdst c i n =
     (if i < n then memset_loop (m(cdst + of_nat i := c)) cdst c (Suc i) n else m)"
  by pat_completeness auto
termination
  by (relation "measure (\<lambda>(m, cdst, c, i, n). n - i)") auto

definition memset :: "mem \<Rightarrow> addr \<Rightarrow> u32 \<Rightarrow> u32 \<Rightarrow> mem" where
  "memset m dst c n = memset_loop m dst (ucast c) 0 (unat n)"

fun memcmp_loop :: "cptr \<Rightarrow> cptr \<Rightarrow> nat \<Rightarrow> nat \<Rightarrow> int" where
  "memcmp_loop s1 s2 i 0 = 0"
| "memcmp_loop s1 s2 i (Suc n) =
     (if s1 i \<noteq> s2 i then uint (s1 i) - uint (s2 i) else memcmp_loop s1 s2 (Suc i) n)"

definition memcmp :: "cptr \<Rightarrow> cptr \<Rightarrow> u32 \<Rightarrow> int" where
  "memcmp v1 v2 n = memcmp_loop v1 v2 0 (unat n)"

fun move_forward :: "mem \<Rightarrow> addr \<Rightarrow> addr \<Rightarrow> nat \<Rightarrow> mem" where
  "move_forward m d s 0 = m"
| "move_forward m d s (Suc n) = move_forward (m(d := m s)) (d + 1) (s + 1) n"

fun move_backward :: "mem \<Rightarrow> addr \<Rightarrow> addr \<Rightarrow> nat \<Rightarrow> mem" where
  "move_backward m d s 0 = m"
| "move_backward m d s (Suc n) = move_backward (m(d - 1 := m (s - 1))) (d - 1) (s - 1) n"

definition memmove :: "mem \<Rightarrow> addr \<Rightarrow> addr \<Rightarrow> u32 \<Rightarrow> mem" where
  "memmove m dst src n =
     (if n = 0 then m
      else if src < dst \<and> src + ucast n > dst
      then move_backward m (dst + ucast n) (src + ucast n) (unat n)
      else move_forward m dst src (unat n))"

definition memcpy :: "mem \<Rightarrow> addr \<Rightarrow> addr \<Rightarrow> u32 \<Rightarrow> mem" where
  "memcpy m dst src n = memmove m dst src n"

fun strncmp_loop :: "cptr \<Rightarrow> cptr \<Rightarrow> nat \<Rightarrow> nat \<Rightarrow> int" where
  "strncmp_loop p q i 0 = 0"
| "strncmp_loop p q i (Suc n) =
     (if p i \<noteq> 0 \<and> p i = q i then strncmp_loop p q (Suc i) n else uint (p i) - uint (q i))"

definition strncmp :: "cptr \<Rightarrow> cptr \<Rightarrow> u32 \<Rightarrow> int" where
  "strncmp p q n = strncmp_loop p q 0 (unat n)"

fun strncpy_copy :: "mem \<Rightarrow> addr \<Rightarrow> addr \<Rightarrow> nat \<Rightarrow> mem \<times> addr \<times> nat" where
  "strncpy_copy m s t 0 = (m, s, 0)"
| "strncpy_copy m s t (Suc n) =
     (let m' = m(s := m t)
      in if m t \<noteq> 0 then strncpy_copy m' (s + 1) (t + 1) n else (m', s + 1, n))"

fun strncpy_pad :: "mem \<Rightarrow> addr \<Rightarrow> nat \<Rightarrow> mem" where
  "strncpy_pad m s 0 = m"
| "strncpy_pad m s (Suc n) = strncpy_pad (m(s := 0)) (s + 1) n"

definition strncpy :: "mem \<Rightarrow> addr \<Rightarrow> addr \<Rightarrow> int \<Rightarrow> mem" where
  "strncpy m s t n = (case strncpy_copy m s t (nat n) of (m', s', k) \<Rightarrow> strncpy_pad m' s' k)"

fun safestrcpy_copy :: "mem \<Rightarrow> addr \<Rightarrow> addr \<Rightarrow> nat \<Rightarrow> mem \<times> addr" where
  "safestrcpy_copy m s t 0 = (m, s)"
| "safestrcpy_copy m s t (Suc n) =
     (let m' = m(s := m t)
      in if m t \<noteq> 0 then safestrcpy_copy m' (s + 1) (t + 1) n else (m', s + 1))"

definition safestrcpy :: "mem \<Rightarrow> addr \<Rightarrow> addr \<Rightarrow> int \<Rightarrow> mem" where
  "safestrcpy m s t n =
     (if n \<le> 0 then m
      else case safestrcpy_copy m s t (nat n - 1) of (m', s') \<Rightarrow> m'(s' := 0))"

partial_function (option) strlen_from :: "cptr \<Rightarrow> nat \<Rightarrow> nat option" where
  "strlen_from s n = (if s n \<noteq> 0 then strlen_from s (Suc n) else Some n)"

definition strlen :: "cptr \<Rightarrow> nat option" where
  "strlen s = strlen_from s 0"

text \<open>
  What \<open>strncpy\<close> leaves in a destination array of \<open>n\<close> bytes: the characters of the source up to
  its first NUL, padded with NULs. Callers that fill a local array use this form.
\<close>

fun strncpy_bytes :: "cptr \<Rightarrow> nat \<Rightarrow> nat \<Rightarrow> bytes" where
  "strncpy_bytes t i 0 = []"
| "strncpy_bytes t i (Suc n) =
     (if t i \<noteq> 0 then t i # strncpy_bytes t (Suc i) n else replicate (Suc n) 0)"

section \<open>Copying and filling memory\<close>

declare memset_loop.simps [simp del]

lemma memset_loop_eq:
  "i \<le> n \<Longrightarrow> n \<le> 2 ^ 64 \<Longrightarrow>
   memset_loop m a c i n = (\<lambda>x. if i \<le> unat (x - a) \<and> unat (x - a) < n then c else m x)"
proof (induction m a c i n rule: memset_loop.induct)
  case (1 m a c i n)
  show ?case
  proof (cases "i < n")
    case True
    with "1.prems"(2) have pos: "(x = a + of_nat i) = (unat (x - a) = i)" for x
      by (intro eq_add_of_nat) simp
    have "memset_loop (m(a + of_nat i := c)) a c (Suc i) n =
        (\<lambda>x. if Suc i \<le> unat (x - a) \<and> unat (x - a) < n then c else (m(a + of_nat i := c)) x)"
      using True "1.prems" by (intro "1.IH") auto
    moreover have "(m(a + of_nat i := c)) x = (if unat (x - a) = i then c else m x)" for x
      by (simp add: pos)
    ultimately show ?thesis using True
      by (subst memset_loop.simps) (auto simp: fun_eq_iff)
  next
    case False
    with "1.prems" show ?thesis by (subst memset_loop.simps) (auto simp: fun_eq_iff)
  qed
qed

lemma memset_eq: "memset m a c n = (\<lambda>x. if in_rng a (unat n) x then ucast c else m x)"
proof -
  have "unat n \<le> 2 ^ 64" using unsigned_less [where w = n and ?'a = nat] by simp
  then show ?thesis by (simp add: memset_def memset_loop_eq in_rng_def)
qed

text \<open>
  The two copy loops against the copy they stand for: a forward copy is right unless the
  destination starts inside the source, a backward copy unless the source starts inside the
  destination.
\<close>

definition copied :: "mem \<Rightarrow> addr \<Rightarrow> addr \<Rightarrow> nat \<Rightarrow> mem" where
  "copied m d s n = (\<lambda>x. if in_rng d n x then m (s + (x - d)) else m x)"

lemma unat_minus_one_word: "(y :: addr) \<noteq> 0 \<Longrightarrow> unat (y - 1) = unat y - 1"
  by (simp add: unat_minus_one)

lemma unat_minus_one_eq: "unat (- 1 :: addr) = 2 ^ 64 - 1"
  by (simp add: unsigned_minus_1_eq_mask mask_eq_exp_minus_1)

lemma in_rng_Suc_low:
  assumes "n < 2 ^ 64"
  shows "in_rng d (Suc n) x \<longleftrightarrow> x = d \<or> in_rng (d + 1) n x"
proof (cases "x = d")
  case False
  then have "unat (x - d - 1) = unat (x - d) - 1" "0 < unat (x - d)"
    by (auto simp: unat_minus_one_word unat_gt_0)
  then show ?thesis using False by (auto simp: in_rng_def diff_diff_eq)
qed simp

lemma move_forward_eq:
  "d = s \<or> n \<le> unat (d - s) \<Longrightarrow> n \<le> 2 ^ 64 \<Longrightarrow> move_forward m d s n = copied m d s n"
proof (induction n arbitrary: m d s)
  case 0
  then show ?case by (simp add: copied_def)
next
  case (Suc n)
  let ?m = "m(d := m s)"
  have "move_forward ?m (d + 1) (s + 1) n = copied ?m (d + 1) (s + 1) n"
    using Suc.prems by (intro Suc.IH) auto
  moreover have "copied ?m (d + 1) (s + 1) n = copied m d s (Suc n)"
  proof
    fix x
    have off: "s + 1 + (x - (d + 1)) = s + (x - d)" by (simp add: algebra_simps)
    have clash: "s + (x - d) \<noteq> d \<or> d = s \<or> x = d" if "in_rng (d + 1) n x"
    proof (rule ccontr)
      assume "\<not> ?thesis"
      then have eq: "x - d = d - s" and "d \<noteq> s" "x \<noteq> d" by (auto simp: algebra_simps)
      then have "unat (x - d - 1) = unat (d - s) - 1" by (simp add: unat_minus_one_word)
      with that Suc.prems \<open>d \<noteq> s\<close> show False by (simp add: in_rng_def diff_diff_eq)
    qed
    show "copied ?m (d + 1) (s + 1) n x = copied m d s (Suc n) x"
      using clash Suc.prems(2) by (auto simp: copied_def off in_rng_Suc_low)
  qed
  ultimately show ?case by simp
qed

lemma in_rng_Suc_high: "n < 2 ^ 64 \<Longrightarrow> in_rng d (Suc n) x \<longleftrightarrow> x = d + of_nat n \<or> in_rng d n x"
  by (auto simp: eq_add_of_nat in_rng_def less_Suc_eq)

lemma move_backward_eq:
  "d = s \<or> n \<le> unat (s - d) \<Longrightarrow> n \<le> 2 ^ 64 \<Longrightarrow>
   move_backward m (d + of_nat n) (s + of_nat n) n = copied m d s n"
proof (induction n arbitrary: m)
  case 0
  then show ?case by (simp add: copied_def)
next
  case (Suc n)
  let ?m = "m(d + of_nat n := m (s + of_nat n))"
  have "move_backward ?m (d + of_nat n) (s + of_nat n) n = copied ?m d s n"
    using Suc.prems by (intro Suc.IH) auto
  moreover have "copied ?m d s n = copied m d s (Suc n)"
  proof
    fix x
    have n: "n < 2 ^ 64" using Suc.prems by simp
    have clash: "s + (x - d) \<noteq> d + of_nat n \<or> d = s" if "in_rng d n x"
    proof (rule ccontr)
      assume "\<not> ?thesis"
      then have eq: "s - d = of_nat n - (x - d)" and "d \<noteq> s" by (auto simp: algebra_simps)
      have "x - d \<le> of_nat n" using that n
        by (simp add: in_rng_def word_le_nat_alt unat_of_nat take_bit_nat_eq_self)
      then have "unat (s - d) = n - unat (x - d)" using n
        by (simp add: eq unat_sub unat_of_nat take_bit_nat_eq_self)
      with Suc.prems \<open>d \<noteq> s\<close> show False by auto
    qed
    have "\<not> in_rng d n (d + of_nat n)"
      using n by (simp add: in_rng_def unat_of_nat take_bit_nat_eq_self)
    then show "copied ?m d s n x = copied m d s (Suc n) x"
      using clash n by (auto simp: copied_def in_rng_Suc_high)
  qed
  ultimately show ?case by (simp add: algebra_simps)
qed

text \<open>Outside the wrap-around at the end of the address space, \<open>memmove\<close> is the copy.\<close>

lemma memmove_eq_copied:
  assumes s: "unat src + unat n < 2 ^ 64" and d: "unat dst + unat n \<le> 2 ^ 64"
  shows "memmove m dst src n = copied m dst src (unat n)"
proof -
  have n64: "unat n \<le> 2 ^ 64" using unsigned_less [where w = n and ?'a = nat] by simp
  have un: "unat (ucast n :: addr) = unat n" by (simp add: unat_ucast_up)
  show ?thesis
  proof (cases "src < dst \<and> dst < src + ucast n")
    case True
    have "unat (src - dst) = 2 ^ 64 - unat (dst - src)" using True by (simp add: unat_sub_if' word_less_nat_alt)
    then have "unat n \<le> unat (src - dst)" using d s True
      by (simp add: word_less_nat_alt unat_sub_if' un)
    then have "move_backward m (dst + of_nat (unat n)) (src + of_nat (unat n)) (unat n) =
        copied m dst src (unat n)"
      using n64 by (intro move_backward_eq) auto
    then show ?thesis using True by (auto simp: memmove_def copied_def)
  next
    case False
    have "dst = src \<or> unat n \<le> unat (dst - src)"
      using False s d by (auto simp: word_less_nat_alt not_less unat_word_ariths un unat_sub_if' word_unat_eq_iff)
    then show ?thesis using False n64 by (auto simp: memmove_def move_forward_eq copied_def)
  qed
qed

section \<open>Strings\<close>

lemma length_rd [simp]: "length (rd m a n) = n"
  by (simp add: rd_def)

lemma nth_rd [simp]: "i < n \<Longrightarrow> rd m a n ! i = m (a + of_nat i)"
  by (simp add: rd_def ptr_def)

lemma rd_wr_same: "length bs \<le> 2 ^ 64 \<Longrightarrow> rd (wr m a bs) a (length bs) = bs"
  by (rule nth_equalityI) (auto simp: wr_def in_rng_def unat_of_nat take_bit_nat_eq_self)

lemma wr_outside [simp]: "\<not> in_rng a (length bs) x \<Longrightarrow> wr m a bs x = m x"
  by (simp add: wr_def)

lemma wr_Nil [simp]: "wr m a [] = m"
  by (simp add: wr_def)

lemma wr_Cons:
  assumes "length bs < 2 ^ 64"
  shows "wr m a (b # bs) = wr (m(a := b)) (a + 1) bs"
proof
  fix x
  have off: "unat (x - (a + 1)) = unat (x - a) - 1" "0 < unat (x - a)" if "x \<noteq> a"
    using that unat_minus_one_word [of "x - a"] by (auto simp: diff_diff_eq unat_gt_0)
  have "\<not> in_rng (a + 1) (length bs) a" using assms by (simp add: in_rng_def unat_minus_one_eq)
  then show "wr m a (b # bs) x = wr (m(a := b)) (a + 1) bs x"
    using assms off by (auto simp: wr_def in_rng_Suc_low nth_Cons')
qed

lemma length_strncpy_bytes [simp]: "length (strncpy_bytes t i n) = n"
  by (induction n arbitrary: i) auto

lemma strncpy_bytes_cong:
  "(\<And>j. j < n \<Longrightarrow> t (i + j) = t' (i' + j)) \<Longrightarrow> strncpy_bytes t i n = strncpy_bytes t' i' n"
proof (induction n arbitrary: i i')
  case (Suc n)
  have "t i = t' i'" using Suc.prems [of 0] by simp
  moreover have "strncpy_bytes t (Suc i) n = strncpy_bytes t' (Suc i') n"
    by (rule Suc.IH) (use Suc.prems [of "Suc _"] in simp)
  ultimately show ?case by simp
qed simp

lemma strncpy_pad_eq: "n \<le> 2 ^ 64 \<Longrightarrow> strncpy_pad m s n = wr m s (replicate n 0)"
  by (induction n arbitrary: m s) (auto simp: wr_Cons)

lemma strncpy_copy_pad_eq:
  assumes "n \<le> 2 ^ 64" and "\<And>i j. i < n \<Longrightarrow> j < n \<Longrightarrow> s + of_nat i \<noteq> t + of_nat j"
  shows "(case strncpy_copy m s t n of (m', s', k) \<Rightarrow> strncpy_pad m' s' k) =
         wr m s (strncpy_bytes (ptr m t) 0 n)"
  using assms
proof (induction n arbitrary: m s t)
  case (Suc n)
  show ?case
  proof (cases "m t = 0")
    case True
    then show ?thesis using Suc.prems(1) by (simp add: ptr_def strncpy_pad_eq wr_Cons)
  next
    case False
    let ?m = "m(s := m t)"
    have sep: "s + 1 + of_nat i \<noteq> t + 1 + of_nat j" if "i < n" "j < n" for i j
      using Suc.prems(2) [of "Suc i" "Suc j"] that by (simp add: algebra_simps)
    have src: "strncpy_bytes (ptr ?m (t + 1)) 0 n = strncpy_bytes (ptr m t) (Suc 0) n"
    proof (rule strncpy_bytes_cong)
      fix j assume "j < n"
      then show "ptr ?m (t + 1) (0 + j) = ptr m t (Suc 0 + j)"
        using Suc.prems(2) [of 0 "Suc j"] by (auto simp: ptr_def algebra_simps)
    qed
    have "(case strncpy_copy ?m (s + 1) (t + 1) n of (m', s', k) \<Rightarrow> strncpy_pad m' s' k) =
        wr ?m (s + 1) (strncpy_bytes (ptr ?m (t + 1)) 0 n)"
      using Suc.prems(1) sep by (intro Suc.IH) auto
    then show ?thesis using False Suc.prems(1) src by (simp add: ptr_def wr_Cons)
  qed
qed simp

lemma strncmp_loop_numeral [simp]:
  "strncmp_loop p q i (numeral k) =
     (if p i \<noteq> 0 \<and> p i = q i then strncmp_loop p q (Suc i) (pred_numeral k) else uint (p i) - uint (q i))"
  by (simp add: numeral_eq_Suc)

lemma strncmp_loop_eq_0: "strncmp_loop p q i n = 0 \<longleftrightarrow> strncpy_bytes p i n = strncpy_bytes q i n"
  by (induction n arbitrary: i) (auto simp flip: word_uint_eq_iff simp: uint_0_iff)

lemma strncpy_bytes_again:
  "(\<And>j. j < n \<Longrightarrow> q (i + j) = strncpy_bytes t k n ! j) \<Longrightarrow> strncpy_bytes q i n = strncpy_bytes t k n"
proof (induction n arbitrary: i k)
  case (Suc n)
  have hd: "q i = strncpy_bytes t k (Suc n) ! 0" using Suc.prems [of 0] by simp
  show ?case
  proof (cases "t k = 0")
    case False
    have "strncpy_bytes q (Suc i) n = strncpy_bytes t (Suc k) n"
      by (rule Suc.IH) (use Suc.prems [of "Suc _"] False in simp)
    then show ?thesis using hd False by simp
  qed (use hd in simp)
qed simp

lemma strncpy_bytes_idem [simp]: "strncpy_bytes (arr (strncpy_bytes t k n)) 0 n = strncpy_bytes t k n"
  by (rule strncpy_bytes_again) (simp add: arr_def)

text \<open>The name in a field of \<open>n\<close> bytes: the characters before the first NUL, or all of them.\<close>

definition name_in :: "nat \<Rightarrow> cptr \<Rightarrow> bytes" where
  "name_in n p = takeWhile (\<lambda>c. c \<noteq> 0) (map p [0..<n])"

lemma strncpy_bytes_eq:
  "strncpy_bytes t i n = takeWhile (\<lambda>c. c \<noteq> 0) (map t [i..<i + n]) @
     replicate (n - length (takeWhile (\<lambda>c. c \<noteq> 0) (map t [i..<i + n]))) 0"
proof (induction n arbitrary: i)
  case (Suc n)
  have "[i..<i + Suc n] = i # [Suc i..<Suc i + n]" by (simp add: upt_conv_Cons del: upt_Suc)
  then show ?case using Suc.IH [of "Suc i"] by simp
qed simp

lemma padded_eq:
  assumes "0 \<notin> set xs" "0 \<notin> set ys"
  shows "xs @ replicate i (0 :: u8) = ys @ replicate j 0 \<longleftrightarrow> xs = ys \<and> i = j"
proof
  assume e: "xs @ replicate i 0 = ys @ replicate j 0"
  have "takeWhile (\<lambda>c. c \<noteq> 0) (zs @ replicate n (0 :: u8)) = zs" if "0 \<notin> set zs" for zs n
    using that by (cases n) (auto simp: takeWhile_append)
  with e assms have "xs = ys" by metis
  with e show "xs = ys \<and> i = j" by simp
qed simp

lemma strncpy_bytes_name: "strncpy_bytes p 0 n = name_in n p @ replicate (n - length (name_in n p)) 0"
  using strncpy_bytes_eq [of p 0 n] by (simp add: name_in_def)

lemma name_in_nonzero: "0 \<notin> set (name_in n p)"
  by (auto simp: name_in_def dest: set_takeWhileD)

lemma strncmp_loop_names: "strncmp_loop p q 0 n = 0 \<longleftrightarrow> name_in n p = name_in n q"
  by (auto simp: strncmp_loop_eq_0 strncpy_bytes_name padded_eq name_in_nonzero)

lemma strncpy_eq:
  assumes "0 \<le> k" "k < 2 ^ 31" "\<And>i j. i < nat k \<Longrightarrow> j < nat k \<Longrightarrow> s + of_nat i \<noteq> t + of_nat j"
  shows "strncpy m s t k = wr m s (strncpy_bytes (ptr m t) 0 (nat k))"
    "rd (strncpy m s t k) s (nat k) = strncpy_bytes (ptr m t) 0 (nat k)"
proof -
  have "nat k \<le> 2 ^ 64" using assms(2) by simp
  then show e: "strncpy m s t k = wr m s (strncpy_bytes (ptr m t) 0 (nat k))"
    using assms(3) by (simp add: strncpy_def strncpy_copy_pad_eq)
  show "rd (strncpy m s t k) s (nat k) = strncpy_bytes (ptr m t) 0 (nat k)"
    using rd_wr_same [of "strncpy_bytes (ptr m t) 0 (nat k)"] \<open>nat k \<le> 2 ^ 64\<close> by (simp add: e)
qed

text \<open>
  \<open>strlen\<close> returns the position of the first NUL, and returns at all only if there is one.
\<close>

lemma strlen_from_Some:
  "n \<le> k \<Longrightarrow> s k = 0 \<Longrightarrow> (\<forall>j<k. n \<le> j \<longrightarrow> s j \<noteq> 0) \<Longrightarrow> strlen_from s n = Some k"
proof (induction "k - n" arbitrary: n)
  case 0
  then show ?case by (simp add: strlen_from.simps)
next
  case (Suc d)
  then have "strlen_from s (Suc n) = Some k" by (intro Suc.hyps(1)) auto
  then show ?case using Suc by (subst strlen_from.simps) auto
qed

lemma strlen_from_sound:
  assumes "strlen_from s n = Some k"
  shows "n \<le> k \<and> s k = 0 \<and> (\<forall>j<k. n \<le> j \<longrightarrow> s j \<noteq> 0)"
proof (rule strlen_from.raw_induct
    [where P = "\<lambda>s n k. n \<le> k \<and> s k = 0 \<and> (\<forall>j<k. n \<le> j \<longrightarrow> s j \<noteq> 0)", OF _ assms])
  fix f s n k
  assume IH: "\<And>s n k. f s n = Some k \<Longrightarrow> n \<le> k \<and> s k = 0 \<and> (\<forall>j<k. n \<le> j \<longrightarrow> s j \<noteq> 0)"
    and eq: "(if s n \<noteq> 0 then f s (Suc n) else Some n) = Some k"
  show "n \<le> k \<and> s k = 0 \<and> (\<forall>j<k. n \<le> j \<longrightarrow> s j \<noteq> 0)"
  proof (cases "s n = 0")
    case False
    with eq IH [of s "Suc n" k] show ?thesis by (auto simp: Suc_le_eq nat_less_le)
  qed (use eq in auto)
qed

lemma safestrcpy_copy_spec:
  assumes "n < 2 ^ 64" and "\<And>i j. i \<le> n \<Longrightarrow> j \<le> n \<Longrightarrow> s + of_nat i \<noteq> t + of_nat j"
    and "safestrcpy_copy m s t n = (m', s')"
  shows "\<exists>k\<le>n. (\<forall>j<k. (m'(s' := 0)) (s + of_nat j) = m (t + of_nat j) \<and> m (t + of_nat j) \<noteq> 0)
      \<and> (m'(s' := 0)) (s + of_nat k) = 0 \<and> (k = n \<or> m (t + of_nat k) = 0)
      \<and> (\<forall>x. \<not> in_rng s (Suc n) x \<longrightarrow> (m'(s' := 0)) x = m x)"
  using assms
proof (induction n arbitrary: m s t)
  case 0
  then show ?case by auto
next
  case (Suc n)
  let ?m = "m(s := m t)"
  have nw: "\<not> in_rng (s + 1) (Suc n) s" using Suc.prems(1) by (simp add: in_rng_def unat_minus_one_eq)
  show ?case
  proof (cases "m t = 0")
    case True
    have "in_rng s (Suc (Suc n)) (s + 1)" by (simp add: in_rng_def)
    with True Suc.prems(3) show ?thesis
      by (intro exI [of _ 0]) (auto simp: in_rng_def)
  next
    case False
    have sep: "s + 1 + of_nat i \<noteq> t + 1 + of_nat j" if "i \<le> n" "j \<le> n" for i j
      using Suc.prems(2) [of "Suc i" "Suc j"] that by (simp add: algebra_simps)
    have src: "?m (t + 1 + of_nat j) = m (t + of_nat (Suc j))" if "j \<le> n" for j
      using Suc.prems(2) [of 0 "Suc j"] that by (auto simp: algebra_simps)
    have run: "safestrcpy_copy ?m (s + 1) (t + 1) n = (m', s')" using Suc.prems(3) False by simp
    obtain k where k: "k \<le> n"
      "\<forall>j<k. (m'(s' := 0)) (s + 1 + of_nat j) = ?m (t + 1 + of_nat j) \<and> ?m (t + 1 + of_nat j) \<noteq> 0"
      "(m'(s' := 0)) (s + 1 + of_nat k) = 0" "k = n \<or> ?m (t + 1 + of_nat k) = 0"
      "\<forall>x. \<not> in_rng (s + 1) (Suc n) x \<longrightarrow> (m'(s' := 0)) x = ?m x"
      using Suc.IH [OF _ sep run] Suc.prems(1) by fastforce
    have out: "\<not> in_rng (s + 1) (Suc n) x \<and> x \<noteq> s" if "\<not> in_rng s (Suc (Suc n)) x" for x
      using that Suc.prems(1) by (simp add: in_rng_Suc_low)
    have s0: "(m'(s' := 0)) s = m t" using k(5) nw by simp
    have eq: "(m'(s' := 0)) (s + of_nat j) = m (t + of_nat j) \<and> m (t + of_nat j) \<noteq> 0" if "j < Suc k" for j
    proof (cases j)
      case 0
      with s0 False show ?thesis by simp
    next
      case (Suc i)
      have "s + of_nat (Suc i) = s + 1 + of_nat i" by simp
      with Suc that k(1) k(2) [rule_format, of i] src [of i] show ?thesis by (simp only:) simp
    qed
    show ?thesis
      using eq k out src by (intro exI [of _ "Suc k"]) (auto simp: algebra_simps)
  qed
qed

section \<open>Properties\<close>

lemma rd_copied: "n \<le> 2 ^ 64 \<Longrightarrow> rd (copied m d s n) d n = rd m s n"
  by (rule nth_equalityI) (auto simp: copied_def in_rng_def unat_of_nat take_bit_nat_eq_self)

text \<open>
  C35: \<open>memmove\<close> copies also between overlapping areas: unless an area runs over the end of the
  address space, the destination afterwards holds the \<open>n\<close> bytes the source held before, and no
  byte outside the destination changes.
\<close>

theorem memmove_correct:
  assumes "unat src + unat n < 2 ^ 64" and "unat dst + unat n \<le> 2 ^ 64"
  shows "rd (memmove m dst src n) dst (unat n) = rd m src (unat n)
    \<and> (\<forall>x. \<not> in_rng dst (unat n) x \<longrightarrow> memmove m dst src n x = m x)"
proof -
  have "unat n \<le> 2 ^ 64" using assms by simp
  then show ?thesis using assms by (simp add: memmove_eq_copied rd_copied) (simp add: copied_def)
qed

theorem memmove_correct_witness:
  "rd (memmove (ucast :: u64 \<Rightarrow> u8) 3 1 4) 3 4 = [1, 2, 3, 4]
    \<and> memmove (ucast :: u64 \<Rightarrow> u8) 3 1 4 9 = 9"
proof -
  have h: "unat (1 :: addr) + unat (4 :: u32) < 2 ^ 64" "unat (3 :: addr) + unat (4 :: u32) \<le> 2 ^ 64"
    by simp_all
  have "\<not> in_rng 3 (unat (4 :: u32)) 9" by (simp add: in_rng_def)
  moreover have "rd (ucast :: u64 \<Rightarrow> u8) 1 4 = [1, 2, 3, 4]" by (simp add: rd_def ptr_def upt_rec)
  ultimately show ?thesis using memmove_correct [OF h, of "ucast :: u64 \<Rightarrow> u8"] by simp
qed

text \<open>
  C34: names in fixed fields, as in directory entries. After \<open>strncpy(s, t, n)\<close> the field of \<open>n\<close> bytes at \<open>s\<close>
  holds the name at \<open>t\<close>, cut at its NUL or after \<open>n\<close> characters, padded with NULs to the full length, and no
  other byte of the memory has changed; \<open>strncmp(q, s, n)\<close> is 0 for this name and for no other, that is,
  exactly for those strings \<open>q\<close> that agree with it up to the first NUL or the first \<open>n\<close> characters.
\<close>

theorem strncpy_strncmp:
  fixes m :: mem
  assumes "0 \<le> k" and "k < 2 ^ 31"
    and "\<And>i j. i < nat k \<Longrightarrow> j < nat k \<Longrightarrow> s + of_nat i \<noteq> t + of_nat j"
  defines "name \<equiv> name_in (nat k) (ptr m t)"
  shows "rd (strncpy m s t k) s (nat k) = name @ replicate (nat k - length name) 0
    \<and> (\<forall>x. \<not> in_rng s (nat k) x \<longrightarrow> strncpy m s t k x = m x)
    \<and> (\<forall>q. strncmp q (arr (rd (strncpy m s t k) s (nat k))) (of_int k) = 0 \<longleftrightarrow> name_in (nat k) q = name)"
proof -
  note E = strncpy_eq [OF assms(1-3)]
  have "(of_int k :: u32) = of_nat (nat k)" using assms(1) by simp
  then have u: "unat (of_int k :: u32) = nat k" using assms(2) by (simp only:) (simp add: unat_of_nat take_bit_nat_eq_self)
  have "strncpy_bytes (arr (strncpy_bytes (ptr m t) 0 (nat k))) 0 (nat k) = strncpy_bytes (ptr m t) 0 (nat k)" by simp
  then have "name_in (nat k) (arr (rd (strncpy m s t k) s (nat k))) = name"
    unfolding strncpy_bytes_name name_def by (simp add: padded_eq name_in_nonzero E(2) strncpy_bytes_name)
  moreover have "rd (strncpy m s t k) s (nat k) = name @ replicate (nat k - length name) 0"
    by (simp only: E(2) strncpy_bytes_name name_def)
  moreover have "strncpy m s t k x = m x" if "\<not> in_rng s (nat k) x" for x
    using that by (simp add: E(1))
  ultimately show ?thesis unfolding strncmp_def u strncmp_loop_names by simp
qed

theorem strncpy_strncmp_witness:
  "strncmp (arr [97, 98, 0, 7]) (arr (rd (strncpy (\<lambda>a. if a = 40 then 97 else if a = 41 then 98 else 0) 8 40 3) 8 3)) 3 = 0 \<and>
   strncmp (arr [97, 98, 99]) (arr (rd (strncpy (\<lambda>a. if a = 40 then 97 else if a = 41 then 98 else 0) 8 40 3) 8 3)) 3 \<noteq> 0"
proof -
  let ?m = "\<lambda>a :: addr. if a = 40 then 97 else if a = 41 then 98 else (0 :: u8)"
  have d: "(8 :: addr) + of_nat i \<noteq> 40 + of_nat j" if "i < nat 3" "j < nat 3" for i j
    using that by (intro add_of_nat_neq) auto
  have "\<forall>q. strncmp q (arr (rd (strncpy ?m 8 40 3) 8 (nat 3))) (of_int 3) = 0 \<longleftrightarrow> name_in (nat 3) q = name_in (nat 3) (ptr ?m 40)"
    by (rule strncpy_strncmp [THEN conjunct2, THEN conjunct2]) (use d in simp_all)
  then show ?thesis by (simp add: name_in_def ptr_def arr_def upt_rec)
qed

text \<open>
  C36: \<open>safestrcpy\<close> with a positive size always NUL-terminates: within the \<open>n\<close> bytes of the
  destination stands a prefix of the source that ends at its first NUL or is cut at \<open>n - 1\<close>
  characters, followed by a NUL, and nothing outside the \<open>n\<close> bytes changes.
\<close>

theorem safestrcpy_terminated:
  assumes "0 < n" and "n < 2 ^ 31"
    and "\<And>i j. i < nat n \<Longrightarrow> j < nat n \<Longrightarrow> s + of_nat i \<noteq> t + of_nat j"
  shows "\<exists>k<nat n. (\<forall>j<k. safestrcpy m s t n (s + of_nat j) = m (t + of_nat j) \<and> m (t + of_nat j) \<noteq> 0)
      \<and> safestrcpy m s t n (s + of_nat k) = 0
      \<and> (k = nat n - 1 \<or> m (t + of_nat k) = 0)
      \<and> (\<forall>x. \<not> in_rng s (nat n) x \<longrightarrow> safestrcpy m s t n x = m x)"
proof -
  obtain m' s' where c: "safestrcpy_copy m s t (nat n - 1) = (m', s')" by fastforce
  have n: "Suc (nat n - 1) = nat n" using assms(1) by simp
  have sep: "s + of_nat i \<noteq> t + of_nat j" if "i \<le> nat n - 1" "j \<le> nat n - 1" for i j
    using that assms(1) by (intro assms(3)) auto
  have "safestrcpy m s t n = m'(s' := 0)" using assms(1) c by (simp add: safestrcpy_def)
  moreover have "nat n - 1 < 2 ^ 64" using assms(2) by simp
  ultimately show ?thesis using safestrcpy_copy_spec [OF _ sep c] n
    by (metis Suc_le_lessD less_Suc_eq_le)
qed

theorem safestrcpy_terminated_witness:
  "\<exists>k<3. (\<forall>j<k. safestrcpy (\<lambda>a. ucast a) 100 1 3 (100 + of_nat j) \<noteq> 0)
      \<and> safestrcpy (\<lambda>a. ucast a) 100 1 3 (100 + of_nat k) = 0"
proof -
  have "(100 :: addr) + of_nat i \<noteq> 1 + of_nat j" if "i < nat 3" "j < nat 3" for i j
    using that by (intro add_of_nat_neq) auto
  from safestrcpy_terminated [of 3 100 1 "\<lambda>a. ucast a", OF _ _ this] show ?thesis by auto
qed

end
