(* ===== verification/Spinlock.thy ===== *)
theory Spinlock
  imports Prelude
begin

text \<open>
  kernel/spinlock.c, with \<open>struct cpu\<close> of kernel/proc.h and the interrupt switch of kernel/riscv.h.
  The first part is the code as one hart runs it: \<open>acquire\<close> on a lock that another hart holds spins,
  which is the outcome \<open>Blocked\<close>. The second part lets any number of harts run the same code one
  atomic instruction at a time, and shows mutual exclusion for the resulting step relation.
\<close>

section \<open>Harts and locks\<close>

text \<open>
  \<open>struct cpu\<close>: the running process is an index into the process table. \<open>noff\<close> counts the \<open>push_off\<close> calls that
  are open; it is an int in C, whose overflow is undefined, so the model is that of runs in which it stays in
  range.
\<close>

record cpu =
  cpu_proc :: "nat option"
  noff :: int
  intena :: bool

text \<open>\<open>tp\<close> is the number of the hart that runs the code, \<open>sie\<close> the SIE bit of each hart's sstatus.\<close>

record hart_st =
  tp :: nat
  cpus :: "nat \<Rightarrow> cpu"
  sie :: "nat \<Rightarrow> bool"

record spinlock =
  locked :: bool
  lname :: string
  lcpu :: "nat option"

definition initlock :: "string \<Rightarrow> spinlock" where
  "initlock name = \<lparr>locked = False, lname = name, lcpu = None\<rparr>"

definition intr_on :: "'a hart_st_scheme \<Rightarrow> 'a hart_st_scheme" where
  "intr_on s = s\<lparr>sie := (sie s)(tp s := True)\<rparr>"

definition intr_off :: "'a hart_st_scheme \<Rightarrow> 'a hart_st_scheme" where
  "intr_off s = s\<lparr>sie := (sie s)(tp s := False)\<rparr>"

definition intr_get :: "'a hart_st_scheme \<Rightarrow> bool" where
  "intr_get s = sie s (tp s)"

definition mycpu :: "'a hart_st_scheme \<Rightarrow> cpu" where
  "mycpu s = cpus s (tp s)"

definition set_mycpu :: "cpu \<Rightarrow> 'a hart_st_scheme \<Rightarrow> 'a hart_st_scheme" where
  "set_mycpu c s = s\<lparr>cpus := (cpus s)(tp s := c)\<rparr>"

section \<open>spinlock.c on one hart\<close>

definition push_off :: "'a hart_st_scheme \<Rightarrow> 'a hart_st_scheme" where
  "push_off s =
     (let old = intr_get s;
          s = intr_off s;
          s = (if noff (mycpu s) = 0 then set_mycpu ((mycpu s)\<lparr>intena := old\<rparr>) s else s)
      in set_mycpu ((mycpu s)\<lparr>noff := noff (mycpu s) + 1\<rparr>) s)"

definition pop_off :: "'a hart_st_scheme \<Rightarrow> 'a hart_st_scheme outcome" where
  "pop_off s =
     (if intr_get s then Panic ''pop_off - interruptible''
      else if noff (mycpu s) < 1 then Panic ''pop_off''
      else let s = set_mycpu ((mycpu s)\<lparr>noff := noff (mycpu s) - 1\<rparr>) s
           in Ok (if noff (mycpu s) = 0 \<and> intena (mycpu s) then intr_on s else s))"

definition holding :: "spinlock \<Rightarrow> 'a hart_st_scheme \<Rightarrow> bool" where
  "holding lk s \<longleftrightarrow> locked lk \<and> lcpu lk = Some (tp s)"

definition acquire :: "spinlock \<Rightarrow> 'a hart_st_scheme \<Rightarrow> (spinlock \<times> 'a hart_st_scheme) outcome" where
  "acquire lk s =
     (let s = push_off s
      in if holding lk s then Panic ''acquire''
         else if locked lk then Blocked
         else Ok (lk\<lparr>locked := True, lcpu := Some (tp s)\<rparr>, s))"

definition release :: "spinlock \<Rightarrow> 'a hart_st_scheme \<Rightarrow> (spinlock \<times> 'a hart_st_scheme) outcome" where
  "release lk s =
     (if \<not> holding lk s then Panic ''release''
      else bnd (pop_off s) (\<lambda>s. Ok (lk\<lparr>lcpu := None, locked := False\<rparr>, s)))"

section \<open>The harts' view of a lock: one atomic step at a time\<close>

text \<open>
  Where a hart is inside a critical section guarded by one lock: outside, in the swap loop of
  \<open>acquire\<close>, between the swap and the store to \<open>lk->cpu\<close>, in the critical section, between the store
  of 0 to \<open>lk->cpu\<close> and the store of 0 to \<open>lk->locked\<close> in \<open>release\<close>, before \<open>pop_off\<close> of \<open>release\<close>, or
  stopped in a panic.
\<close>

datatype hart_pc = Outside | Spinning | Swapped | Critical | Cleared | Unlocked | Panicked string

record lock_sys =
  lk :: spinlock
  harts :: hart_st
  pcs :: "nat \<Rightarrow> hart_pc"

definition on_hart :: "nat \<Rightarrow> hart_st \<Rightarrow> hart_st" where
  "on_hart h s = s\<lparr>tp := h\<rparr>"

inductive lock_step :: "lock_sys \<Rightarrow> lock_sys \<Rightarrow> bool" where
  enter: "pcs s h = Outside \<Longrightarrow> \<not> holding (lk s) (push_off (on_hart h (harts s))) \<Longrightarrow>
    lock_step s (s\<lparr>harts := push_off (on_hart h (harts s)), pcs := (pcs s)(h := Spinning)\<rparr>)"
| enter_panic: "pcs s h = Outside \<Longrightarrow> holding (lk s) (push_off (on_hart h (harts s))) \<Longrightarrow>
    lock_step s (s\<lparr>pcs := (pcs s)(h := Panicked ''acquire'')\<rparr>)"
| swap_fails: "pcs s h = Spinning \<Longrightarrow> locked (lk s) \<Longrightarrow>
    lock_step s (s\<lparr>lk := (lk s)\<lparr>locked := True\<rparr>\<rparr>)"
| swap_wins: "pcs s h = Spinning \<Longrightarrow> \<not> locked (lk s) \<Longrightarrow>
    lock_step s (s\<lparr>lk := (lk s)\<lparr>locked := True\<rparr>, pcs := (pcs s)(h := Swapped)\<rparr>)"
| set_cpu: "pcs s h = Swapped \<Longrightarrow>
    lock_step s (s\<lparr>lk := (lk s)\<lparr>lcpu := Some h\<rparr>, pcs := (pcs s)(h := Critical)\<rparr>)"
| clear_cpu: "pcs s h = Critical \<Longrightarrow> holding (lk s) (on_hart h (harts s)) \<Longrightarrow>
    lock_step s (s\<lparr>lk := (lk s)\<lparr>lcpu := None\<rparr>, pcs := (pcs s)(h := Cleared)\<rparr>)"
| release_panic: "pcs s h = Critical \<Longrightarrow> \<not> holding (lk s) (on_hart h (harts s)) \<Longrightarrow>
    lock_step s (s\<lparr>pcs := (pcs s)(h := Panicked ''release'')\<rparr>)"
| unlock: "pcs s h = Cleared \<Longrightarrow>
    lock_step s (s\<lparr>lk := (lk s)\<lparr>locked := False\<rparr>, pcs := (pcs s)(h := Unlocked)\<rparr>)"
| leave: "pcs s h = Unlocked \<Longrightarrow> pop_off (on_hart h (harts s)) = Ok t \<Longrightarrow>
    lock_step s (s\<lparr>harts := t, pcs := (pcs s)(h := Outside)\<rparr>)"
| leave_panic: "pcs s h = Unlocked \<Longrightarrow> pop_off (on_hart h (harts s)) = Panic e \<Longrightarrow>
    lock_step s (s\<lparr>pcs := (pcs s)(h := Panicked e)\<rparr>)"
| toggle: "pcs s h = Outside \<Longrightarrow>
    lock_step s (s\<lparr>harts := (harts s)\<lparr>sie := (sie (harts s))(h := b)\<rparr>\<rparr>)"

text \<open>Boot: the lock is initialised, no hart is inside, and no hart has pushed interrupts off.\<close>

definition lock_boot :: "string \<Rightarrow> lock_sys" where
  "lock_boot name =
     \<lparr>lk = initlock name,
      harts = \<lparr>tp = 0, cpus = (\<lambda>_. \<lparr>cpu_proc = None, noff = 0, intena = False\<rparr>), sie = (\<lambda>_. False)\<rparr>,
      pcs = (\<lambda>_. Outside)\<rparr>"

inductive lock_reach :: "lock_sys \<Rightarrow> bool" where
  boot: "lock_reach (lock_boot name)"
| step: "lock_reach s \<Longrightarrow> lock_step s t \<Longrightarrow> lock_reach t"

section \<open>Matched push_off and pop_off\<close>

lemmas hart_defs = push_off_def pop_off_def intr_on_def intr_off_def intr_get_def mycpu_def
  set_mycpu_def Let_def

text \<open>A consistent hart: a positive nesting depth means that interrupts are off.\<close>

definition hart_ok :: "'a hart_st_scheme \<Rightarrow> bool" where
  "hart_ok s \<longleftrightarrow> 0 \<le> noff (mycpu s) \<and> (0 < noff (mycpu s) \<longrightarrow> \<not> intr_get s)"

lemma push_off_hart_ok: "hart_ok s \<Longrightarrow> hart_ok (push_off s)"
  by (auto simp: hart_ok_def hart_defs)

lemma push_off_tp [simp]: "tp (push_off s) = tp s"
  by (simp add: hart_defs)

text \<open>
  The effect of a balanced pair on the hart: \<open>intena\<close> records the interrupt state if the pair was the
  outermost, and nothing else changes.
\<close>

definition settled :: "'a hart_st_scheme \<Rightarrow> 'a hart_st_scheme" where
  "settled s = (if noff (mycpu s) = 0 then set_mycpu ((mycpu s)\<lparr>intena := intr_get s\<rparr>) s else s)"

lemma settled_idem [simp]: "settled (settled s) = settled s"
  by (simp add: settled_def hart_defs)

lemma settled_hart_ok [simp]: "hart_ok (settled s) = hart_ok s"
  by (auto simp: settled_def hart_ok_def hart_defs)

lemma settled_tp [simp]: "tp (settled s) = tp s"
  by (simp add: settled_def hart_defs)

lemma pop_push: "hart_ok s \<Longrightarrow> pop_off (push_off s) = Ok (settled s)"
  by (auto simp: hart_ok_def hart_defs settled_def fun_upd_idem_iff)

text \<open>A sequence of calls on one hart: \<open>True\<close> is \<open>push_off\<close>, \<open>False\<close> is \<open>pop_off\<close>.\<close>

fun run_calls :: "bool list \<Rightarrow> 'a hart_st_scheme \<Rightarrow> 'a hart_st_scheme outcome" where
  "run_calls [] s = Ok s"
| "run_calls (c # cs) s = (if c then run_calls cs (push_off s) else bnd (pop_off s) (run_calls cs))"

definition nesting :: "bool list \<Rightarrow> int" where
  "nesting cs = int (count_list cs True) - int (count_list cs False)"

lemma run_calls_snoc: "run_calls (cs @ [c]) s = bnd (run_calls cs s) (\<lambda>t. if c then Ok (push_off t) else pop_off t)"
proof (induction cs arbitrary: s)
  case Nil
  then show ?case by (cases "pop_off s") simp_all
next
  case (Cons b cs)
  then show ?case by (cases "pop_off s") auto
qed

lemma nesting_simps: "nesting [] = 0" "nesting (cs @ [True]) = nesting cs + 1" "nesting (cs @ [False]) = nesting cs - 1"
  by (simp_all add: nesting_def)

lemma run_calls_nested:
  assumes "hart_ok s" "\<forall>k\<le>length cs. 0 \<le> nesting (take k cs)"
  shows "\<exists>t. run_calls cs s = Ok t \<and> tp t = tp s \<and> noff (mycpu t) = noff (mycpu s) + nesting cs \<and> hart_ok t \<and>
    (nesting cs = 0 \<longrightarrow> sie t = sie s) \<and> (\<forall>h. h \<noteq> tp s \<longrightarrow> cpus t h = cpus s h \<and> sie t h = sie s h) \<and>
    (0 < nesting cs \<longrightarrow> \<not> intr_get t \<and> (noff (mycpu s) = 0 \<longrightarrow> intena (mycpu t) = intr_get s))"
  using assms(2)
proof (induction cs rule: rev_induct)
  case Nil
  then show ?case using assms(1) by (simp add: nesting_simps)
next
  case (snoc c cs)
  have "0 \<le> nesting (take k cs)" if "k \<le> length cs" for k using snoc.prems that by (auto dest!: spec [of _ k])
  moreover have "0 \<le> nesting (cs @ [c])" using snoc.prems by (auto dest!: spec [of _ "Suc (length cs)"])
  moreover have "0 \<le> nesting cs" using calculation(1) [of "length cs"] by simp
  ultimately have p: "\<forall>k\<le>length cs. 0 \<le> nesting (take k cs)" "0 \<le> nesting (cs @ [c])" "0 \<le> nesting cs" by auto
  obtain t where t: "run_calls cs s = Ok t" "tp t = tp s" "noff (mycpu t) = noff (mycpu s) + nesting cs" "hart_ok t"
    "nesting cs = 0 \<Longrightarrow> sie t = sie s" "\<And>h. h \<noteq> tp s \<Longrightarrow> cpus t h = cpus s h \<and> sie t h = sie s h"
    "0 < nesting cs \<Longrightarrow> \<not> intr_get t \<and> (noff (mycpu s) = 0 \<longrightarrow> intena (mycpu t) = intr_get s)"
    using snoc.IH [OF p(1)] by blast
  have n0: "0 \<le> noff (mycpu s)" "0 < noff (mycpu s) \<Longrightarrow> \<not> intr_get s" using assms(1) by (auto simp: hart_ok_def)
  show ?case
  proof (cases c)
    case True
    have "nesting cs = 0 \<Longrightarrow> intr_get t = intr_get s" using t(2,5) by (simp add: intr_get_def)
    then show ?thesis using True t p(3) n0 push_off_hart_ok [OF t(4)]
      by (cases "nesting cs = 0") (auto simp: run_calls_snoc nesting_simps hart_defs)
  next
    case False
    then have d: "0 < nesting cs" using p(2) by (simp add: nesting_simps)
    note o = t(7) [OF d]
    have "sie (if noff (mycpu s) + (nesting cs - 1) = 0 \<and> intena (mycpu t) then intr_on t else t) h = sie s h" if "nesting cs = 1" for h
      using that o n0 t(2) t(6) [of h] by (cases "h = tp s") (auto simp: intr_on_def intr_get_def)
    then show ?thesis using False t(1-4,6) d o n0
      by (auto simp: run_calls_snoc nesting_simps hart_ok_def pop_off_def Let_def intr_on_def intr_get_def mycpu_def set_mycpu_def fun_eq_iff)
  qed
qed

section \<open>Critical sections on a free lock\<close>

definition lock_free :: "spinlock \<Rightarrow> bool" where
  "lock_free l \<longleftrightarrow> \<not> locked l \<and> lcpu l = None"

definition held_by :: "nat \<Rightarrow> spinlock \<Rightarrow> spinlock" where
  "held_by h l = l\<lparr>locked := True, lcpu := Some h\<rparr>"

lemma lock_free_initlock [simp]: "lock_free (initlock name)"
  by (simp add: lock_free_def initlock_def)

lemma acquire_free [simp]: "lock_free l \<Longrightarrow> acquire l s = Ok (held_by (tp s) l, push_off s)"
  by (simp add: acquire_def lock_free_def held_by_def holding_def Let_def)

lemma release_held [simp]:
  "lock_free l \<Longrightarrow> tp s = h \<Longrightarrow> release (held_by h l) s = bnd (pop_off s) (\<lambda>s. Ok (l, s))"
  by (cases l) (simp add: release_def lock_free_def held_by_def holding_def)

lemma holding_held [simp]: "holding (held_by h l) s \<longleftrightarrow> h = tp s"
  by (simp add: holding_def held_by_def)

section \<open>Invariants of the interleaved harts\<close>

definition inside :: "hart_pc \<Rightarrow> bool" where
  "inside p \<longleftrightarrow> p \<in> {Swapped, Critical, Cleared}"

definition lock_excl :: "lock_sys \<Rightarrow> bool" where
  "lock_excl s \<longleftrightarrow>
     (\<forall>h. inside (pcs s h) \<longrightarrow> locked (lk s))
   \<and> (\<forall>h h'. inside (pcs s h) \<longrightarrow> inside (pcs s h') \<longrightarrow> h = h')
   \<and> (\<forall>h. lcpu (lk s) = Some h \<longleftrightarrow> pcs s h = Critical)"

definition lock_harts :: "lock_sys \<Rightarrow> bool" where
  "lock_harts s \<longleftrightarrow>
     (\<forall>h. (\<forall>e. pcs s h \<noteq> Panicked e) \<and>
       (if pcs s h = Outside then noff (cpus (harts s) h) = 0
        else noff (cpus (harts s) h) = 1 \<and> \<not> sie (harts s) h))"

inductive_cases lock_stepE: "lock_step s t"

lemma lock_excl_boot: "lock_excl (lock_boot name)"
  by (simp add: lock_excl_def lock_boot_def inside_def initlock_def)

lemma lock_harts_boot: "lock_harts (lock_boot name)"
  by (simp add: lock_harts_def lock_boot_def)

lemma lock_step_excl: "lock_step s t \<Longrightarrow> lock_excl s \<Longrightarrow> lock_excl t"
  by (erule lock_stepE) (auto simp: lock_excl_def inside_def holding_def on_hart_def split: if_splits)

lemma lock_step_harts: "lock_step s t \<Longrightarrow> lock_excl s \<Longrightarrow> lock_harts s \<Longrightarrow> lock_harts t"
  by (erule lock_stepE)
    (auto simp: lock_harts_def lock_excl_def inside_def on_hart_def holding_def hart_defs split: if_splits)

lemma lock_reach_inv: "lock_reach s \<Longrightarrow> lock_excl s \<and> lock_harts s"
  by (induction rule: lock_reach.induct)
    (auto intro: lock_excl_boot lock_harts_boot lock_step_excl lock_step_harts)

section \<open>Properties\<close>

text \<open>
  C5: mutual exclusion. Whatever the interleaving of the harts' atomic steps, at most one hart is
  between the successful swap of \<open>acquire\<close> and the unlocking store of \<open>release\<close>, and \<open>holding\<close> run
  on a hart answers exactly whether that hart is in its critical section.
\<close>

theorem spinlock_mutual_exclusion:
  assumes "lock_reach s" and "inside (pcs s h)" and "inside (pcs s h')"
  shows "h = h' \<and> (\<forall>i. holding (lk s) (on_hart i (harts s)) \<longleftrightarrow> pcs s i = Critical)"
  using lock_reach_inv [OF assms(1)] assms(2,3)
  by (auto simp: lock_excl_def holding_def on_hart_def inside_def)

lemma lock_reach_swapped: "\<exists>s. lock_reach s \<and> pcs s 0 = Swapped"
proof -
  let ?s = "lock_boot ''l''"
  let ?t = "?s\<lparr>harts := push_off (on_hart 0 (harts ?s)), pcs := (pcs ?s)(0 := Spinning)\<rparr>"
  let ?u = "?t\<lparr>lk := (lk ?t)\<lparr>locked := True\<rparr>, pcs := (pcs ?t)(0 := Swapped)\<rparr>"
  have "lock_step ?s ?t"
    by (rule lock_step.enter) (simp_all add: lock_boot_def initlock_def holding_def)
  moreover have "lock_step ?t ?u"
    by (rule lock_step.swap_wins) (simp_all add: lock_boot_def initlock_def)
  ultimately have "lock_reach ?u" by (blast intro: lock_reach.intros)
  then show ?thesis by (intro exI [of _ ?u]) simp
qed

theorem spinlock_mutual_exclusion_witness:
  "\<exists>s. lock_reach s \<and> inside (pcs s 0) \<and> (\<forall>h. inside (pcs s h) \<longrightarrow> h = 0)
    \<and> \<not> holding (lk s) (on_hart 0 (harts s))"
proof -
  obtain s where s: "lock_reach s" "pcs s 0 = Swapped" using lock_reach_swapped by blast
  then have i: "inside (pcs s 0)" by (simp add: inside_def)
  have "\<not> holding (lk s) (on_hart 0 (harts s))" using spinlock_mutual_exclusion [OF s(1) i i] s(2) by simp
  moreover have "\<forall>h. inside (pcs s h) \<longrightarrow> h = 0" using spinlock_mutual_exclusion [OF s(1) _ i] by blast
  ultimately show ?thesis using s(1) i by blast
qed

text \<open>
  C23: no hart ever panics in \<open>acquire\<close>, \<open>release\<close> or \<open>pop_off\<close>, and a hart that is anywhere between
  entering \<open>acquire\<close> and leaving \<open>release\<close> has interrupts off, so that an interrupt handler on the
  same hart cannot deadlock on the lock.
\<close>

theorem spinlock_no_panic:
  assumes "lock_reach s"
  shows "pcs s h \<noteq> Panicked e \<and> (pcs s h \<noteq> Outside \<longrightarrow> \<not> sie (harts s) h)"
  using lock_reach_inv [OF assms] by (auto simp: lock_harts_def split: if_splits)

theorem spinlock_no_panic_witness:
  "\<exists>s. lock_reach s \<and> pcs s 0 = Swapped \<and> \<not> sie (harts s) 0"
proof -
  obtain s where s: "lock_reach s" "pcs s 0 = Swapped" using lock_reach_swapped by blast
  from s spinlock_no_panic [OF s(1), of 0] show ?thesis by (intro exI [of _ s]) auto
qed

text \<open>
  C24: \<open>push_off\<close> and \<open>pop_off\<close> match. A hart makes any sequence of such calls in which no \<open>pop_off\<close> comes
  without its \<open>push_off\<close> and whose nesting stays in the range of a C int. No call panics; after the sequence
  the depth has changed by the number of calls that are still open; while one is open interrupts are off; when
  all are matched the interrupt switch is as it was before the first of them; other harts are not affected.
\<close>

theorem push_off_pop_off_matched:
  assumes "hart_ok s" and "\<forall>k\<le>length cs. 0 \<le> nesting (take k cs) \<and> noff (mycpu s) + nesting (take k cs) < 2 ^ 31"
  shows "\<exists>t. run_calls cs s = Ok t \<and> noff (mycpu t) = noff (mycpu s) + nesting cs \<and> 0 \<le> noff (mycpu t) \<and> noff (mycpu t) < 2 ^ 31
    \<and> (0 < nesting cs \<longrightarrow> \<not> intr_get t) \<and> (nesting cs = 0 \<longrightarrow> sie t = sie s)
    \<and> (\<forall>h. h \<noteq> tp s \<longrightarrow> cpus t h = cpus s h \<and> sie t h = sie s h)"
proof -
  have "noff (mycpu s) + nesting cs < 2 ^ 31" using assms(2) by (auto dest!: spec [of _ "length cs"])
  then show ?thesis using run_calls_nested [OF assms(1), of cs] assms(2) by (auto simp: hart_ok_def)
qed

theorem push_off_pop_off_matched_witness:
  "\<exists>t. run_calls [True, True, False, True, False, False]
       \<lparr>tp = 1, cpus = (\<lambda>_. \<lparr>cpu_proc = None, noff = 0, intena = False\<rparr>), sie = (\<lambda>_. True)\<rparr> = Ok t \<and> intr_get t"
proof -
  let ?s = "\<lparr>tp = 1, cpus = (\<lambda>_. \<lparr>cpu_proc = None, noff = 0, intena = False\<rparr>), sie = (\<lambda>_. True)\<rparr> :: hart_st"
  let ?cs = "[True, True, False, True, False, False]"
  have d: "0 \<le> nesting (take k ?cs)" "nesting (take k ?cs) < 2 ^ 31" for k
    by (simp_all add: take_Cons' nesting_def)
  moreover have "hart_ok ?s" by (simp add: hart_ok_def hart_defs)
  ultimately obtain t where "run_calls ?cs ?s = Ok t" "nesting ?cs = 0 \<longrightarrow> sie t = sie ?s"
    using push_off_pop_off_matched [of ?s ?cs] by (auto simp: mycpu_def)
  then show ?thesis by (intro exI [of _ t]) (simp add: nesting_def intr_get_def)
qed

end
