(* ===== verification/Riscv.thy ===== *)
theory Riscv
  imports Prelude
begin

text \<open>
  The constants and address macros of kernel/riscv.h and kernel/memlayout.h: pages, the Sv39
  page-table entries and indices, and the layout of physical and virtual memory.
\<close>

section \<open>Pages (riscv.h)\<close>

abbreviation PGSIZE :: "'a::len word" where "PGSIZE \<equiv> 4096"

definition PGROUNDUP :: "u64 \<Rightarrow> u64" where
  "PGROUNDUP sz = (sz + PGSIZE - 1) AND NOT (PGSIZE - 1)"

definition PGROUNDDOWN :: "u64 \<Rightarrow> u64" where
  "PGROUNDDOWN a = a AND NOT (PGSIZE - 1)"

section \<open>Page-table entries (riscv.h)\<close>

abbreviation PTE_V :: u64 where "PTE_V \<equiv> 1"
abbreviation PTE_R :: u64 where "PTE_R \<equiv> 2"
abbreviation PTE_W :: u64 where "PTE_W \<equiv> 4"
abbreviation PTE_X :: u64 where "PTE_X \<equiv> 8"
abbreviation PTE_U :: u64 where "PTE_U \<equiv> 16"

definition PA2PTE :: "u64 \<Rightarrow> u64" where
  "PA2PTE pa = push_bit 10 (drop_bit 12 pa)"

definition PTE2PA :: "u64 \<Rightarrow> u64" where
  "PTE2PA pte = push_bit 12 (drop_bit 10 pte)"

definition PTE_FLAGS :: "u64 \<Rightarrow> u64" where
  "PTE_FLAGS pte = pte AND 0x3FF"

definition PX :: "nat \<Rightarrow> u64 \<Rightarrow> u64" where
  "PX level va = drop_bit (12 + 9 * level) va AND 0x1FF"

definition MAXVA :: u64 where
  "MAXVA = push_bit (9 + 9 + 9 + 12 - 1) 1"

definition MAKE_SATP :: "u64 \<Rightarrow> u64" where
  "MAKE_SATP pagetable = push_bit 60 8 OR drop_bit 12 pagetable"

section \<open>Memory layout (memlayout.h)\<close>

definition UART0 :: u64 where "UART0 = 0x10000000"
definition VIRTIO0 :: u64 where "VIRTIO0 = 0x10001000"
definition PLIC :: u64 where "PLIC = 0x0c000000"
definition KERNBASE :: u64 where "KERNBASE = 0x80000000"
definition PHYSTOP :: u64 where "PHYSTOP = KERNBASE + 128 * 1024 * 1024"
definition TRAMPOLINE :: u64 where "TRAMPOLINE = MAXVA - PGSIZE"
definition TRAPFRAME :: u64 where "TRAPFRAME = TRAMPOLINE - PGSIZE"

definition KSTACK :: "nat \<Rightarrow> u64" where
  "KSTACK p = TRAMPOLINE - (of_nat p + 1) * 2 * PGSIZE"

section \<open>Rounding\<close>

lemma and_not_mask_word: "(a :: 'a::len word) AND NOT (mask n) = push_bit n (drop_bit n a)"
  by (rule bit_word_eqI) (auto simp: bit_simps)

lemma unat_and_not_mask: "unat ((a :: 'a::len word) AND NOT (mask n)) = unat a div 2 ^ n * 2 ^ n"
proof -
  have lt: "unat a div 2 ^ n * 2 ^ n < 2 ^ LENGTH('a)"
    using unsigned_less [where w = a and ?'a = nat] by (meson div_times_less_eq_dividend le_less_trans)
  have "unat (push_bit n (drop_bit n a)) = take_bit LENGTH('a) (push_bit n (drop_bit n (unat a)))"
    by (simp only: unsigned_push_bit_eq unsigned_drop_bit_eq) (simp add: take_bit_eq_mod push_bit_eq_mult drop_bit_eq_div)
  also have "\<dots> = unat a div 2 ^ n * 2 ^ n"
    using lt by (simp add: drop_bit_eq_div push_bit_eq_mult take_bit_nat_eq_self)
  finally show ?thesis by (simp only: and_not_mask_word)
qed

lemma PGSIZE_mask: "(PGSIZE - 1 :: u64) = mask 12"
  by (simp add: mask_eq_exp_minus_1)

lemma unat_PGROUNDDOWN: "unat (PGROUNDDOWN a) = unat a div 4096 * 4096"
  using unat_and_not_mask [of a 12] by (simp only: PGROUNDDOWN_def PGSIZE_mask) simp

lemma unat_PGROUNDUP: "unat a + 4095 < 2 ^ 64 \<Longrightarrow> unat (PGROUNDUP a) = (unat a + 4095) div 4096 * 4096"
proof -
  assume h: "unat a + 4095 < 2 ^ 64"
  have "unat (a + PGSIZE - 1) = unat a + 4095"
  proof -
    have "a + PGSIZE - 1 = a + of_nat 4095" by simp
    moreover have "unat (a + of_nat 4095) = unat a + 4095" by (rule unat_add_of_nat) (use h in simp)
    ultimately show ?thesis by (simp only:)
  qed
  then show ?thesis using unat_and_not_mask [of "a + PGSIZE - 1" 12]
    by (simp only: PGROUNDUP_def PGSIZE_mask) simp
qed

lemma PGROUNDDOWN_aligned [simp]: "aligned 4096 (PGROUNDDOWN a)"
  by (simp add: aligned_def unat_PGROUNDDOWN)

lemma PGROUNDUP_aligned [simp]: "aligned 4096 (PGROUNDUP a)"
  using unat_and_not_mask [of "a + PGSIZE - 1" 12]
  by (simp only: PGROUNDUP_def PGSIZE_mask aligned_def) simp

lemma PGROUNDDOWN_le: "PGROUNDDOWN a \<le> a"
  by (simp add: word_le_nat_alt unat_PGROUNDDOWN)

lemma PGROUNDDOWN_id [simp]: "aligned 4096 a \<Longrightarrow> PGROUNDDOWN a = a"
  by (auto simp: word_unat_eq_iff unat_PGROUNDDOWN aligned_dvd)

lemma in_page_iff: "aligned 4096 p \<Longrightarrow> in_rng p 4096 x \<longleftrightarrow> PGROUNDDOWN x = p"
  by (auto simp: in_rng_aligned word_unat_eq_iff unat_PGROUNDDOWN aligned_dvd)

lemma in_page_PGROUNDDOWN [simp]: "in_rng (PGROUNDDOWN x) 4096 x"
  by (simp add: in_page_iff)

section \<open>Page-table entries hold a page and its flags\<close>

lemma not_bit_small: "unat (n :: 'a::len word) < 2 ^ k \<Longrightarrow> k \<le> i \<Longrightarrow> \<not> bit n i"
proof -
  assume h: "unat n < 2 ^ k" "k \<le> i"
  have "unat n < 2 ^ i" using h power_increasing [of k i "2 :: nat"] by linarith
  then have "\<not> bit (unat n) i" by (simp only: bit_iff_odd div_less) simp
  then show ?thesis by (simp add: bit_unsigned_iff)
qed

lemma unat_or_less:
  assumes "unat (x :: 'a::len word) < 2 ^ n" "unat y < 2 ^ n"
  shows "unat (x OR y) < 2 ^ n"
proof -
  have "take_bit n (unat x OR unat y) = unat x OR unat y"
    using assms by (simp add: take_bit_or take_bit_nat_eq_self)
  then show ?thesis unfolding unsigned_or_eq by (simp only: take_bit_nat_eq_self_iff)
qed

lemma aligned_low_bits: "aligned 4096 (a :: u64) \<Longrightarrow> i < 12 \<Longrightarrow> \<not> bit a i"
proof -
  assume h: "aligned 4096 a" "i < 12"
  then have a: "push_bit 12 (drop_bit 12 a) = a"
    using PGROUNDDOWN_id [of a] by (simp only: PGROUNDDOWN_def PGSIZE_mask and_not_mask_word)
  have "\<not> bit (push_bit 12 (drop_bit 12 a)) i" using h(2) by (simp add: bit_push_bit_iff)
  then show ?thesis unfolding a .
qed

text \<open>An entry built from an aligned page below 2^56 and ten bits of flags gives both back.\<close>

lemma PTE2PA_make:
  assumes "aligned 4096 pa" "unat pa < 2 ^ 56" "unat f < 2 ^ 10"
  shows "PTE2PA (PA2PTE pa OR f) = pa"
proof (rule bit_word_eqI)
  fix i assume "i < LENGTH(64)"
  then show "bit (PTE2PA (PA2PTE pa OR f)) i = bit pa i"
  proof (cases "i < 12")
    case True
    with aligned_low_bits [OF assms(1)] show ?thesis by (simp add: PTE2PA_def bit_simps)
  next
    case False
    then obtain k where i: "i = k + 12" by (metis add.commute le_Suc_ex not_less)
    have "\<not> bit f (k + 10)" by (rule not_bit_small [OF assms(3)]) simp
    moreover have "bit pa (k + 12) \<Longrightarrow> k < 44" using not_bit_small [OF assms(2), of "k + 12"] by linarith
    ultimately show ?thesis using \<open>i < LENGTH(64)\<close> unfolding i
      by (auto simp: PTE2PA_def PA2PTE_def bit_simps add.commute)
  qed
qed

lemma PTE_FLAGS_make: "unat f < 2 ^ 10 \<Longrightarrow> PTE_FLAGS (PA2PTE pa OR f) = f"
proof (rule bit_word_eqI)
  fix i assume h: "unat f < 2 ^ 10" "i < LENGTH(64)"
  have m: "(0x3FF :: u64) = mask 10" by (simp add: mask_eq_exp_minus_1)
  have "bit f i \<Longrightarrow> i < 10" using not_bit_small [OF h(1), of i] by linarith
  then show "bit (PTE_FLAGS (PA2PTE pa OR f)) i = bit f i" using h(2)
    by (auto simp: PTE_FLAGS_def PA2PTE_def m bit_simps simp del: mask_numeral)
qed

lemma PTE2PA_aligned [simp]: "aligned 4096 (PTE2PA pte)"
proof -
  have "PGROUNDDOWN (PTE2PA pte) = PTE2PA pte"
    by (simp only: PGROUNDDOWN_def PGSIZE_mask and_not_mask_word PTE2PA_def)
      (rule bit_word_eqI, auto simp: bit_simps)
  with PGROUNDDOWN_aligned [of "PTE2PA pte"] show ?thesis by simp
qed

end
