(* ===== verification/Kalloc.thy ===== *)
theory Kalloc
  imports Cstring Spinlock Riscv "HOL-Library.Multiset"
begin

text \<open>
  kernel/kalloc.c: the allocator of physical pages. The free list is threaded through the free pages
  themselves, so the model keeps it in physical memory. The theory refines it to a stack of pages and
  offers that stack to the other components through the locale \<open>page_allocator\<close>.
\<close>

section \<open>State and operations\<close>

text \<open>
  \<open>kend\<close> is the address of the symbol \<open>end\<close>, which the linker fixes; \<open>kmem_lock\<close> and \<open>freelist\<close> are the
  fields of \<open>kmem\<close>; \<open>phys\<close> is physical memory, which the kernel maps at equal addresses. The word at
  the start of a free page is its \<open>struct run\<close>.
\<close>

record kmem_st = hart_st +
  kend :: addr
  kmem_lock :: spinlock
  freelist :: addr
  phys :: mem

definition kfree :: "addr \<Rightarrow> 'a kmem_st_scheme \<Rightarrow> 'a kmem_st_scheme outcome" where
  "kfree pa s =
     (if pa mod PGSIZE \<noteq> 0 \<or> pa < kend s \<or> PHYSTOP \<le> pa then Panic ''kfree''
      else let s = s\<lparr>phys := memset (phys s) pa 1 PGSIZE\<rparr>
           in bnd (acquire (kmem_lock s) s) (\<lambda>(l, s).
              let s = s\<lparr>kmem_lock := l\<rparr>;
                  s = s\<lparr>phys := store64 (phys s) pa (freelist s)\<rparr>;
                  s = s\<lparr>freelist := pa\<rparr>
              in bnd (release (kmem_lock s) s) (\<lambda>(l, s). Ok (s\<lparr>kmem_lock := l\<rparr>))))"

definition kalloc :: "'a kmem_st_scheme \<Rightarrow> (addr \<times> 'a kmem_st_scheme) outcome" where
  "kalloc s =
     bnd (acquire (kmem_lock s) s) (\<lambda>(l, s).
     let s = s\<lparr>kmem_lock := l\<rparr>;
         r = freelist s;
         s = (if r \<noteq> 0 then s\<lparr>freelist := load64 (phys s) r\<rparr> else s)
     in bnd (release (kmem_lock s) s) (\<lambda>(l, s).
        let s = s\<lparr>kmem_lock := l\<rparr>;
            s = (if r \<noteq> 0 then s\<lparr>phys := memset (phys s) r 5 PGSIZE\<rparr> else s)
        in Ok (r, s)))"

text \<open>The loops may run forever in general (a cyclic list, an end address near 2^64): then \<open>None\<close>.\<close>

partial_function (option) freerange_loop ::
  "addr \<Rightarrow> addr \<Rightarrow> 'a kmem_st_scheme \<Rightarrow> 'a kmem_st_scheme outcome option" where
  "freerange_loop p pa_end s =
     (if p + PGSIZE \<le> pa_end
      then (case kfree p s of
              Ok s \<Rightarrow> freerange_loop (p + PGSIZE) pa_end s
            | Panic e \<Rightarrow> Some (Panic e)
            | Blocked \<Rightarrow> Some Blocked)
      else Some (Ok s))"

definition freerange :: "addr \<Rightarrow> addr \<Rightarrow> 'a kmem_st_scheme \<Rightarrow> 'a kmem_st_scheme outcome option" where
  "freerange pa_start pa_end s = freerange_loop (PGROUNDUP pa_start) pa_end s"

definition kinit :: "'a kmem_st_scheme \<Rightarrow> 'a kmem_st_scheme outcome option" where
  "kinit s = freerange (kend s) PHYSTOP (s\<lparr>kmem_lock := initlock ''kmem''\<rparr>)"

partial_function (option) count_free :: "mem \<Rightarrow> addr \<Rightarrow> u64 \<Rightarrow> u64 option" where
  "count_free m r free_mem =
     (if r \<noteq> 0 then count_free m (load64 m r) (free_mem + PGSIZE) else Some free_mem)"

definition kfree_memsize :: "'a kmem_st_scheme \<Rightarrow> (u64 \<times> 'a kmem_st_scheme) outcome option" where
  "kfree_memsize s =
     (case acquire (kmem_lock s) s of
        Ok (l, s) \<Rightarrow>
          (let s = s\<lparr>kmem_lock := l\<rparr>
           in case count_free (phys s) (freelist s) 0 of
                None \<Rightarrow> None
              | Some free_mem \<Rightarrow>
                  Some (bnd (release (kmem_lock s) s) (\<lambda>(l, s). Ok (free_mem, s\<lparr>kmem_lock := l\<rparr>))))
      | Panic e \<Rightarrow> Some (Panic e)
      | Blocked \<Rightarrow> Some Blocked)"

section \<open>The free list as a stack of pages\<close>

fun runs :: "mem \<Rightarrow> addr \<Rightarrow> addr list \<Rightarrow> bool" where
  "runs m p [] \<longleftrightarrow> p = 0"
| "runs m p (q # qs) \<longleftrightarrow> p = q \<and> q \<noteq> 0 \<and> runs m (load64 m q) qs"

definition page_ok :: "'a kmem_st_scheme \<Rightarrow> addr \<Rightarrow> bool" where
  "page_ok s p \<longleftrightarrow> aligned 4096 p \<and> kend s \<le> p \<and> p < PHYSTOP"

definition kmem_inv :: "'a kmem_st_scheme \<Rightarrow> addr list \<Rightarrow> bool" where
  "kmem_inv s ps \<longleftrightarrow>
     hart_ok s \<and> lock_free (kmem_lock s) \<and> 0 < kend s \<and>
     runs (phys s) (freelist s) ps \<and> distinct ps \<and> (\<forall>p\<in>set ps. page_ok s p)"

text \<open>The interrupt code leaves the allocator alone, and the allocator the harts.\<close>

lemma push_off_kmem [simp]:
  "kend (push_off s) = kend s" "kmem_lock (push_off s) = kmem_lock s"
  "freelist (push_off s) = freelist s" "phys (push_off s) = phys s"
  "push_off (kmem_lock_update f s) = kmem_lock_update f (push_off s)"
  "push_off (freelist_update g s) = freelist_update g (push_off s)"
  "push_off (phys_update h s) = phys_update h (push_off s)"
  by (simp_all add: hart_defs)

lemma pop_off_kmem [simp]:
  "pop_off (kmem_lock_update f s) = bnd (pop_off s) (\<lambda>s. Ok (kmem_lock_update f s))"
  "pop_off (freelist_update g s) = bnd (pop_off s) (\<lambda>s. Ok (freelist_update g s))"
  "pop_off (phys_update h s) = bnd (pop_off s) (\<lambda>s. Ok (phys_update h s))"
  by (simp_all add: hart_defs)

lemma settled_kmem [simp]:
  "kend (settled s) = kend s" "kmem_lock (settled s) = kmem_lock s"
  "freelist (settled s) = freelist s" "phys (settled s) = phys s"
  "settled (kmem_lock_update f s) = kmem_lock_update f (settled s)"
  "settled (freelist_update g s) = freelist_update g (settled s)"
  "settled (phys_update h s) = phys_update h (settled s)"
  by (simp_all add: settled_def hart_defs)

lemma hart_ok_kmem [simp]:
  "hart_ok (kmem_lock_update f s) = hart_ok s" "hart_ok (freelist_update g s) = hart_ok s"
  "hart_ok (phys_update h s) = hart_ok s"
  by (simp_all add: hart_ok_def hart_defs)

lemma kmem_lock_id [simp]: "s\<lparr>kmem_lock := kmem_lock s\<rparr> = s"
  by simp

lemma page_ok_mod: "aligned 4096 p \<longleftrightarrow> p mod PGSIZE = 0"
  by (simp add: aligned_def word_unat_eq_iff unat_mod_distrib)

lemma kfree_eq:
  assumes "hart_ok s" "lock_free (kmem_lock s)" "page_ok s pa"
  shows "kfree pa s =
    Ok ((settled s)\<lparr>phys := store64 (memset (phys s) pa 1 PGSIZE) pa (freelist s), freelist := pa\<rparr>)"
  using assms by (simp add: kfree_def page_ok_def page_ok_mod linorder_not_less [symmetric] Let_def pop_push)

lemma kalloc_eq:
  assumes "hart_ok s" "lock_free (kmem_lock s)"
  shows "kalloc s = Ok (freelist s, if freelist s = 0 then settled s
    else (settled s)\<lparr>freelist := load64 (phys s) (freelist s), phys := memset (phys s) (freelist s) 5 PGSIZE\<rparr>)"
  using assms by (simp add: kalloc_def Let_def pop_push)

section \<open>Memory of distinct pages\<close>

lemma load64_page:
  assumes "\<And>x. \<not> in_rng p 4096 x \<Longrightarrow> m x = m' x" "aligned 4096 p" "aligned 4096 q" "p \<noteq> q"
  shows "load64 m q = load64 m' q"
proof (rule load_cong)
  fix x assume "in_rng q 8 x"
  then have "in_rng q 4096 x" by (rule in_rng_mono) simp
  with in_rng_disjoint [of 4096 q p x] assms show "m x = m' x" by auto
qed simp

lemma runs_cong:
  "(\<And>q. q \<in> set qs \<Longrightarrow> load64 m q = load64 m' q) \<Longrightarrow> runs m p qs = runs m' p qs"
  by (induction qs arbitrary: p) auto

lemma runs_outside:
  assumes "\<And>x. \<not> in_rng p 4096 x \<Longrightarrow> m x = m' x" "aligned 4096 p" "\<forall>q\<in>set qs. aligned 4096 q" "p \<notin> set qs"
  shows "runs m r qs = runs m' r qs"
  using assms by (intro runs_cong load64_page [of p]) auto

lemma store64_in_page: "\<not> in_rng p 4096 x \<Longrightarrow> store64 m p v x = m x"
  by (auto simp: store_def dest: in_rng_mono [of p 8 x 4096])

lemma page_okD: "page_ok s p \<Longrightarrow> 0 < kend s \<Longrightarrow> p \<noteq> 0"
  by (auto simp: page_ok_def)

lemma page_ok_kmem [simp]:
  "page_ok (settled s) = page_ok s" "page_ok (phys_update f s) = page_ok s"
  "page_ok (freelist_update g s) = page_ok s" "page_ok (kmem_lock_update h s) = page_ok s"
  by (auto simp: page_ok_def fun_eq_iff)

lemma kmem_invD:
  assumes "kmem_inv s ps"
  shows "hart_ok s" "lock_free (kmem_lock s)" "0 < kend s" "runs (phys s) (freelist s) ps" "distinct ps"
    "p \<in> set ps \<Longrightarrow> page_ok s p" "p \<in> set ps \<Longrightarrow> aligned 4096 p"
  using assms by (auto simp: kmem_inv_def page_ok_def)

lemma kmem_inv_settled [simp]: "kmem_inv (settled s) ps = kmem_inv s ps"
  by (simp add: kmem_inv_def)

lemma kmem_inv_freelist: "kmem_inv s ps \<Longrightarrow> freelist s = (case ps of [] \<Rightarrow> 0 | p # _ \<Rightarrow> p)"
  by (auto simp: kmem_inv_def split: list.splits)

text \<open>
  The operations of the allocator, and all of vm.c, change nothing of the kernel's state but memory, the
  free list and what \<open>settled\<close> changes.
\<close>

definition mem_step :: "'a kmem_st_scheme \<Rightarrow> 'a kmem_st_scheme \<Rightarrow> bool" where
  "mem_step s t \<longleftrightarrow> (\<exists>fl m. t = s\<lparr>freelist := fl, phys := m\<rparr> \<or> t = (settled s)\<lparr>freelist := fl, phys := m\<rparr>)"

lemma mem_step_refl [simp]: "mem_step s s"
  unfolding mem_step_def by (intro exI [of _ "freelist s"] exI [of _ "phys s"]) simp

lemma mem_step_phys [simp]: "mem_step s (t\<lparr>phys := m\<rparr>) = mem_step s t"
proof
  assume "mem_step s (t\<lparr>phys := m\<rparr>)"
  then obtain fl m' where "t\<lparr>phys := m\<rparr> = s\<lparr>freelist := fl, phys := m'\<rparr> \<or>
    t\<lparr>phys := m\<rparr> = (settled s)\<lparr>freelist := fl, phys := m'\<rparr>" by (auto simp: mem_step_def)
  then have "t\<lparr>phys := m, phys := phys t\<rparr> = s\<lparr>freelist := fl, phys := m', phys := phys t\<rparr> \<or>
    t\<lparr>phys := m, phys := phys t\<rparr> = (settled s)\<lparr>freelist := fl, phys := m', phys := phys t\<rparr>" by metis
  then show "mem_step s t" unfolding mem_step_def by auto
next
  assume "mem_step s t"
  then show "mem_step s (t\<lparr>phys := m\<rparr>)" unfolding mem_step_def by fastforce
qed

lemma mem_step_trans: "mem_step s t \<Longrightarrow> mem_step t u \<Longrightarrow> mem_step s u"
  unfolding mem_step_def by fastforce

lemma mem_step_kend: "mem_step s t \<Longrightarrow> kend t = kend s"
  by (auto simp: mem_step_def)

lemma mem_step_page_ok: "mem_step s t \<Longrightarrow> page_ok t = page_ok s"
  by (auto simp: mem_step_def)

lemma mem_step_settled [simp]: "mem_step s (settled s)"
  unfolding mem_step_def by (intro exI [of _ "freelist s"] exI [of _ "phys s"]) simp

text \<open>Writing outside the free pages keeps the allocator.\<close>

lemma kmem_inv_phys:
  assumes "kmem_inv s ps" "\<And>p x. p \<in> set ps \<Longrightarrow> in_rng p 8 x \<Longrightarrow> m x = phys s x"
  shows "kmem_inv (s\<lparr>phys := m\<rparr>) ps"
proof -
  have "runs m (freelist s) ps = runs (phys s) (freelist s) ps"
    using assms(2) by (intro runs_cong load_cong) auto
  with assms(1) show ?thesis by (simp add: kmem_inv_def)
qed

section \<open>Allocation pops, freeing pushes\<close>

lemma kfree_pushes:
  assumes inv: "kmem_inv s ps" and ok: "page_ok s p" and new: "p \<notin> set ps"
  shows "\<exists>t. kfree p s = Ok t \<and> kmem_inv t (p # ps) \<and> mem_step s t \<and>
    (\<forall>x. \<not> in_rng p 4096 x \<longrightarrow> phys t x = phys s x)"
proof -
  let ?m = "store64 (memset (phys s) p 1 PGSIZE) p (freelist s)"
  let ?t = "(settled s)\<lparr>phys := ?m, freelist := p\<rparr>"
  have al: "aligned 4096 p" using ok by (simp add: page_ok_def)
  have out: "?m x = phys s x" if "\<not> in_rng p 4096 x" for x
    using that by (simp add: store64_in_page memset_eq)
  have "runs ?m (freelist s) ps"
    using runs_outside [of p ?m "phys s" ps "freelist s"] out al new kmem_invD(4,7) [OF inv] by blast
  then have "kmem_inv ?t (p # ps)"
    using inv ok new page_okD [OF ok] by (simp add: kmem_inv_def)
  moreover have "mem_step s ?t" unfolding mem_step_def by (intro exI [of _ p] exI [of _ ?m] disjI2) simp
  ultimately show ?thesis using kfree_eq [of s p] inv ok out by (auto simp: kmem_inv_def)
qed

lemma kalloc_pops:
  assumes inv: "kmem_inv s ps"
  shows "\<exists>t. kalloc s = Ok (case ps of [] \<Rightarrow> 0 | p # _ \<Rightarrow> p, t) \<and> kmem_inv t (tl ps) \<and> mem_step s t \<and>
    (\<forall>x. (case ps of [] \<Rightarrow> True | p # _ \<Rightarrow> \<not> in_rng p 4096 x) \<longrightarrow> phys t x = phys s x)"
proof (cases ps)
  case Nil
  with inv have "freelist s = 0" by (simp add: kmem_inv_freelist)
  with inv Nil show ?thesis by (simp add: kalloc_eq kmem_invD [OF inv])
next
  case (Cons p qs)
  let ?m = "memset (phys s) p 5 PGSIZE"
  let ?t = "(settled s)\<lparr>freelist := load64 (phys s) p, phys := ?m\<rparr>"
  have f: "freelist s = p" "p \<noteq> 0" using inv Cons by (auto simp: kmem_inv_def)
  have "runs ?m (load64 (phys s) p) qs = runs (phys s) (load64 (phys s) p) qs"
    using kmem_invD(5,7) [OF inv] Cons by (intro runs_outside [of p]) (auto simp: memset_eq)
  with inv Cons have "kmem_inv ?t qs" by (auto simp: kmem_inv_def)
  moreover have "mem_step s ?t" unfolding mem_step_def by fastforce
  ultimately show ?thesis using f Cons by (auto simp: kalloc_eq kmem_invD [OF inv] memset_eq)
qed

lemma kfree_rejects: "\<not> page_ok s p \<Longrightarrow> kfree p s = Panic ''kfree''"
  unfolding kfree_def page_ok_def page_ok_mod by (rule if_P) (metis not_le)

section \<open>The interface: an allocator of pages\<close>

text \<open>
  What the rest of the kernel relies on. \<open>inv s ps\<close> says that the free pages are \<open>ps\<close>; \<open>ok\<close> is the
  range of pages the allocator manages.
\<close>

locale page_allocator =
  fixes alloc :: "'s \<Rightarrow> (addr \<times> 's) outcome"
    and free :: "addr \<Rightarrow> 's \<Rightarrow> 's outcome"
    and inv :: "'s \<Rightarrow> addr list \<Rightarrow> bool"
    and ok :: "'s \<Rightarrow> addr \<Rightarrow> bool"
    and ram :: "'s \<Rightarrow> mem"
  assumes alloc_law: "inv s ps \<Longrightarrow> \<exists>t. alloc s = Ok (case ps of [] \<Rightarrow> 0 | p # _ \<Rightarrow> p, t) \<and> inv t (tl ps) \<and>
      ok t = ok s \<and> (\<forall>x. (case ps of [] \<Rightarrow> True | p # _ \<Rightarrow> \<not> in_rng p 4096 x) \<longrightarrow> ram t x = ram s x)"
    and free_law: "inv s ps \<Longrightarrow> ok s p \<Longrightarrow> p \<notin> set ps \<Longrightarrow>
      \<exists>t. free p s = Ok t \<and> inv t (p # ps) \<and> ok t = ok s \<and> (\<forall>x. \<not> in_rng p 4096 x \<longrightarrow> ram t x = ram s x)"
    and pages_law: "inv s ps \<Longrightarrow> distinct ps \<and> (\<forall>p\<in>set ps. ok s p \<and> p \<noteq> 0 \<and> aligned 4096 p)"

text \<open>
  A client that holds pages: \<open>Get\<close> allocates one more, \<open>Put i\<close> frees the \<open>i\<close>-th page it holds.
\<close>

datatype page_op = Get | Put nat

fun client_run :: "('s \<Rightarrow> (addr \<times> 's) outcome) \<Rightarrow> (addr \<Rightarrow> 's \<Rightarrow> 's outcome) \<Rightarrow> page_op list \<Rightarrow>
    addr list \<Rightarrow> 's \<Rightarrow> (addr list \<times> 's) outcome" where
  "client_run alloc free [] held s = Ok (held, s)"
| "client_run alloc free (Get # ops) held s =
     bnd (alloc s) (\<lambda>(p, s). client_run alloc free ops (if p = 0 then held else p # held) s)"
| "client_run alloc free (Put i # ops) held s =
     (if i < length held
      then bnd (free (held ! i) s) (client_run alloc free ops (take i held @ drop (Suc i) held))
      else client_run alloc free ops held s)"

lemma nth_take_drop_perm: "i < length xs \<Longrightarrow> mset (take i xs @ xs ! i # drop (Suc i) xs) = mset xs"
  by (simp add: id_take_nth_drop [symmetric])

context page_allocator
begin

lemma client_conserves:
  assumes "inv s ps" "distinct (held @ ps)" "\<forall>p\<in>set held. ok s p"
  shows "\<exists>held' ps' t. client_run alloc free ops held s = Ok (held', t) \<and> inv t ps' \<and>
    mset (held' @ ps') = mset (held @ ps)"
  using assms
proof (induction ops arbitrary: held s ps)
  case Nil
  then show ?case by auto
next
  case (Cons op ops)
  show ?case
  proof (cases op)
    case Get
    from alloc_law [OF Cons.prems(1)] obtain t where
      t: "alloc s = Ok (case ps of [] \<Rightarrow> 0 | p # _ \<Rightarrow> p, t)" "inv t (tl ps)" "ok t = ok s" by blast
    show ?thesis
    proof (cases ps)
      case Nil
      with Get t Cons.IH [of t "[]" held] Cons.prems show ?thesis by simp
    next
      case (Cons p qs)
      with pages_law [OF \<open>inv s ps\<close>] have "p \<noteq> 0" "ok s p" by auto
      with Cons Get t Cons.IH [of t qs "p # held"] Cons.prems show ?thesis by auto
    qed
  next
    case (Put i)
    show ?thesis
    proof (cases "i < length held")
      case True
      let ?h = "take i held @ drop (Suc i) held"
      have perm: "mset (held ! i # ?h) = mset held" using nth_take_drop_perm [OF True] by simp
      have mem: "held ! i \<in> set held" using True by simp
      have "held ! i \<notin> set ps" using mem Cons.prems(2) by auto
      with free_law [OF Cons.prems(1)] mem Cons.prems(3) obtain t where
        t: "free (held ! i) s = Ok t" "inv t (held ! i # ps)" "ok t = ok s" by blast
      have eq: "mset (?h @ held ! i # ps) = mset (held @ ps)" using perm by simp
      then have d: "distinct (?h @ held ! i # ps)" using Cons.prems(2) by (metis mset_eq_imp_distinct_iff)
      have o: "\<forall>p\<in>set ?h. ok t p"
        using Cons.prems(3) t(3) by (auto dest: in_set_takeD in_set_dropD)
      show ?thesis using Cons.IH [OF t(2) d o] True Put t(1) by (simp only: client_run.simps eq) simp
    next
      case False
      with Put Cons show ?thesis by simp
    qed
  qed
qed

end

interpretation kmem: page_allocator kalloc kfree kmem_inv page_ok phys
proof
  fix s :: "'a kmem_st_scheme" and ps p
  show "kmem_inv s ps \<Longrightarrow> \<exists>t. kalloc s = Ok (case ps of [] \<Rightarrow> 0 | p # _ \<Rightarrow> p, t) \<and> kmem_inv t (tl ps) \<and>
      page_ok t = page_ok s \<and> (\<forall>x. (case ps of [] \<Rightarrow> True | p # _ \<Rightarrow> \<not> in_rng p 4096 x) \<longrightarrow> phys t x = phys s x)"
    using kalloc_pops [of s ps] mem_step_page_ok by blast
  show "kmem_inv s ps \<Longrightarrow> page_ok s p \<Longrightarrow> p \<notin> set ps \<Longrightarrow>
      \<exists>t. kfree p s = Ok t \<and> kmem_inv t (p # ps) \<and> page_ok t = page_ok s \<and>
        (\<forall>x. \<not> in_rng p 4096 x \<longrightarrow> phys t x = phys s x)"
    using kfree_pushes [of s ps p] mem_step_page_ok by blast
  show "kmem_inv s ps \<Longrightarrow> distinct ps \<and> (\<forall>p\<in>set ps. page_ok s p \<and> p \<noteq> 0 \<and> aligned 4096 p)"
    by (auto simp: kmem_inv_def page_ok_def)
qed

section \<open>Boot, and the size of free memory\<close>

lemma count_free_runs: "runs m p ps \<Longrightarrow> count_free m p acc = Some (acc + of_nat (length ps) * PGSIZE)"
proof (induction ps arbitrary: p acc)
  case Nil
  then show ?case by (subst count_free.simps) simp
next
  case (Cons q qs)
  then show ?case by (subst count_free.simps) (simp add: algebra_simps)
qed

definition pages_from :: "addr \<Rightarrow> nat \<Rightarrow> addr list" where
  "pages_from p n = map (\<lambda>i. p + of_nat i * PGSIZE) [0..<n]"

lemma pages_from_0 [simp]: "pages_from p 0 = []"
  by (simp add: pages_from_def)

lemma pages_from_Suc: "pages_from p (Suc n) = p # pages_from (p + PGSIZE) n"
proof -
  have "[0..<Suc n] = 0 # map Suc [0..<n]" by (simp add: map_Suc_upt upt_conv_Cons del: upt_Suc)
  then show ?thesis by (simp add: pages_from_def algebra_simps)
qed

lemma unat_add_PGSIZE: "unat (p :: addr) + 4096 < 2 ^ 64 \<Longrightarrow> unat (p + PGSIZE) = unat p + 4096"
proof -
  assume h: "unat p + 4096 < 2 ^ 64"
  have "unat (p + of_nat 4096) = unat p + 4096" by (rule unat_add_of_nat) (use h in simp)
  then show ?thesis by simp
qed

lemma unat_PHYSTOP: "unat PHYSTOP = 0x88000000"
  by (simp add: PHYSTOP_def KERNBASE_def)

lemma freerange_loop_frees:
  assumes "kmem_inv s ps" "aligned 4096 p" "kend s \<le> p" "\<forall>q\<in>set ps. q < p"
    and "unat p + n * 4096 \<le> unat e" "unat e < unat p + n * 4096 + 4096" "e \<le> PHYSTOP"
  shows "\<exists>t. freerange_loop p e s = Some (Ok t) \<and> kmem_inv t (rev (pages_from p n) @ ps) \<and> kend t = kend s"
  using assms
proof (induction n arbitrary: p s ps)
  case 0
  have e: "unat e \<le> 0x88000000" using "0.prems"(7) by (simp add: word_le_nat_alt unat_PHYSTOP)
  then have "unat (p + PGSIZE) = unat p + 4096" using "0.prems"(5) by (intro unat_add_PGSIZE) simp
  with "0.prems"(6) have "\<not> p + PGSIZE \<le> e" by (simp add: word_le_nat_alt)
  with 0 show ?case by (subst freerange_loop.simps) simp
next
  case (Suc n)
  have e: "unat e \<le> 0x88000000" using Suc.prems(7) by (simp add: word_le_nat_alt unat_PHYSTOP)
  then have step: "unat (p + PGSIZE) = unat p + 4096" using Suc.prems(5) by (intro unat_add_PGSIZE) simp
  then have le: "p + PGSIZE \<le> e" using Suc.prems(5) by (simp add: word_le_nat_alt)
  have "p < PHYSTOP" using Suc.prems(5) e by (simp add: word_less_nat_alt unat_PHYSTOP)
  with Suc.prems have "page_ok s p" by (simp add: page_ok_def)
  moreover have "p \<notin> set ps" using Suc.prems(4) by auto
  ultimately obtain t where t: "kfree p s = Ok t" "kmem_inv t (p # ps)" "kend t = kend s"
    using kfree_pushes [OF Suc.prems(1)] mem_step_kend by blast
  have lt: "p < p + PGSIZE" using step by (simp add: word_less_nat_alt)
  have "aligned 4096 (p + PGSIZE)" using Suc.prems(2) step by (simp add: aligned_dvd)
  moreover have "\<forall>q\<in>set (p # ps). q < p + PGSIZE" using Suc.prems(4) lt by auto
  moreover have "kend t \<le> p + PGSIZE" using t(3) Suc.prems(3) lt by (simp add: order.strict_implies_order order.trans)
  ultimately have "\<exists>u. freerange_loop (p + PGSIZE) e t = Some (Ok u) \<and>
      kmem_inv u (rev (pages_from (p + PGSIZE) n) @ p # ps) \<and> kend u = kend t"
    using Suc.prems(5-7) step by (intro Suc.IH [OF t(2)]) simp_all
  with t le show ?case by (subst freerange_loop.simps) (auto simp: pages_from_Suc)
qed

lemma kinit_inv:
  assumes "hart_ok s" "freelist s = 0" "0 < kend s" "kend s \<le> PHYSTOP"
  shows "\<exists>t. kinit s = Some (Ok t) \<and>
    kmem_inv t (rev (pages_from (PGROUNDUP (kend s)) (unat (PHYSTOP - PGROUNDUP (kend s)) div 4096)))"
proof -
  let ?s = "s\<lparr>kmem_lock := initlock ''kmem''\<rparr>" and ?p = "PGROUNDUP (kend s)"
  have k: "unat (kend s) \<le> 0x88000000" using assms(4) by (simp add: word_le_nat_alt unat_PHYSTOP)
  then have p: "unat ?p = (unat (kend s) + 4095) div 4096 * 4096" by (intro unat_PGROUNDUP) simp
  with k have le: "kend s \<le> ?p" "?p \<le> PHYSTOP" by (simp_all add: word_le_nat_alt unat_PHYSTOP)
  then have d: "unat (PHYSTOP - ?p) = unat PHYSTOP - unat ?p" by (simp add: unat_diff_le)
  have "kmem_inv ?s []" using assms by (simp add: kmem_inv_def)
  then show ?thesis
    using freerange_loop_frees [of ?s "[]" ?p "unat (PHYSTOP - ?p) div 4096" PHYSTOP] le p d
    by (auto simp: kinit_def freerange_def unat_PHYSTOP word_le_nat_alt)
qed

lemma set_pages_from:
  assumes "0 < k" "k \<le> PHYSTOP"
  shows "set (rev (pages_from (PGROUNDUP k) (unat (PHYSTOP - PGROUNDUP k) div 4096))) =
    {p. aligned 4096 p \<and> k \<le> p \<and> p < PHYSTOP}" (is "set (rev (pages_from ?p ?n)) = ?S")
proof -
  define c where "c = (unat k + 4095) div 4096"
  have uk: "unat k \<le> 0x88000000" using assms(2) by (simp add: word_le_nat_alt unat_PHYSTOP)
  then have p: "unat ?p = c * 4096" unfolding c_def by (intro unat_PGROUNDUP) simp
  have "c < Suc 0x88000" unfolding c_def by (rule less_mult_imp_div_less) (use uk in simp)
  then have c: "c \<le> 0x88000" by simp
  then have "?p \<le> PHYSTOP" by (simp add: word_le_nat_alt unat_PHYSTOP p)
  then have "?n = (0x88000 * 4096 - c * 4096) div 4096" by (simp add: unat_diff_le unat_PHYSTOP p)
  then have n: "?n = 0x88000 - c" by (simp only: diff_mult_distrib [symmetric])
  have u: "unat (?p + of_nat i * PGSIZE) = (c + i) * 4096" if "i < ?n" for i
  proof -
    have "unat ?p + i * 4096 < 2 ^ LENGTH(64)" using that unfolding n p by simp
    from unat_add_of_nat [OF this] show ?thesis by (simp only: p of_nat_mult of_nat_numeral add_mult_distrib)
  qed
  show ?thesis
  proof (intro equalityI subsetI)
    fix q assume "q \<in> set (rev (pages_from ?p ?n))"
    then obtain i where i: "i < ?n" "q = ?p + of_nat i * PGSIZE" by (auto simp: pages_from_def)
    with u have q: "unat q = (c + i) * 4096" by simp
    moreover have "unat k \<le> c * 4096" unfolding c_def
      using div_mult_mod_eq [of "unat k + 4095" 4096] mod_less_divisor [of 4096 "unat k + 4095"] by linarith
    ultimately show "q \<in> ?S" using i(1) n
      by (simp add: aligned_dvd word_le_nat_alt word_less_nat_alt unat_PHYSTOP)
  next
    fix q assume q: "q \<in> ?S"
    then obtain j where j: "unat q = 4096 * j" by (auto simp: aligned_dvd elim: dvdE)
    have j': "unat k \<le> 4096 * j" "j < 0x88000"
      using q j by (auto simp: word_le_nat_alt word_less_nat_alt unat_PHYSTOP)
    from j'(1) have "c < Suc j" unfolding c_def by (intro less_mult_imp_div_less) simp
    then have i: "j - c < ?n" "c \<le> j" unfolding n using j'(2) by simp_all
    have "unat (?p + of_nat (j - c) * PGSIZE) = unat q"
      unfolding u [OF i(1)] j using i(2) by simp
    then have q: "q = ?p + of_nat (j - c) * PGSIZE" by (simp only: word_unat_eq_iff)
    have "j - c \<in> set [0..<?n]" using i(1) by (simp only: set_upt atLeastLessThan_iff) simp
    then show "q \<in> set (rev (pages_from ?p ?n))" unfolding pages_from_def set_rev set_map
      by (intro image_eqI [where x = "j - c"] q)
  qed
qed

lemma kmem_inv_length: "kmem_inv s ps \<Longrightarrow> length ps \<le> 0x88000"
proof -
  assume inv: "kmem_inv s ps"
  have "unat p div 4096 < 0x88000" if "p \<in> set ps" for p
    using kmem_invD(6) [OF inv that]
    by (simp add: page_ok_def word_less_nat_alt unat_PHYSTOP div_less_iff_less_mult)
  then have "(\<lambda>p. unat p div 4096) ` set ps \<subseteq> {..<0x88000}" by auto
  moreover have "inj_on (\<lambda>p. unat p div 4096) (set ps)"
    using kmem_invD(7) [OF inv] by (intro inj_onI) (metis aligned_dvd dvd_div_mult_self word_unat_eq_iff)
  ultimately have "card (set ps) \<le> card {..<0x88000 :: nat}" by (intro card_inj_on_le) auto
  with kmem_invD(5) [OF inv] show ?thesis by (simp add: distinct_card)
qed

section \<open>Properties\<close>

text \<open>
  C3: A client of the allocator that only frees pages it holds never makes the kernel panic or hang, for
  every sequence of calls of \<open>kalloc\<close> and \<open>kfree\<close>; and the pages it holds together with the pages of the
  free list are always the same pages, each once: none is handed out twice, lost or invented.
\<close>

theorem kalloc_kfree_conserve:
  assumes "kmem_inv s ps" "distinct (held @ ps)" "\<forall>p\<in>set held. page_ok s p"
  shows "\<exists>held' ps' t. client_run kalloc kfree ops held s = Ok (held', t) \<and> kmem_inv t ps' \<and>
    distinct (held' @ ps') \<and> mset (held' @ ps') = mset (held @ ps)"
proof -
  from kmem.client_conserves [OF assms, of ops] obtain held' ps' t where
    r: "client_run kalloc kfree ops held s = Ok (held', t)" "kmem_inv t ps'"
    and eq: "mset (held' @ ps') = mset (held @ ps)" by blast
  from eq assms(2) have "distinct (held' @ ps')" by (metis mset_eq_imp_distinct_iff)
  with r eq show ?thesis by blast
qed

definition one_page :: kmem_st where
  "one_page = \<lparr>tp = 0, cpus = (\<lambda>_. \<lparr>cpu_proc = None, noff = 0, intena = False\<rparr>), sie = (\<lambda>_. False),
     kend = 0x80022000, kmem_lock = initlock ''kmem'', freelist = 0x87fff000, phys = (\<lambda>_. 0)\<rparr>"

lemma load_zero [simp]: "load (\<lambda>_. 0) a n = 0"
  by (induction n arbitrary: a) simp_all

lemma one_page_inv: "kmem_inv one_page [0x87fff000]"
  by (simp add: kmem_inv_def one_page_def hart_ok_def mycpu_def page_ok_def aligned_def PHYSTOP_def KERNBASE_def)

theorem kalloc_kfree_conserve_witness:
  "\<exists>held' ps' t. client_run kalloc kfree [Get, Get, Put 0, Get] [] one_page = Ok (held', t) \<and>
     kmem_inv t ps' \<and> distinct (held' @ ps') \<and> mset (held' @ ps') = {#0x87fff000#}"
  using kalloc_kfree_conserve [OF one_page_inv, of "[]" "[Get, Get, Put 0, Get]"] by (simp del: client_run.simps)

text \<open>
  C32: At boot \<open>kinit\<close> returns, without a panic, and the free list then holds exactly the whole pages
  between \<open>end\<close> rounded up and \<open>PHYSTOP\<close>, each once.
\<close>

theorem kinit_frees_all:
  assumes "hart_ok s" "freelist s = 0" "0 < kend s" "kend s \<le> PHYSTOP"
  shows "\<exists>t ps. kinit s = Some (Ok t) \<and> kmem_inv t ps \<and>
    set ps = {p. aligned 4096 p \<and> kend s \<le> p \<and> p < PHYSTOP}"
proof -
  let ?p = "PGROUNDUP (kend s)" and ?n = "unat (PHYSTOP - PGROUNDUP (kend s)) div 4096"
  from kinit_inv [OF assms] obtain t where t: "kinit s = Some (Ok t)" "kmem_inv t (rev (pages_from ?p ?n))"
    by blast
  have "set (rev (pages_from ?p ?n)) = {p. aligned 4096 p \<and> kend s \<le> p \<and> p < PHYSTOP}"
    by (rule set_pages_from [OF assms(3,4)])
  with t show ?thesis by blast
qed

theorem kinit_frees_all_witness:
  "\<exists>t ps. kinit (one_page\<lparr>freelist := 0\<rparr>) = Some (Ok t) \<and> kmem_inv t ps \<and>
     set ps = {p. aligned 4096 p \<and> 0x80022000 \<le> p \<and> p < PHYSTOP}"
  using kinit_frees_all [of "one_page\<lparr>freelist := 0\<rparr>"]
  by (simp add: one_page_def hart_ok_def mycpu_def PHYSTOP_def KERNBASE_def)

text \<open>
  C33: \<open>kfree_memsize\<close> terminates, returns the number of free pages times the page size, which does not
  wrap around, and changes nothing but the hart's record of its interrupt state.
\<close>

theorem kfree_memsize_counts:
  assumes "kmem_inv s ps"
  shows "\<exists>n. kfree_memsize s = Some (Ok (n, settled s)) \<and> unat n = length ps * 4096"
proof -
  have "length ps * 4096 < 2 ^ 64" using kmem_inv_length [OF assms] by simp
  then have "unat (of_nat (length ps) * PGSIZE :: u64) = length ps * 4096"
    using unat_add_of_nat [of "0 :: u64" "length ps * 4096"] by simp
  with count_free_runs [OF kmem_invD(4) [OF assms], of 0] kmem_invD(1,2) [OF assms] show ?thesis
    by (simp add: kfree_memsize_def Let_def pop_push)
qed

theorem kfree_memsize_counts_witness:
  "\<exists>n. kfree_memsize one_page = Some (Ok (n, settled one_page)) \<and> unat n = 4096"
  using kfree_memsize_counts [OF one_page_inv] by simp

end
