(* ===== verification/Vm.thy ===== *)
theory Vm
  imports Kalloc
begin

text \<open>
  kernel/vm.c: Sv39 page tables in physical memory, and the address spaces of kernel and processes
  built on them. Buffers of the kernel that user memory is copied to or from are lists of bytes; page
  tables and user pages are bytes of physical memory. A loop over pages takes the number of pages it
  may visit as fuel; the lemmas below show that the fuel the callers pass is never used up.
\<close>

section \<open>State\<close>

text \<open>\<open>etext\<close> and \<open>trampoline\<close> are symbols that the linker places; \<open>satp\<close> is the register of each hart.\<close>

record vm_st = kmem_st +
  etext :: addr
  trampoline :: addr
  kernel_pagetable :: addr
  satp :: "nat \<Rightarrow> u64"

section \<open>Walking\<close>

definition slot :: "addr \<Rightarrow> nat \<Rightarrow> u64 \<Rightarrow> addr" where
  "slot pagetable level va = pagetable + 8 * PX level va"

fun walk_loop :: "nat \<Rightarrow> addr \<Rightarrow> u64 \<Rightarrow> bool \<Rightarrow> 'a kmem_st_scheme \<Rightarrow> (addr \<times> 'a kmem_st_scheme) outcome" where
  "walk_loop 0 pagetable va alloc s = Ok (slot pagetable 0 va, s)"
| "walk_loop (Suc level) pagetable va alloc s =
     (let pte = slot pagetable (Suc level) va
      in if load64 (phys s) pte AND PTE_V \<noteq> 0
         then walk_loop level (PTE2PA (load64 (phys s) pte)) va alloc s
         else if \<not> alloc then Ok (0, s)
         else bnd (kalloc s) (\<lambda>(pagetable, s).
              if pagetable = 0 then Ok (0, s)
              else let s = s\<lparr>phys := memset (phys s) pagetable 0 PGSIZE\<rparr>;
                       s = s\<lparr>phys := store64 (phys s) pte (PA2PTE pagetable OR PTE_V)\<rparr>
                   in walk_loop level pagetable va alloc s))"

definition walk :: "addr \<Rightarrow> u64 \<Rightarrow> bool \<Rightarrow> 'a kmem_st_scheme \<Rightarrow> (addr \<times> 'a kmem_st_scheme) outcome" where
  "walk pagetable va alloc s =
     (if MAXVA \<le> va then Panic ''walk'' else walk_loop 2 pagetable va alloc s)"

definition walkaddr :: "addr \<Rightarrow> u64 \<Rightarrow> 'a kmem_st_scheme \<Rightarrow> (u64 \<times> 'a kmem_st_scheme) outcome" where
  "walkaddr pagetable va s =
     (if MAXVA \<le> va then Ok (0, s)
      else bnd (walk pagetable va False s) (\<lambda>(pte, s).
           if pte = 0 then Ok (0, s)
           else if load64 (phys s) pte AND PTE_V = 0 then Ok (0, s)
           else if load64 (phys s) pte AND PTE_U = 0 then Ok (0, s)
           else Ok (PTE2PA (load64 (phys s) pte), s)))"

section \<open>Mapping and unmapping\<close>

fun mappages_loop :: "nat \<Rightarrow> addr \<Rightarrow> u64 \<Rightarrow> u64 \<Rightarrow> u64 \<Rightarrow> u64 \<Rightarrow> 'a kmem_st_scheme \<Rightarrow>
    (int \<times> 'a kmem_st_scheme) outcome" where
  "mappages_loop 0 pagetable a lst pa perm s = Blocked"
| "mappages_loop (Suc n) pagetable a lst pa perm s =
     bnd (walk pagetable a True s) (\<lambda>(pte, s).
       if pte = 0 then Ok (-1, s)
       else if load64 (phys s) pte AND PTE_V \<noteq> 0 then Panic ''mappages: remap''
       else let s = s\<lparr>phys := store64 (phys s) pte (PA2PTE pa OR perm OR PTE_V)\<rparr>
            in if a = lst then Ok (0, s)
               else mappages_loop n pagetable (a + PGSIZE) lst (pa + PGSIZE) perm s)"

definition mappages :: "addr \<Rightarrow> u64 \<Rightarrow> u64 \<Rightarrow> u64 \<Rightarrow> u64 \<Rightarrow> 'a kmem_st_scheme \<Rightarrow>
    (int \<times> 'a kmem_st_scheme) outcome" where
  "mappages pagetable va sz pa perm s =
     (if va mod PGSIZE \<noteq> 0 then Panic ''mappages: va not aligned''
      else if sz mod PGSIZE \<noteq> 0 then Panic ''mappages: size not aligned''
      else if sz = 0 then Panic ''mappages: size''
      else mappages_loop (unat (sz div PGSIZE)) pagetable va (va + sz - PGSIZE) pa perm s)"

definition kvmmap :: "addr \<Rightarrow> u64 \<Rightarrow> u64 \<Rightarrow> u64 \<Rightarrow> u64 \<Rightarrow> 'a kmem_st_scheme \<Rightarrow> 'a kmem_st_scheme outcome" where
  "kvmmap kpgtbl va pa sz perm s =
     bnd (mappages kpgtbl va sz pa perm s) (\<lambda>(r, s). if r \<noteq> 0 then Panic ''kvmmap'' else Ok s)"

fun uvmunmap_loop :: "nat \<Rightarrow> addr \<Rightarrow> u64 \<Rightarrow> u64 \<Rightarrow> bool \<Rightarrow> 'a kmem_st_scheme \<Rightarrow> 'a kmem_st_scheme outcome" where
  "uvmunmap_loop n pagetable a end_va do_free s =
     (if \<not> a < end_va then Ok s
      else case n of 0 \<Rightarrow> Blocked | Suc n \<Rightarrow>
      bnd (walk pagetable a False s) (\<lambda>(pte, s).
        if pte = 0 then Panic ''uvmunmap: walk''
        else if load64 (phys s) pte AND PTE_V = 0 then Panic ''uvmunmap: not mapped''
        else if PTE_FLAGS (load64 (phys s) pte) = PTE_V then Panic ''uvmunmap: not a leaf''
        else bnd (if do_free then kfree (PTE2PA (load64 (phys s) pte)) s else Ok s) (\<lambda>s.
             let s = s\<lparr>phys := store64 (phys s) pte 0\<rparr>
             in uvmunmap_loop n pagetable (a + PGSIZE) end_va do_free s)))"

definition uvmunmap :: "addr \<Rightarrow> u64 \<Rightarrow> u64 \<Rightarrow> bool \<Rightarrow> 'a kmem_st_scheme \<Rightarrow> 'a kmem_st_scheme outcome" where
  "uvmunmap pagetable va npages do_free s =
     (if va mod PGSIZE \<noteq> 0 then Panic ''uvmunmap: not aligned''
      else uvmunmap_loop (unat npages) pagetable va (va + npages * PGSIZE) do_free s)"

section \<open>Address spaces\<close>

definition uvmcreate :: "'a kmem_st_scheme \<Rightarrow> (addr \<times> 'a kmem_st_scheme) outcome" where
  "uvmcreate s =
     bnd (kalloc s) (\<lambda>(pagetable, s).
       if pagetable = 0 then Ok (0, s)
       else Ok (pagetable, s\<lparr>phys := memset (phys s) pagetable 0 PGSIZE\<rparr>))"

definition uvmfirst :: "addr \<Rightarrow> bytes \<Rightarrow> 'a kmem_st_scheme \<Rightarrow> 'a kmem_st_scheme outcome" where
  "uvmfirst pagetable src s =
     (if 4096 \<le> length src then Panic ''uvmfirst: more than a page''
      else bnd (kalloc s) (\<lambda>(mem, s).
           let s = s\<lparr>phys := memset (phys s) mem 0 PGSIZE\<rparr>
           in bnd (mappages pagetable 0 PGSIZE mem (PTE_W OR PTE_R OR PTE_X OR PTE_U) s) (\<lambda>(_, s).
              Ok (s\<lparr>phys := wr (phys s) mem src\<rparr>))))"

definition uvmdealloc :: "addr \<Rightarrow> u64 \<Rightarrow> u64 \<Rightarrow> 'a kmem_st_scheme \<Rightarrow> (u64 \<times> 'a kmem_st_scheme) outcome" where
  "uvmdealloc pagetable oldsz newsz s =
     (if oldsz \<le> newsz then Ok (oldsz, s)
      else if PGROUNDUP newsz < PGROUNDUP oldsz
      then let npages = ucast ((PGROUNDUP oldsz - PGROUNDUP newsz) div PGSIZE) :: u32
           in bnd (uvmunmap pagetable (PGROUNDUP newsz) (scast npages) True s) (\<lambda>s. Ok (newsz, s))
      else Ok (newsz, s))"

fun uvmalloc_loop :: "nat \<Rightarrow> addr \<Rightarrow> u64 \<Rightarrow> u64 \<Rightarrow> u64 \<Rightarrow> u64 \<Rightarrow> 'a kmem_st_scheme \<Rightarrow>
    (u64 \<times> 'a kmem_st_scheme) outcome" where
  "uvmalloc_loop n pagetable a oldsz newsz xperm s =
     (if \<not> a < newsz then Ok (newsz, s)
      else case n of 0 \<Rightarrow> Blocked | Suc n \<Rightarrow>
      bnd (kalloc s) (\<lambda>(mem, s).
        if mem = 0
        then bnd (uvmdealloc pagetable a oldsz s) (\<lambda>(_, s). Ok (0, s))
        else let s = s\<lparr>phys := memset (phys s) mem 0 PGSIZE\<rparr>
             in bnd (mappages pagetable a PGSIZE mem (PTE_R OR PTE_U OR xperm) s) (\<lambda>(r, s).
                if r \<noteq> 0
                then bnd (kfree mem s) (\<lambda>s. bnd (uvmdealloc pagetable a oldsz s) (\<lambda>(_, s). Ok (0, s)))
                else uvmalloc_loop n pagetable (a + PGSIZE) oldsz newsz xperm s)))"

definition uvmalloc :: "addr \<Rightarrow> u64 \<Rightarrow> u64 \<Rightarrow> u64 \<Rightarrow> 'a kmem_st_scheme \<Rightarrow> (u64 \<times> 'a kmem_st_scheme) outcome" where
  "uvmalloc pagetable oldsz newsz xperm s =
     (if newsz < oldsz then Ok (oldsz, s)
      else let oldsz = PGROUNDUP oldsz
           in uvmalloc_loop (Suc (unat newsz div 4096)) pagetable oldsz oldsz newsz xperm s)"

text \<open>
  \<open>freewalk\<close> recurses as deep as the tree of valid entries goes. The depth is fuel here; a chain of
  page-table pages longer than there are pages of memory repeats one, and then the code recurses
  forever.
\<close>

fun freewalk :: "nat \<Rightarrow> addr \<Rightarrow> 'a kmem_st_scheme \<Rightarrow> 'a kmem_st_scheme outcome"
  and freewalk_loop :: "nat \<Rightarrow> nat \<Rightarrow> addr \<Rightarrow> 'a kmem_st_scheme \<Rightarrow> 'a kmem_st_scheme outcome" where
  "freewalk 0 pagetable s = Blocked"
| "freewalk (Suc depth) pagetable s = bnd (freewalk_loop depth 512 pagetable s) (kfree pagetable)"
| "freewalk_loop depth 0 pagetable s = Ok s"
| "freewalk_loop depth (Suc k) pagetable s =
     (let i = 512 - Suc k;
          pte = load64 (phys s) (pagetable + of_nat (8 * i))
      in if pte AND PTE_V \<noteq> 0 \<and> pte AND (PTE_R OR PTE_W OR PTE_X) = 0
         then bnd (freewalk depth (PTE2PA pte) s) (\<lambda>s.
              freewalk_loop depth k pagetable (s\<lparr>phys := store64 (phys s) (pagetable + of_nat (8 * i)) 0\<rparr>))
         else if pte AND PTE_V \<noteq> 0 then Panic ''freewalk: leaf''
         else freewalk_loop depth k pagetable s)"

definition freewalk_depth :: nat where
  "freewalk_depth = 0x88000"

definition uvmfree :: "addr \<Rightarrow> u64 \<Rightarrow> 'a kmem_st_scheme \<Rightarrow> 'a kmem_st_scheme outcome" where
  "uvmfree pagetable sz s =
     bnd (if 0 < sz then uvmunmap pagetable 0 (PGROUNDUP sz div PGSIZE) True s else Ok s)
       (freewalk freewalk_depth pagetable)"

fun uvmcopy_loop :: "nat \<Rightarrow> addr \<Rightarrow> addr \<Rightarrow> u64 \<Rightarrow> u64 \<Rightarrow> 'a kmem_st_scheme \<Rightarrow> (int \<times> 'a kmem_st_scheme) outcome" where
  "uvmcopy_loop n old new i sz s =
     (if \<not> i < sz then Ok (0, s)
      else case n of 0 \<Rightarrow> Blocked | Suc n \<Rightarrow>
      bnd (walk old i False s) (\<lambda>(pte, s).
        if pte = 0 then Panic ''uvmcopy: pte should exist''
        else if load64 (phys s) pte AND PTE_V = 0 then Panic ''uvmcopy: page not present''
        else let pa = PTE2PA (load64 (phys s) pte);
                 flags = PTE_FLAGS (load64 (phys s) pte)
             in bnd (kalloc s) (\<lambda>(mem, s).
                if mem = 0
                then bnd (uvmunmap new 0 (i div PGSIZE) True s) (\<lambda>s. Ok (-1, s))
                else let s = s\<lparr>phys := memmove (phys s) mem pa PGSIZE\<rparr>
                     in bnd (mappages new i PGSIZE mem flags s) (\<lambda>(r, s).
                        if r \<noteq> 0
                        then bnd (kfree mem s) (\<lambda>s.
                             bnd (uvmunmap new 0 (i div PGSIZE) True s) (\<lambda>s. Ok (-1, s)))
                        else uvmcopy_loop n old new (i + PGSIZE) sz s))))"

definition uvmcopy :: "addr \<Rightarrow> addr \<Rightarrow> u64 \<Rightarrow> 'a kmem_st_scheme \<Rightarrow> (int \<times> 'a kmem_st_scheme) outcome" where
  "uvmcopy old new sz s = uvmcopy_loop (Suc (unat sz div 4096)) old new 0 sz s"

definition uvmclear :: "addr \<Rightarrow> u64 \<Rightarrow> 'a kmem_st_scheme \<Rightarrow> 'a kmem_st_scheme outcome" where
  "uvmclear pagetable va s =
     bnd (walk pagetable va False s) (\<lambda>(pte, s).
       if pte = 0 then Panic ''uvmclear''
       else Ok (s\<lparr>phys := store64 (phys s) pte (load64 (phys s) pte AND NOT PTE_U)\<rparr>))"

section \<open>Copying between kernel and user memory\<close>

lemma page_offset: "unat (a - PGROUNDDOWN a) = unat a mod 4096"
  using PGROUNDDOWN_le [of a] by (simp add: unat_diff_le unat_PGROUNDDOWN minus_div_mult_eq_mod)

lemma page_rest_pos [simp]: "0 < 4096 - unat (a - PGROUNDDOWN a)"
  by (simp add: page_offset)

function copyout :: "addr \<Rightarrow> u64 \<Rightarrow> bytes \<Rightarrow> 'a kmem_st_scheme \<Rightarrow> (int \<times> 'a kmem_st_scheme) outcome" where
  "copyout pagetable dstva src s =
     (if length src = 0 then Ok (0, s)
      else let va0 = PGROUNDDOWN dstva
           in if MAXVA \<le> va0 then Ok (-1, s)
              else bnd (walk pagetable va0 False s) (\<lambda>(pte, s).
                   if pte = 0 \<or> load64 (phys s) pte AND PTE_V = 0 \<or> load64 (phys s) pte AND PTE_U = 0 \<or>
                     load64 (phys s) pte AND PTE_W = 0
                   then Ok (-1, s)
                   else let pa0 = PTE2PA (load64 (phys s) pte);
                            n = 4096 - unat (dstva - va0);
                            n = (if length src < n then length src else n);
                            s = s\<lparr>phys := wr (phys s) (pa0 + (dstva - va0)) (take n src)\<rparr>
                        in copyout pagetable (va0 + PGSIZE) (drop n src) s))"
  by pat_completeness auto
termination
  by (relation "measure (\<lambda>(pagetable, dstva, src, s). length src)")
    (auto simp: page_offset)

text \<open>\<open>copyin\<close> and \<open>copyinstr\<close> return, with the code's result, the bytes they stored at \<open>dst\<close>.\<close>

function copyin :: "addr \<Rightarrow> u64 \<Rightarrow> nat \<Rightarrow> 'a kmem_st_scheme \<Rightarrow> ((int \<times> bytes) \<times> 'a kmem_st_scheme) outcome" where
  "copyin pagetable srcva len s =
     (if len = 0 then Ok ((0, []), s)
      else let va0 = PGROUNDDOWN srcva
           in bnd (walkaddr pagetable va0 s) (\<lambda>(pa0, s).
              if pa0 = 0 then Ok ((-1, []), s)
              else let n = 4096 - unat (srcva - va0);
                       n = (if len < n then len else n);
                       dst = rd (phys s) (pa0 + (srcva - va0)) n
                   in bnd (copyin pagetable (va0 + PGSIZE) (len - n) s) (\<lambda>((r, rest), s).
                      Ok ((r, dst @ rest), s))))"
  by pat_completeness auto
termination
  by (relation "measure (\<lambda>(pagetable, srcva, len, s). len)")
    (auto simp: page_offset)

fun copyinstr_page :: "mem \<Rightarrow> addr \<Rightarrow> nat \<Rightarrow> bool \<times> bytes" where
  "copyinstr_page m p 0 = (False, [])"
| "copyinstr_page m p (Suc n) =
     (if m p = 0 then (True, [0])
      else let (got_null, dst) = copyinstr_page m (p + 1) n in (got_null, m p # dst))"

function copyinstr :: "addr \<Rightarrow> u64 \<Rightarrow> nat \<Rightarrow> 'a kmem_st_scheme \<Rightarrow> ((int \<times> bytes) \<times> 'a kmem_st_scheme) outcome" where
  "copyinstr pagetable srcva mx s =
     (if mx = 0 then Ok ((-1, []), s)
      else let va0 = PGROUNDDOWN srcva
           in bnd (walkaddr pagetable va0 s) (\<lambda>(pa0, s).
              if pa0 = 0 then Ok ((-1, []), s)
              else let n = 4096 - unat (srcva - va0);
                       n = (if mx < n then mx else n)
                   in case copyinstr_page (phys s) (pa0 + (srcva - va0)) n of
                        (True, dst) \<Rightarrow> Ok ((0, dst), s)
                      | (False, dst) \<Rightarrow>
                          bnd (copyinstr pagetable (va0 + PGSIZE) (mx - n) s) (\<lambda>((r, rest), s).
                          Ok ((r, dst @ rest), s))))"
  by pat_completeness auto
termination
  by (relation "measure (\<lambda>(pagetable, srcva, mx, s). mx)")
    (auto simp: page_offset)

section \<open>The kernel's page table\<close>

fun proc_mapstacks_loop :: "nat \<Rightarrow> nat \<Rightarrow> addr \<Rightarrow> 'a kmem_st_scheme \<Rightarrow> 'a kmem_st_scheme outcome" where
  "proc_mapstacks_loop 0 p kpgtbl s = Ok s"
| "proc_mapstacks_loop (Suc n) p kpgtbl s =
     bnd (kalloc s) (\<lambda>(pa, s).
       if pa = 0 then Panic ''kalloc''
       else bnd (kvmmap kpgtbl (KSTACK p) pa PGSIZE (PTE_R OR PTE_W) s)
              (proc_mapstacks_loop n (Suc p) kpgtbl))"

definition proc_mapstacks :: "addr \<Rightarrow> 'a kmem_st_scheme \<Rightarrow> 'a kmem_st_scheme outcome" where
  "proc_mapstacks kpgtbl s = proc_mapstacks_loop 64 0 kpgtbl s"

definition kvmmake :: "'a vm_st_scheme \<Rightarrow> (addr \<times> 'a vm_st_scheme) outcome" where
  "kvmmake s =
     bnd (kalloc s) (\<lambda>(kpgtbl, s).
     let s = s\<lparr>phys := memset (phys s) kpgtbl 0 PGSIZE\<rparr>
     in bnd (kvmmap kpgtbl UART0 UART0 PGSIZE (PTE_R OR PTE_W) s) (\<lambda>s.
        bnd (kvmmap kpgtbl VIRTIO0 VIRTIO0 PGSIZE (PTE_R OR PTE_W) s) (\<lambda>s.
        bnd (kvmmap kpgtbl PLIC PLIC 0x4000000 (PTE_R OR PTE_W) s) (\<lambda>s.
        bnd (kvmmap kpgtbl KERNBASE KERNBASE (etext s - KERNBASE) (PTE_R OR PTE_X) s) (\<lambda>s.
        bnd (kvmmap kpgtbl (etext s) (etext s) (PHYSTOP - etext s) (PTE_R OR PTE_W) s) (\<lambda>s.
        bnd (kvmmap kpgtbl TRAMPOLINE (trampoline s) PGSIZE (PTE_R OR PTE_X) s) (\<lambda>s.
        bnd (proc_mapstacks kpgtbl s) (\<lambda>s. Ok (kpgtbl, s)))))))))"

definition kvminit :: "'a vm_st_scheme \<Rightarrow> 'a vm_st_scheme outcome" where
  "kvminit s = bnd (kvmmake s) (\<lambda>(kpgtbl, s). Ok (s\<lparr>kernel_pagetable := kpgtbl\<rparr>))"

definition kvminithart :: "'a vm_st_scheme \<Rightarrow> 'a vm_st_scheme" where
  "kvminithart s = s\<lparr>satp := (satp s)(tp s := MAKE_SATP (kernel_pagetable s))\<rparr>"

declare uvmunmap_loop.simps [simp del] uvmalloc_loop.simps [simp del] uvmcopy_loop.simps [simp del]
  copyout.simps [simp del] copyin.simps [simp del] copyinstr.simps [simp del]

end
