(* ===== verification/Proc.thy ===== *)
theory Proc
  imports Vm
begin

text \<open>
  kernel/proc.c and kernel/proc.h without the operations that need the file system (those are in
  \<open>Process\<close>): the process table, allocation and release of a process, sleep and wakeup, kill, and the
  copies to and from user or kernel memory. A thread that calls \<open>sleep\<close> gives up its hart after the
  checks of \<open>sched\<close>; for the code that called it this is the outcome \<open>Blocked\<close>. What happens across the
  context switch is the subject of \<open>Scheduler\<close>.
\<close>

section \<open>Locks that are part of a larger state\<close>

text \<open>A lock inside a state is given by how to read it and how to update it.\<close>

definition acquire_in :: "('a hart_st_scheme \<Rightarrow> spinlock) \<Rightarrow>
    ((spinlock \<Rightarrow> spinlock) \<Rightarrow> 'a hart_st_scheme \<Rightarrow> 'a hart_st_scheme) \<Rightarrow>
    'a hart_st_scheme \<Rightarrow> 'a hart_st_scheme outcome" where
  "acquire_in get upd s = bnd (acquire (get s) s) (\<lambda>(l, s). Ok (upd (\<lambda>_. l) s))"

definition release_in :: "('a hart_st_scheme \<Rightarrow> spinlock) \<Rightarrow>
    ((spinlock \<Rightarrow> spinlock) \<Rightarrow> 'a hart_st_scheme \<Rightarrow> 'a hart_st_scheme) \<Rightarrow>
    'a hart_st_scheme \<Rightarrow> 'a hart_st_scheme outcome" where
  "release_in get upd s = bnd (release (get s) s) (\<lambda>(l, s). Ok (upd (\<lambda>_. l) s))"

section \<open>State\<close>

datatype procstate = UNUSED | USED | SLEEPING | RUNNABLE | RUNNING | ZOMBIE

text \<open>
  A channel is the address of some kernel object; the constructors name the objects the kernel sleeps on.
\<close>

datatype chan =
    ChanProc nat | ChanTicks | ChanBufLock nat | ChanInodeLock nat | ChanLog
  | ChanDisk nat | ChanDiskFree | ChanPipeRead nat | ChanPipeWrite nat | ChanCons | ChanUart

text \<open>\<open>struct context\<close>: return address, stack pointer and the callee-saved registers s0 to s11.\<close>

record kcontext =
  ctx_ra :: u64
  ctx_sp :: u64
  ctx_s :: "u64 list"

text \<open>
  \<open>struct proc\<close>. Processes, open files and in-memory inodes are indices into their tables, and \<open>None\<close> is
  the null pointer; the trapframe is a page of physical memory.
\<close>

record proc =
  p_lock :: spinlock
  p_state :: procstate
  p_chan :: "chan option"
  p_killed :: u32
  p_xstate :: u32
  p_pid :: u32
  p_parent :: "nat option"
  p_kstack :: u64
  p_sz :: u64
  p_pagetable :: addr
  p_trapframe :: addr
  p_context :: kcontext
  p_ofile :: "nat option list"
  p_cwd :: "nat option"
  p_name :: bytes
  p_trace_mask :: u32

record proc_st = vm_st +
  procs :: "proc list"
  initproc :: "nat option"
  nextpid :: u32
  pid_lock :: spinlock
  wait_lock :: spinlock
  forkret_pc :: addr

definition NPROC :: nat where
  "NPROC = 64"

definition upd_proc :: "nat \<Rightarrow> (proc \<Rightarrow> proc) \<Rightarrow> 'a proc_st_scheme \<Rightarrow> 'a proc_st_scheme" where
  "upd_proc i f s = s\<lparr>procs := (procs s)[i := f (procs s ! i)]\<rparr>"

abbreviation get_plock :: "nat \<Rightarrow> 'a proc_st_scheme \<Rightarrow> spinlock" where
  "get_plock i s \<equiv> p_lock (procs s ! i)"

abbreviation upd_plock :: "nat \<Rightarrow> (spinlock \<Rightarrow> spinlock) \<Rightarrow> 'a proc_st_scheme \<Rightarrow> 'a proc_st_scheme" where
  "upd_plock i f s \<equiv> upd_proc i (p_lock_update f) s"

abbreviation acquire_p :: "nat \<Rightarrow> 'a proc_st_scheme \<Rightarrow> 'a proc_st_scheme outcome" where
  "acquire_p i s \<equiv> acquire_in (get_plock i) (upd_plock i) s"

abbreviation release_p :: "nat \<Rightarrow> 'a proc_st_scheme \<Rightarrow> 'a proc_st_scheme outcome" where
  "release_p i s \<equiv> release_in (get_plock i) (upd_plock i) s"

text \<open>Offsets of the fields of \<open>struct trapframe\<close> that the kernel's C code uses.\<close>

definition tf_kernel_satp :: u64 where "tf_kernel_satp = 0"
definition tf_kernel_sp :: u64 where "tf_kernel_sp = 8"
definition tf_kernel_trap :: u64 where "tf_kernel_trap = 16"
definition tf_epc :: u64 where "tf_epc = 24"
definition tf_kernel_hartid :: u64 where "tf_kernel_hartid = 32"
definition tf_sp :: u64 where "tf_sp = 48"
definition tf_a :: "nat \<Rightarrow> u64" where "tf_a n = 112 + 8 * of_nat n"
definition tf_size :: nat where "tf_size = 288"

definition tf_load :: "nat \<Rightarrow> u64 \<Rightarrow> 'a proc_st_scheme \<Rightarrow> u64" where
  "tf_load p off s = load64 (phys s) (p_trapframe (procs s ! p) + off)"

definition tf_store :: "nat \<Rightarrow> u64 \<Rightarrow> u64 \<Rightarrow> 'a proc_st_scheme \<Rightarrow> 'a proc_st_scheme" where
  "tf_store p off v s = s\<lparr>phys := store64 (phys s) (p_trapframe (procs s ! p) + off) v\<rparr>"

section \<open>The process table\<close>

fun procinit_loop :: "nat \<Rightarrow> nat \<Rightarrow> 'a proc_st_scheme \<Rightarrow> 'a proc_st_scheme" where
  "procinit_loop 0 i s = s"
| "procinit_loop (Suc n) i s =
     procinit_loop n (Suc i)
       (upd_proc i (\<lambda>p. p\<lparr>p_lock := initlock ''proc'', p_state := UNUSED, p_kstack := KSTACK i\<rparr>) s)"

definition procinit :: "'a proc_st_scheme \<Rightarrow> 'a proc_st_scheme" where
  "procinit s =
     procinit_loop NPROC 0 (s\<lparr>pid_lock := initlock ''nextpid'', wait_lock := initlock ''wait_lock''\<rparr>)"

definition cpuid :: "'a hart_st_scheme \<Rightarrow> nat" where
  "cpuid s = tp s"

definition myproc :: "'a hart_st_scheme \<Rightarrow> (nat option \<times> 'a hart_st_scheme) outcome" where
  "myproc s =
     (let s = push_off s;
          p = cpu_proc (mycpu s)
      in bnd (pop_off s) (\<lambda>s. Ok (p, s)))"

text \<open>
  \<open>myproc()\<close> where the code dereferences the result at once: address 0 is not mapped in the kernel's page
  table, so that a null pointer ends in \<open>kerneltrap\<close>.
\<close>

definition curproc :: "'a hart_st_scheme \<Rightarrow> (nat \<times> 'a hart_st_scheme) outcome" where
  "curproc s = bnd (myproc s) (\<lambda>(p, s). case p of None \<Rightarrow> Panic ''kerneltrap'' | Some p \<Rightarrow> Ok (p, s))"

definition allocpid :: "'a proc_st_scheme \<Rightarrow> (u32 \<times> 'a proc_st_scheme) outcome" where
  "allocpid s =
     bnd (acquire_in pid_lock pid_lock_update s) (\<lambda>s.
     let pid = nextpid s;
         s = s\<lparr>nextpid := nextpid s + 1\<rparr>
     in bnd (release_in pid_lock pid_lock_update s) (\<lambda>s. Ok (pid, s)))"

definition proc_freepagetable :: "addr \<Rightarrow> u64 \<Rightarrow> 'a kmem_st_scheme \<Rightarrow> 'a kmem_st_scheme outcome" where
  "proc_freepagetable pagetable sz s =
     bnd (uvmunmap pagetable TRAMPOLINE 1 False s) (\<lambda>s.
     bnd (uvmunmap pagetable TRAPFRAME 1 False s) (\<lambda>s.
     uvmfree pagetable sz s))"

definition proc_pagetable :: "nat \<Rightarrow> 'a proc_st_scheme \<Rightarrow> (addr \<times> 'a proc_st_scheme) outcome" where
  "proc_pagetable p s =
     bnd (uvmcreate s) (\<lambda>(pagetable, s).
     if pagetable = 0 then Ok (0, s)
     else bnd (mappages pagetable TRAMPOLINE PGSIZE (trampoline s) (PTE_R OR PTE_X) s) (\<lambda>(r, s).
     if r < 0 then bnd (uvmfree pagetable 0 s) (\<lambda>s. Ok (0, s))
     else bnd (mappages pagetable TRAPFRAME PGSIZE (p_trapframe (procs s ! p)) (PTE_R OR PTE_W) s) (\<lambda>(r, s).
     if r < 0
     then bnd (uvmunmap pagetable TRAMPOLINE 1 False s) (\<lambda>s.
          bnd (uvmfree pagetable 0 s) (\<lambda>s. Ok (0, s)))
     else Ok (pagetable, s))))"

text \<open>\<open>p->name[0] = 0\<close> leaves the rest of the name.\<close>

definition freeproc :: "nat \<Rightarrow> 'a proc_st_scheme \<Rightarrow> 'a proc_st_scheme outcome" where
  "freeproc p s =
     bnd (if p_trapframe (procs s ! p) \<noteq> 0 then kfree (p_trapframe (procs s ! p)) s else Ok s) (\<lambda>s.
     let s = upd_proc p (\<lambda>q. q\<lparr>p_trapframe := 0\<rparr>) s
     in bnd (if p_pagetable (procs s ! p) \<noteq> 0
             then proc_freepagetable (p_pagetable (procs s ! p)) (p_sz (procs s ! p)) s else Ok s) (\<lambda>s.
        Ok (upd_proc p (\<lambda>q. q\<lparr>p_pagetable := 0, p_sz := 0, p_pid := 0, p_parent := None,
              p_name := (p_name q)[0 := 0], p_chan := None, p_killed := 0, p_xstate := 0,
              p_state := UNUSED\<rparr>) s)))"

fun allocproc_scan :: "nat \<Rightarrow> nat \<Rightarrow> 'a proc_st_scheme \<Rightarrow> (nat option \<times> 'a proc_st_scheme) outcome" where
  "allocproc_scan 0 p s = Ok (None, s)"
| "allocproc_scan (Suc n) p s =
     bnd (acquire_p p s) (\<lambda>s.
       if p_state (procs s ! p) = UNUSED then Ok (Some p, s)
       else bnd (release_p p s) (allocproc_scan n (Suc p)))"

definition allocproc_init :: "nat \<Rightarrow> 'a proc_st_scheme \<Rightarrow> (nat option \<times> 'a proc_st_scheme) outcome" where
  "allocproc_init p s =
     bnd (allocpid s) (\<lambda>(pid, s).
     let s = upd_proc p (\<lambda>q. q\<lparr>p_pid := pid, p_state := USED\<rparr>) s
     in bnd (kalloc s) (\<lambda>(tf, s).
        let s = upd_proc p (\<lambda>q. q\<lparr>p_trapframe := tf\<rparr>) s
        in if tf = 0
           then bnd (freeproc p s) (\<lambda>s. bnd (release_p p s) (\<lambda>s. Ok (None, s)))
           else bnd (proc_pagetable p s) (\<lambda>(pagetable, s).
             let s = upd_proc p (\<lambda>q. q\<lparr>p_pagetable := pagetable\<rparr>) s
             in if pagetable = 0
                then bnd (freeproc p s) (\<lambda>s. bnd (release_p p s) (\<lambda>s. Ok (None, s)))
                else let s = upd_proc p (\<lambda>q. q\<lparr>p_context :=
                           \<lparr>ctx_ra = forkret_pc s, ctx_sp = p_kstack q + PGSIZE, ctx_s = replicate 12 0\<rparr>\<rparr>) s
                     in Ok (Some p, s))))"

definition allocproc :: "'a proc_st_scheme \<Rightarrow> (nat option \<times> 'a proc_st_scheme) outcome" where
  "allocproc s =
     bnd (allocproc_scan NPROC 0 s) (\<lambda>(r, s).
       case r of None \<Rightarrow> Ok (None, s) | Some p \<Rightarrow> allocproc_init p s)"

definition growproc :: "u32 \<Rightarrow> 'a proc_st_scheme \<Rightarrow> (int \<times> 'a proc_st_scheme) outcome" where
  "growproc n s =
     bnd (curproc s) (\<lambda>(p, s).
     let sz = p_sz (procs s ! p);
         pt = p_pagetable (procs s ! p)
     in if 0 < sint n
        then bnd (uvmalloc pt sz (sz + scast n) PTE_W s) (\<lambda>(sz, s).
             if sz = 0 then Ok (-1, s) else Ok (0, upd_proc p (\<lambda>q. q\<lparr>p_sz := sz\<rparr>) s))
        else if sint n < 0
        then bnd (uvmdealloc pt sz (sz + scast n) s) (\<lambda>(sz, s).
             Ok (0, upd_proc p (\<lambda>q. q\<lparr>p_sz := sz\<rparr>) s))
        else Ok (0, upd_proc p (\<lambda>q. q\<lparr>p_sz := sz\<rparr>) s))"

section \<open>Sleeping and waking\<close>

text \<open>\<open>sched\<close> up to the context switch: the checks, and the \<open>intena\<close> that it saves in a local variable.\<close>

definition sched_out :: "'a proc_st_scheme \<Rightarrow> (bool \<times> 'a proc_st_scheme) outcome" where
  "sched_out s =
     bnd (curproc s) (\<lambda>(p, s).
       if \<not> holding (get_plock p s) s then Panic ''sched p->lock''
       else if noff (mycpu s) \<noteq> 1 then Panic ''sched locks''
       else if p_state (procs s ! p) = RUNNING then Panic ''sched running''
       else if intr_get s then Panic ''sched interruptible''
       else Ok (intena (mycpu s), s))"

text \<open>\<open>sched\<close> after the context switch back: \<open>intena\<close> belongs to the thread.\<close>

definition sched_in :: "bool \<Rightarrow> 'a hart_st_scheme \<Rightarrow> 'a hart_st_scheme" where
  "sched_in ena s = set_mycpu ((mycpu s)\<lparr>intena := ena\<rparr>) s"

text \<open>\<open>yield\<close> up to the context switch.\<close>

definition yield_out :: "'a proc_st_scheme \<Rightarrow> (bool \<times> 'a proc_st_scheme) outcome" where
  "yield_out s =
     bnd (curproc s) (\<lambda>(p, s).
     bnd (acquire_p p s) (\<lambda>s.
     sched_out (upd_proc p (\<lambda>q. q\<lparr>p_state := RUNNABLE\<rparr>) s)))"

text \<open>The end of \<open>exit\<close>, which holds \<open>wait_lock\<close>: the process becomes a zombie and leaves its hart.\<close>

definition exit_end :: "u32 \<Rightarrow> nat \<Rightarrow> 'a proc_st_scheme \<Rightarrow> (bool \<times> 'a proc_st_scheme) outcome" where
  "exit_end status p s =
     bnd (acquire_p p s) (\<lambda>s.
     let s = upd_proc p (\<lambda>q. q\<lparr>p_xstate := status, p_state := ZOMBIE\<rparr>) s
     in bnd (release_in wait_lock wait_lock_update s) sched_out)"

text \<open>\<open>sleep\<close> up to the context switch, for the lock that \<open>get\<close> and \<open>upd\<close> give.\<close>

definition sleep_out :: "chan \<Rightarrow> ('a proc_st_scheme \<Rightarrow> spinlock) \<Rightarrow>
    ((spinlock \<Rightarrow> spinlock) \<Rightarrow> 'a proc_st_scheme \<Rightarrow> 'a proc_st_scheme) \<Rightarrow>
    'a proc_st_scheme \<Rightarrow> (bool \<times> 'a proc_st_scheme) outcome" where
  "sleep_out ch get upd s =
     bnd (curproc s) (\<lambda>(p, s).
     bnd (acquire_p p s) (\<lambda>s.
     bnd (release_in get upd s) (\<lambda>s.
     sched_out (upd_proc p (\<lambda>q. q\<lparr>p_chan := Some ch, p_state := SLEEPING\<rparr>) s))))"

text \<open>For the thread that calls it, \<open>sleep\<close> is the end of what it can do by itself.\<close>

definition sleep :: "chan \<Rightarrow> ('a proc_st_scheme \<Rightarrow> spinlock) \<Rightarrow>
    ((spinlock \<Rightarrow> spinlock) \<Rightarrow> 'a proc_st_scheme \<Rightarrow> 'a proc_st_scheme) \<Rightarrow>
    'a proc_st_scheme \<Rightarrow> 'b outcome" where
  "sleep ch get upd s = bnd (sleep_out ch get upd s) (\<lambda>_. Blocked)"

fun wakeup_loop :: "nat \<Rightarrow> nat \<Rightarrow> chan \<Rightarrow> 'a proc_st_scheme \<Rightarrow> 'a proc_st_scheme outcome" where
  "wakeup_loop 0 p ch s = Ok s"
| "wakeup_loop (Suc n) p ch s =
     bnd (myproc s) (\<lambda>(me, s).
       if me \<noteq> Some p
       then bnd (acquire_p p s) (\<lambda>s.
            let s = (if p_state (procs s ! p) = SLEEPING \<and> p_chan (procs s ! p) = Some ch
                     then upd_proc p (\<lambda>q. q\<lparr>p_state := RUNNABLE\<rparr>) s else s)
            in bnd (release_p p s) (wakeup_loop n (Suc p) ch))
       else wakeup_loop n (Suc p) ch s)"

definition wakeup :: "chan \<Rightarrow> 'a proc_st_scheme \<Rightarrow> 'a proc_st_scheme outcome" where
  "wakeup ch s = wakeup_loop NPROC 0 ch s"

section \<open>Killing\<close>

fun kill_loop :: "nat \<Rightarrow> nat \<Rightarrow> u32 \<Rightarrow> 'a proc_st_scheme \<Rightarrow> (int \<times> 'a proc_st_scheme) outcome" where
  "kill_loop 0 p pid s = Ok (-1, s)"
| "kill_loop (Suc n) p pid s =
     bnd (acquire_p p s) (\<lambda>s.
       if p_pid (procs s ! p) = pid
       then let s = upd_proc p (\<lambda>q. q\<lparr>p_killed := 1\<rparr>) s;
                s = (if p_state (procs s ! p) = SLEEPING then upd_proc p (\<lambda>q. q\<lparr>p_state := RUNNABLE\<rparr>) s else s)
            in bnd (release_p p s) (\<lambda>s. Ok (0, s))
       else bnd (release_p p s) (kill_loop n (Suc p) pid))"

definition kill :: "u32 \<Rightarrow> 'a proc_st_scheme \<Rightarrow> (int \<times> 'a proc_st_scheme) outcome" where
  "kill pid s = kill_loop NPROC 0 pid s"

definition setkilled :: "nat \<Rightarrow> 'a proc_st_scheme \<Rightarrow> 'a proc_st_scheme outcome" where
  "setkilled p s =
     bnd (acquire_p p s) (\<lambda>s. release_p p (upd_proc p (\<lambda>q. q\<lparr>p_killed := 1\<rparr>) s))"

definition killed :: "nat \<Rightarrow> 'a proc_st_scheme \<Rightarrow> (u32 \<times> 'a proc_st_scheme) outcome" where
  "killed p s =
     bnd (acquire_p p s) (\<lambda>s.
     let k = p_killed (procs s ! p)
     in bnd (release_p p s) (\<lambda>s. Ok (k, s)))"

section \<open>Copying to and from user or kernel memory\<close>

text \<open>
  Where \<open>either_copyout\<close> copies to and \<open>either_copyin\<close> copies from: a user virtual address, a kernel
  address (physical memory is mapped at equal addresses), or a variable of the caller. As a destination
  \<open>Local\<close> holds the bytes stored so far, as a source the bytes still to be read.
\<close>

datatype place = User u64 | Phys u64 | Local bytes

definition either_copyout :: "place \<Rightarrow> bytes \<Rightarrow> 'a proc_st_scheme \<Rightarrow> ((int \<times> place) \<times> 'a proc_st_scheme) outcome" where
  "either_copyout dst src s =
     bnd (myproc s) (\<lambda>(p, s).
       case dst of
         User va \<Rightarrow>
           (case p of None \<Rightarrow> Panic ''kerneltrap''
            | Some p \<Rightarrow> bnd (copyout (p_pagetable (procs s ! p)) va src s) (\<lambda>(r, s). Ok ((r, dst), s)))
       | Phys a \<Rightarrow> Ok ((0, dst), s\<lparr>phys := wr (phys s) a src\<rparr>)
       | Local bs \<Rightarrow> Ok ((0, Local (bs @ src)), s))"

definition either_copyin :: "place \<Rightarrow> nat \<Rightarrow> 'a proc_st_scheme \<Rightarrow> ((int \<times> bytes) \<times> 'a proc_st_scheme) outcome" where
  "either_copyin src len s =
     bnd (myproc s) (\<lambda>(p, s).
       case src of
         User va \<Rightarrow>
           (case p of None \<Rightarrow> Panic ''kerneltrap''
            | Some p \<Rightarrow> copyin (p_pagetable (procs s ! p)) va len s)
       | Phys a \<Rightarrow> Ok ((0, rd (phys s) a len), s)
       | Local bs \<Rightarrow> Ok ((0, take len bs), s))"

text \<open>\<open>dst += m\<close> and \<open>src += m\<close>.\<close>

definition dst_add :: "place \<Rightarrow> nat \<Rightarrow> place" where
  "dst_add d m = (case d of User a \<Rightarrow> User (a + of_nat m) | Phys a \<Rightarrow> Phys (a + of_nat m) | Local bs \<Rightarrow> Local bs)"

definition src_add :: "place \<Rightarrow> nat \<Rightarrow> place" where
  "src_add d m = (case d of User a \<Rightarrow> User (a + of_nat m) | Phys a \<Rightarrow> Phys (a + of_nat m) | Local bs \<Rightarrow> Local (drop m bs))"

section \<open>Listings\<close>

text \<open>The lines that \<open>procdump\<close> prints: process id, state and name.\<close>

definition states :: "procstate \<Rightarrow> string" where
  "states st = (case st of UNUSED \<Rightarrow> ''unused'' | USED \<Rightarrow> ''used'' | SLEEPING \<Rightarrow> ''sleep '' | RUNNABLE \<Rightarrow> ''runble''
     | RUNNING \<Rightarrow> ''run   '' | ZOMBIE \<Rightarrow> ''zombie'')"

definition procdump :: "'a proc_st_scheme \<Rightarrow> (u32 \<times> string \<times> bytes) list" where
  "procdump s = map (\<lambda>p. (p_pid p, states (p_state p), p_name p)) (filter (\<lambda>p. p_state p \<noteq> UNUSED) (procs s))"

fun count_active_loop :: "nat \<Rightarrow> nat \<Rightarrow> u64 \<Rightarrow> 'a proc_st_scheme \<Rightarrow> u64" where
  "count_active_loop 0 p cnt s = cnt"
| "count_active_loop (Suc n) p cnt s =
     count_active_loop n (Suc p) (if p_state (procs s ! p) \<noteq> UNUSED then cnt + 1 else cnt) s"

definition count_active_processes :: "'a proc_st_scheme \<Rightarrow> u64" where
  "count_active_processes s = count_active_loop NPROC 0 0 s"

end
