(* ===== verification/Sleeplock.thy ===== *)
theory Sleeplock
  imports Proc
begin

text \<open>
  kernel/sleeplock.c. Like a spinlock, a sleeping lock is given by how to read it in the state and how to
  update it, with the channel that stands for its address.
\<close>

record sleeplock =
  sl_locked :: bool
  sl_lk :: spinlock
  sl_name :: string
  sl_pid :: u32

definition initsleeplock :: "string \<Rightarrow> sleeplock" where
  "initsleeplock name = \<lparr>sl_locked = False, sl_lk = initlock ''sleep lock'', sl_name = name, sl_pid = 0\<rparr>"

abbreviation acquire_lk :: "('a proc_st_scheme \<Rightarrow> sleeplock) \<Rightarrow>
    ((sleeplock \<Rightarrow> sleeplock) \<Rightarrow> 'a proc_st_scheme \<Rightarrow> 'a proc_st_scheme) \<Rightarrow>
    'a proc_st_scheme \<Rightarrow> 'a proc_st_scheme outcome" where
  "acquire_lk get upd s \<equiv> acquire_in (\<lambda>s. sl_lk (get s)) (\<lambda>f. upd (sl_lk_update f)) s"

abbreviation release_lk :: "('a proc_st_scheme \<Rightarrow> sleeplock) \<Rightarrow>
    ((sleeplock \<Rightarrow> sleeplock) \<Rightarrow> 'a proc_st_scheme \<Rightarrow> 'a proc_st_scheme) \<Rightarrow>
    'a proc_st_scheme \<Rightarrow> 'a proc_st_scheme outcome" where
  "release_lk get upd s \<equiv> release_in (\<lambda>s. sl_lk (get s)) (\<lambda>f. upd (sl_lk_update f)) s"

definition acquiresleep :: "chan \<Rightarrow> ('a proc_st_scheme \<Rightarrow> sleeplock) \<Rightarrow>
    ((sleeplock \<Rightarrow> sleeplock) \<Rightarrow> 'a proc_st_scheme \<Rightarrow> 'a proc_st_scheme) \<Rightarrow>
    'a proc_st_scheme \<Rightarrow> 'a proc_st_scheme outcome" where
  "acquiresleep ch get upd s =
     bnd (acquire_lk get upd s) (\<lambda>s.
       if sl_locked (get s) then sleep ch (\<lambda>s. sl_lk (get s)) (\<lambda>f. upd (sl_lk_update f)) s
       else let s = upd (\<lambda>l. l\<lparr>sl_locked := True\<rparr>) s
            in bnd (curproc s) (\<lambda>(p, s).
               let s = upd (\<lambda>l. l\<lparr>sl_pid := p_pid (procs s ! p)\<rparr>) s
               in release_lk get upd s))"

definition releasesleep :: "chan \<Rightarrow> ('a proc_st_scheme \<Rightarrow> sleeplock) \<Rightarrow>
    ((sleeplock \<Rightarrow> sleeplock) \<Rightarrow> 'a proc_st_scheme \<Rightarrow> 'a proc_st_scheme) \<Rightarrow>
    'a proc_st_scheme \<Rightarrow> 'a proc_st_scheme outcome" where
  "releasesleep ch get upd s =
     bnd (acquire_lk get upd s) (\<lambda>s.
     let s = upd (\<lambda>l. l\<lparr>sl_locked := False, sl_pid := 0\<rparr>) s
     in bnd (wakeup ch s) (\<lambda>s. release_lk get upd s))"

definition holdingsleep :: "('a proc_st_scheme \<Rightarrow> sleeplock) \<Rightarrow>
    ((sleeplock \<Rightarrow> sleeplock) \<Rightarrow> 'a proc_st_scheme \<Rightarrow> 'a proc_st_scheme) \<Rightarrow>
    'a proc_st_scheme \<Rightarrow> (bool \<times> 'a proc_st_scheme) outcome" where
  "holdingsleep get upd s =
     bnd (acquire_lk get upd s) (\<lambda>s.
     bnd (if sl_locked (get s)
          then bnd (curproc s) (\<lambda>(p, s). Ok (sl_pid (get s) = p_pid (procs s ! p), s))
          else Ok (False, s)) (\<lambda>(r, s).
     bnd (release_lk get upd s) (\<lambda>s. Ok (r, s))))"

end
