(* ===== verification/Layout.thy ===== *)
theory Layout
  imports Prelude
begin

text \<open>
  kernel/fs.h: the on-disk format, shared by the kernel and by mkfs. A disk block is a list of bytes;
  integers lie in it in little-endian order. Each structure has an encoder and a decoder, and the lemmas
  show that they are inverse to each other.
\<close>

section \<open>Ranges of a byte list\<close>

definition slice :: "bytes \<Rightarrow> nat \<Rightarrow> nat \<Rightarrow> bytes" where
  "slice bs off n = take n (drop off bs)"

definition splice :: "bytes \<Rightarrow> nat \<Rightarrow> bytes \<Rightarrow> bytes" where
  "splice bs off new = take off bs @ new @ drop (off + length new) bs"

lemma length_slice [simp]: "off + n \<le> length bs \<Longrightarrow> length (slice bs off n) = n"
  by (simp add: slice_def)

lemma length_splice [simp]: "off + length new \<le> length bs \<Longrightarrow> length (splice bs off new) = length bs"
  by (simp add: splice_def)

lemma nth_slice: "i < n \<Longrightarrow> off + i < length bs \<Longrightarrow> slice bs off n ! i = bs ! (off + i)"
  by (simp add: slice_def)

lemma nth_splice:
  "off + length new \<le> length bs \<Longrightarrow> i < length bs \<Longrightarrow>
   splice bs off new ! i = (if off \<le> i \<and> i < off + length new then new ! (i - off) else bs ! i)"
  by (auto simp: splice_def nth_append min_def)

lemma slice_splice_same [simp]:
  "off + length new \<le> length bs \<Longrightarrow> n = length new \<Longrightarrow> slice (splice bs off new) off n = new"
  by (simp add: slice_def splice_def)

lemma slice_splice_other:
  assumes "off + length new \<le> length bs" "b + n \<le> length bs" "b + n \<le> off \<or> off + length new \<le> b"
  shows "slice (splice bs off new) b n = slice bs b n"
  using assms by (intro nth_equalityI) (auto simp: nth_slice nth_splice)

lemma slice_slice: "a + n \<le> k \<Longrightarrow> slice (slice bs off k) a n = slice bs (off + a) n"
  by (auto simp: slice_def drop_take take_take min_def add.commute)

lemma slice_all [simp]: "length bs = n \<Longrightarrow> slice bs 0 n = bs"
  by (simp add: slice_def)

lemma splice_slice_id: "off + n \<le> length bs \<Longrightarrow> splice bs off (slice bs off n) = bs"
  by (rule nth_equalityI) (auto simp: nth_splice nth_slice)

lemma splice_splice_same: "off + length new \<le> length bs \<Longrightarrow> length new = length new' \<Longrightarrow>
  splice (splice bs off new') off new = splice bs off new"
  by (rule nth_equalityI) (auto simp: nth_splice)

section \<open>Integers in a byte list\<close>

definition enc16 :: "u16 \<Rightarrow> bytes" where
  "enc16 v = [ucast v, ucast (drop_bit 8 v)]"

definition dec16 :: "bytes \<Rightarrow> u16" where
  "dec16 bs = ucast (bs ! 0) OR push_bit 8 (ucast (bs ! 1))"

definition enc32 :: "u32 \<Rightarrow> bytes" where
  "enc32 v = [ucast v, ucast (drop_bit 8 v), ucast (drop_bit 16 v), ucast (drop_bit 24 v)]"

definition dec32 :: "bytes \<Rightarrow> u32" where
  "dec32 bs = ucast (bs ! 0) OR push_bit 8 (ucast (bs ! 1)) OR push_bit 16 (ucast (bs ! 2)) OR
     push_bit 24 (ucast (bs ! 3))"

definition get16 :: "bytes \<Rightarrow> nat \<Rightarrow> u16" where
  "get16 bs off = dec16 (slice bs off 2)"

definition get32 :: "bytes \<Rightarrow> nat \<Rightarrow> u32" where
  "get32 bs off = dec32 (slice bs off 4)"

definition put16 :: "bytes \<Rightarrow> nat \<Rightarrow> u16 \<Rightarrow> bytes" where
  "put16 bs off v = splice bs off (enc16 v)"

definition put32 :: "bytes \<Rightarrow> nat \<Rightarrow> u32 \<Rightarrow> bytes" where
  "put32 bs off v = splice bs off (enc32 v)"

lemma length_enc [simp]: "length (enc16 v) = 2" "length (enc32 w) = 4"
  by (simp_all add: enc16_def enc32_def)

lemma dec_enc16 [simp]: "dec16 (enc16 v) = v"
  by (rule bit_word_eqI) (auto simp: dec16_def enc16_def bit_simps)

lemma dec_enc32 [simp]: "dec32 (enc32 v) = v"
proof (rule bit_word_eqI)
  fix k :: nat
  assume "k < LENGTH(32)"
  then consider "k < 8" | "8 \<le> k" "k < 16" | "16 \<le> k" "k < 24" | "24 \<le> k" "k < 32" by fastforce
  then show "bit (dec32 (enc32 v)) k = bit v k"
    by cases (auto simp: dec32_def enc32_def bit_simps)
qed

lemma length_put [simp]:
  "off + 2 \<le> length bs \<Longrightarrow> length (put16 bs off v) = length bs"
  "off + 4 \<le> length bs \<Longrightarrow> length (put32 bs off w) = length bs"
  by (simp_all add: put16_def put32_def)

lemma get_put_same [simp]:
  "off + 2 \<le> length bs \<Longrightarrow> get16 (put16 bs off v) off = v"
  "off + 4 \<le> length bs \<Longrightarrow> get32 (put32 bs off w) off = w"
  by (simp_all add: get16_def put16_def get32_def put32_def)

lemma get32_put32_other [simp]:
  "off + 4 \<le> length bs \<Longrightarrow> b + 4 \<le> length bs \<Longrightarrow> b + 4 \<le> off \<or> off + 4 \<le> b \<Longrightarrow>
   get32 (put32 bs off w) b = get32 bs b"
  by (simp add: get32_def put32_def slice_splice_other)

section \<open>The superblock\<close>

definition BSIZE :: nat where "BSIZE = 1024"
definition FSMAGIC :: u32 where "FSMAGIC = 0x10203040"
definition ROOTINO :: u32 where "ROOTINO = 1"
definition ROOTDEV :: u32 where "ROOTDEV = 1"
definition NDIRECT :: nat where "NDIRECT = 12"
definition NINDIRECT :: nat where "NINDIRECT = BSIZE div 4"
definition MAXFILE :: nat where "MAXFILE = NDIRECT + NINDIRECT"
definition DIRSIZ :: nat where "DIRSIZ = 14"

record superblock =
  sb_magic :: u32
  sb_size :: u32
  sb_nblocks :: u32
  sb_ninodes :: u32
  sb_nlog :: u32
  sb_logstart :: u32
  sb_inodestart :: u32
  sb_bmapstart :: u32

definition enc_sb :: "superblock \<Rightarrow> bytes" where
  "enc_sb b = enc32 (sb_magic b) @ enc32 (sb_size b) @ enc32 (sb_nblocks b) @ enc32 (sb_ninodes b) @
     enc32 (sb_nlog b) @ enc32 (sb_logstart b) @ enc32 (sb_inodestart b) @ enc32 (sb_bmapstart b)"

definition dec_sb :: "bytes \<Rightarrow> superblock" where
  "dec_sb bs = \<lparr>sb_magic = get32 bs 0, sb_size = get32 bs 4, sb_nblocks = get32 bs 8, sb_ninodes = get32 bs 12,
     sb_nlog = get32 bs 16, sb_logstart = get32 bs 20, sb_inodestart = get32 bs 24, sb_bmapstart = get32 bs 28\<rparr>"

lemma length_enc_sb [simp]: "length (enc_sb b) = 32"
  by (simp add: enc_sb_def)

lemma dec_enc_sb [simp]: "dec_sb (enc_sb b @ rest) = b"
  by (simp add: dec_sb_def enc_sb_def get32_def slice_def)

section \<open>On-disk inodes\<close>

definition IPB :: nat where "IPB = BSIZE div 64"

definition IBLOCK :: "u32 \<Rightarrow> superblock \<Rightarrow> u32" where
  "IBLOCK i sb = i div of_nat IPB + sb_inodestart sb"

definition BPB :: nat where "BPB = BSIZE * 8"

definition BBLOCK :: "u32 \<Rightarrow> superblock \<Rightarrow> u32" where
  "BBLOCK b sb = b div of_nat BPB + sb_bmapstart sb"

record dinode =
  d_type :: u16
  d_major :: u16
  d_minor :: u16
  d_nlink :: u16
  d_size :: u32
  d_addrs :: "u32 list"

definition enc_dinode :: "dinode \<Rightarrow> bytes" where
  "enc_dinode d = enc16 (d_type d) @ enc16 (d_major d) @ enc16 (d_minor d) @ enc16 (d_nlink d) @
     enc32 (d_size d) @ concat (map enc32 (d_addrs d))"

definition dec_dinode :: "bytes \<Rightarrow> dinode" where
  "dec_dinode bs = \<lparr>d_type = get16 bs 0, d_major = get16 bs 2, d_minor = get16 bs 4, d_nlink = get16 bs 6,
     d_size = get32 bs 8, d_addrs = map (\<lambda>i. get32 bs (12 + 4 * i)) [0..<13]\<rparr>"

text \<open>Byte offset of inode \<open>inum\<close> in its block: \<open>(struct dinode*)bp->data + inum%IPB\<close>.\<close>

definition ioff :: "u32 \<Rightarrow> nat" where
  "ioff inum = 64 * (unat inum mod IPB)"

lemma length_concat_enc32 [simp]: "length (concat (map enc32 xs)) = 4 * length xs"
  by (induction xs) auto

lemma slice_concat_enc32: "i < length xs \<Longrightarrow> slice (concat (map enc32 xs)) (4 * i) 4 = enc32 (xs ! i)"
proof (induction xs arbitrary: i)
  case (Cons x xs)
  then show ?case by (cases i) (auto simp: slice_def)
qed simp

lemma length_enc_dinode [simp]: "length (d_addrs d) = 13 \<Longrightarrow> length (enc_dinode d) = 64"
  by (simp add: enc_dinode_def)

lemma dec_enc_dinode [simp]:
  assumes "length (d_addrs d) = 13"
  shows "dec_dinode (enc_dinode d) = d"
proof -
  let ?c = "concat (map enc32 (d_addrs d))"
  have sl: "slice (enc_dinode d) (12 + 4 * i) 4 = slice ?c (4 * i) 4" for i
    by (simp add: enc_dinode_def slice_def)
  have "map (\<lambda>i. get32 (enc_dinode d) (12 + 4 * i)) [0..<13] = d_addrs d"
    using assms by (intro nth_equalityI) (auto simp: get32_def sl slice_concat_enc32)
  moreover have "get16 (enc_dinode d) 0 = d_type d" "get16 (enc_dinode d) 2 = d_major d"
    "get16 (enc_dinode d) 4 = d_minor d" "get16 (enc_dinode d) 6 = d_nlink d" "get32 (enc_dinode d) 8 = d_size d"
    by (simp_all add: get16_def get32_def enc_dinode_def slice_def)
  ultimately show ?thesis by (simp add: dec_dinode_def)
qed

lemma length_dec_dinode [simp]: "length (d_addrs (dec_dinode bs)) = 13"
  by (simp add: dec_dinode_def)

section \<open>Directory entries\<close>

record dirent =
  de_inum :: u16
  de_name :: bytes

definition enc_dirent :: "dirent \<Rightarrow> bytes" where
  "enc_dirent d = enc16 (de_inum d) @ de_name d"

definition dec_dirent :: "bytes \<Rightarrow> dirent" where
  "dec_dirent bs = \<lparr>de_inum = get16 bs 0, de_name = slice bs 2 DIRSIZ\<rparr>"

lemma length_enc_dirent [simp]: "length (de_name d) = DIRSIZ \<Longrightarrow> length (enc_dirent d) = 16"
  by (simp add: enc_dirent_def DIRSIZ_def)

lemma dec_enc_dirent [simp]: "length (de_name d) = DIRSIZ \<Longrightarrow> dec_dirent (enc_dirent d) = d"
  by (simp add: dec_dirent_def enc_dirent_def get16_def slice_def DIRSIZ_def)

end
