(* ===== verification/Bio.thy ===== *)
theory Bio
  imports Sleeplock Layout
begin

text \<open>
  kernel/bio.c and kernel/buf.h: the cache of disk blocks, a doubly linked list of buffers sorted by how
  recently they were used.
\<close>

section \<open>State\<close>

definition NBUF :: nat where
  "NBUF = 30"

record buf =
  b_valid :: bool
  b_disk :: bool
  b_dev :: u32
  b_blockno :: u32
  b_lock :: sleeplock
  b_refcnt :: u32
  b_prev :: nat
  b_next :: nat
  b_data :: bytes

text \<open>
  \<open>bufs\<close> holds the \<open>NBUF\<close> buffers of \<open>bcache.buf\<close> and then \<open>bcache.head\<close>. The disk is what the device
  stores: a list of blocks. \<open>disk_writes\<close> is the history of the blocks written, in the order in which the
  device made them durable; no code reads it.
\<close>

record bio_st = proc_st +
  bcache_lock :: spinlock
  bufs :: "buf list"
  disk :: "bytes list"
  disk_writes :: "(nat \<times> bytes) list"

abbreviation buf_head :: nat where
  "buf_head \<equiv> NBUF"

definition upd_buf :: "nat \<Rightarrow> (buf \<Rightarrow> buf) \<Rightarrow> 'a bio_st_scheme \<Rightarrow> 'a bio_st_scheme" where
  "upd_buf b f s = s\<lparr>bufs := (bufs s)[b := f (bufs s ! b)]\<rparr>"

abbreviation get_block :: "nat \<Rightarrow> 'a bio_st_scheme \<Rightarrow> sleeplock" where
  "get_block b s \<equiv> b_lock (bufs s ! b)"

abbreviation upd_block :: "nat \<Rightarrow> (sleeplock \<Rightarrow> sleeplock) \<Rightarrow> 'a bio_st_scheme \<Rightarrow> 'a bio_st_scheme" where
  "upd_block b f s \<equiv> upd_buf b (b_lock_update f) s"

section \<open>The disk, as the driver offers it\<close>

text \<open>
  What \<open>virtio_disk_rw\<close> has done when it returns: the block was transferred. A request for a block that the
  disk does not have fails, and the interrupt handler panics. \<open>Virtio\<close> models the driver itself.
\<close>

definition disk_rw :: "nat \<Rightarrow> bool \<Rightarrow> 'a bio_st_scheme \<Rightarrow> 'a bio_st_scheme outcome" where
  "disk_rw b wr_req s =
     (let n = unat (b_blockno (bufs s ! b))
      in if length (disk s) \<le> n then Panic ''virtio_disk_intr status''
         else if wr_req
         then Ok (s\<lparr>disk := (disk s)[n := b_data (bufs s ! b)],
                    disk_writes := disk_writes s @ [(n, b_data (bufs s ! b))]\<rparr>)
         else Ok (upd_buf b (\<lambda>x. x\<lparr>b_data := disk s ! n\<rparr>) s))"

section \<open>Operations\<close>

text \<open>\<open>b\<close> is put between the head and the buffer after it.\<close>

definition link_front :: "nat \<Rightarrow> 'a bio_st_scheme \<Rightarrow> 'a bio_st_scheme" where
  "link_front b s =
     (let s = upd_buf b (\<lambda>x. x\<lparr>b_next := b_next (bufs s ! buf_head)\<rparr>) s;
          s = upd_buf b (\<lambda>x. x\<lparr>b_prev := buf_head\<rparr>) s;
          s = upd_buf (b_next (bufs s ! buf_head)) (\<lambda>x. x\<lparr>b_prev := b\<rparr>) s
      in upd_buf buf_head (\<lambda>x. x\<lparr>b_next := b\<rparr>) s)"

definition unlink :: "nat \<Rightarrow> 'a bio_st_scheme \<Rightarrow> 'a bio_st_scheme" where
  "unlink b s =
     (let s = upd_buf (b_next (bufs s ! b)) (\<lambda>x. x\<lparr>b_prev := b_prev (bufs s ! b)\<rparr>) s
      in upd_buf (b_prev (bufs s ! b)) (\<lambda>x. x\<lparr>b_next := b_next (bufs s ! b)\<rparr>) s)"

fun binit_loop :: "nat \<Rightarrow> nat \<Rightarrow> 'a bio_st_scheme \<Rightarrow> 'a bio_st_scheme" where
  "binit_loop 0 b s = s"
| "binit_loop (Suc n) b s =
     (let s = upd_buf b (\<lambda>x. x\<lparr>b_lock := initsleeplock ''buffer''\<rparr>) s
      in binit_loop n (Suc b) (link_front b s))"

definition binit :: "'a bio_st_scheme \<Rightarrow> 'a bio_st_scheme" where
  "binit s =
     (let s = s\<lparr>bcache_lock := initlock ''bcache''\<rparr>;
          s = upd_buf buf_head (\<lambda>x. x\<lparr>b_prev := buf_head, b_next := buf_head\<rparr>) s
      in binit_loop NBUF 0 s)"

text \<open>
  The two searches of \<open>bget\<close>. The list has \<open>NBUF\<close> buffers, so that \<open>Suc NBUF\<close> steps reach the head; a
  longer list would be cyclic, and the search would not end.
\<close>

fun bget_cached :: "nat \<Rightarrow> nat \<Rightarrow> u32 \<Rightarrow> u32 \<Rightarrow> buf list \<Rightarrow> nat option outcome" where
  "bget_cached 0 b dev blockno bs = Blocked"
| "bget_cached (Suc n) b dev blockno bs =
     (if b = buf_head then Ok None
      else if b_dev (bs ! b) = dev \<and> b_blockno (bs ! b) = blockno then Ok (Some b)
      else bget_cached n (b_next (bs ! b)) dev blockno bs)"

fun bget_unused :: "nat \<Rightarrow> nat \<Rightarrow> buf list \<Rightarrow> nat option outcome" where
  "bget_unused 0 b bs = Blocked"
| "bget_unused (Suc n) b bs =
     (if b = buf_head then Ok None
      else if b_refcnt (bs ! b) = 0 then Ok (Some b)
      else bget_unused n (b_prev (bs ! b)) bs)"

definition bget :: "u32 \<Rightarrow> u32 \<Rightarrow> 'a bio_st_scheme \<Rightarrow> (nat \<times> 'a bio_st_scheme) outcome" where
  "bget dev blockno s =
     bnd (acquire_in bcache_lock bcache_lock_update s) (\<lambda>s.
     bnd (bget_cached (Suc NBUF) (b_next (bufs s ! buf_head)) dev blockno (bufs s)) (\<lambda>r.
     case r of
       Some b \<Rightarrow>
         (let s = upd_buf b (\<lambda>x. x\<lparr>b_refcnt := b_refcnt x + 1\<rparr>) s
          in bnd (release_in bcache_lock bcache_lock_update s) (\<lambda>s.
             bnd (acquiresleep (ChanBufLock b) (get_block b) (upd_block b) s) (\<lambda>s. Ok (b, s))))
     | None \<Rightarrow>
         bnd (bget_unused (Suc NBUF) (b_prev (bufs s ! buf_head)) (bufs s)) (\<lambda>r.
         case r of
           Some b \<Rightarrow>
             (let s = upd_buf b (\<lambda>x. x\<lparr>b_dev := dev, b_blockno := blockno, b_valid := False, b_refcnt := 1\<rparr>) s
              in bnd (release_in bcache_lock bcache_lock_update s) (\<lambda>s.
                 bnd (acquiresleep (ChanBufLock b) (get_block b) (upd_block b) s) (\<lambda>s. Ok (b, s))))
         | None \<Rightarrow> Panic ''bget: no buffers'')))"

definition bread :: "u32 \<Rightarrow> u32 \<Rightarrow> 'a bio_st_scheme \<Rightarrow> (nat \<times> 'a bio_st_scheme) outcome" where
  "bread dev blockno s =
     bnd (bget dev blockno s) (\<lambda>(b, s).
       if \<not> b_valid (bufs s ! b)
       then bnd (disk_rw b False s) (\<lambda>s. Ok (b, upd_buf b (\<lambda>x. x\<lparr>b_valid := True\<rparr>) s))
       else Ok (b, s))"

definition bwrite :: "nat \<Rightarrow> 'a bio_st_scheme \<Rightarrow> 'a bio_st_scheme outcome" where
  "bwrite b s =
     bnd (holdingsleep (get_block b) (upd_block b) s) (\<lambda>(h, s).
       if \<not> h then Panic ''bwrite'' else disk_rw b True s)"

definition brelse :: "nat \<Rightarrow> 'a bio_st_scheme \<Rightarrow> 'a bio_st_scheme outcome" where
  "brelse b s =
     bnd (holdingsleep (get_block b) (upd_block b) s) (\<lambda>(h, s).
       if \<not> h then Panic ''brelse''
       else bnd (releasesleep (ChanBufLock b) (get_block b) (upd_block b) s) (\<lambda>s.
            bnd (acquire_in bcache_lock bcache_lock_update s) (\<lambda>s.
            let s = upd_buf b (\<lambda>x. x\<lparr>b_refcnt := b_refcnt x - 1\<rparr>) s;
                s = (if b_refcnt (bufs s ! b) = 0 then link_front b (unlink b s) else s)
            in release_in bcache_lock bcache_lock_update s)))"

definition bpin :: "nat \<Rightarrow> 'a bio_st_scheme \<Rightarrow> 'a bio_st_scheme outcome" where
  "bpin b s =
     bnd (acquire_in bcache_lock bcache_lock_update s) (\<lambda>s.
     release_in bcache_lock bcache_lock_update (upd_buf b (\<lambda>x. x\<lparr>b_refcnt := b_refcnt x + 1\<rparr>) s))"

definition bunpin :: "nat \<Rightarrow> 'a bio_st_scheme \<Rightarrow> 'a bio_st_scheme outcome" where
  "bunpin b s =
     bnd (acquire_in bcache_lock bcache_lock_update s) (\<lambda>s.
     release_in bcache_lock bcache_lock_update (upd_buf b (\<lambda>x. x\<lparr>b_refcnt := b_refcnt x - 1\<rparr>) s))"

end
