(* ===== verification/Log.thy ===== *)
theory Log
  imports Bio
begin

text \<open>
  kernel/log.c: the write-ahead log that makes the updates of file system calls atomic with respect to
  crashes.
\<close>

section \<open>State\<close>

definition LOGSIZE :: nat where "LOGSIZE = 30"
definition MAXOPBLOCKS :: int where "MAXOPBLOCKS = 10"

text \<open>\<open>struct log\<close> with its \<open>struct logheader\<close>: \<open>lh_n\<close> and \<open>lh_block\<close> are \<open>log.lh.n\<close> and \<open>log.lh.block\<close>.
  The counters \<open>lg_outstanding\<close> and \<open>lh_n\<close> are ints in C, whose overflow is undefined; they never exceed
  LOGSIZE, because \<open>begin_op\<close> and \<open>log_write\<close> compare them with it before they grow.\<close>

record log_t =
  lg_lock :: spinlock
  lg_start :: u32
  lg_size :: int
  lg_outstanding :: int
  lg_committing :: bool
  lg_dev :: u32
  lh_n :: int
  lh_block :: "u32 list"

record log_st = bio_st +
  log :: log_t

definition upd_log :: "(log_t \<Rightarrow> log_t) \<Rightarrow> 'a log_st_scheme \<Rightarrow> 'a log_st_scheme" where
  "upd_log f s = s\<lparr>log := f (log s)\<rparr>"

abbreviation acquire_log :: "'a log_st_scheme \<Rightarrow> 'a log_st_scheme outcome" where
  "acquire_log s \<equiv> acquire_in (\<lambda>s. lg_lock (log s)) (\<lambda>f. upd_log (lg_lock_update f)) s"

abbreviation release_log :: "'a log_st_scheme \<Rightarrow> 'a log_st_scheme outcome" where
  "release_log s \<equiv> release_in (\<lambda>s. lg_lock (log s)) (\<lambda>f. upd_log (lg_lock_update f)) s"

section \<open>Commit and recovery\<close>

text \<open>Each loop counts the entries that are left; \<open>tail\<close> is the entry it works on.\<close>

fun install_trans_loop :: "nat \<Rightarrow> nat \<Rightarrow> bool \<Rightarrow> 'a log_st_scheme \<Rightarrow> 'a log_st_scheme outcome" where
  "install_trans_loop 0 tail recovering s = Ok s"
| "install_trans_loop (Suc n) tail recovering s =
     bnd (bread (lg_dev (log s)) (lg_start (log s) + of_nat tail + 1) s) (\<lambda>(lbuf, s).
     bnd (bread (lg_dev (log s)) (lh_block (log s) ! tail) s) (\<lambda>(dbuf, s).
     let s = upd_buf dbuf (\<lambda>x. x\<lparr>b_data := b_data (bufs s ! lbuf)\<rparr>) s
     in bnd (bwrite dbuf s) (\<lambda>s.
        bnd (if \<not> recovering then bunpin dbuf s else Ok s) (\<lambda>s.
        bnd (brelse lbuf s) (\<lambda>s.
        bnd (brelse dbuf s) (install_trans_loop n (Suc tail) recovering))))))"

definition install_trans :: "bool \<Rightarrow> 'a log_st_scheme \<Rightarrow> 'a log_st_scheme outcome" where
  "install_trans recovering s = install_trans_loop (nat (lh_n (log s))) 0 recovering s"

text \<open>
  A header with more than \<open>LOGSIZE\<close> entries would be copied past the end of \<open>log.lh.block\<close>, which C leaves
  undefined; the model stops there.
\<close>

fun read_head_loop :: "nat \<Rightarrow> nat \<Rightarrow> bytes \<Rightarrow> 'a log_st_scheme \<Rightarrow> 'a log_st_scheme outcome" where
  "read_head_loop 0 i lh s = Ok s"
| "read_head_loop (Suc n) i lh s =
     (if LOGSIZE \<le> i then Panic ''undefined: log.lh.block out of range''
      else read_head_loop n (Suc i) lh
             (upd_log (\<lambda>l. l\<lparr>lh_block := (lh_block l)[i := get32 lh (4 + 4 * i)]\<rparr>) s))"

definition read_head :: "'a log_st_scheme \<Rightarrow> 'a log_st_scheme outcome" where
  "read_head s =
     bnd (bread (lg_dev (log s)) (lg_start (log s)) s) (\<lambda>(b, s).
     let lh = b_data (bufs s ! b);
         s = upd_log (\<lambda>l. l\<lparr>lh_n := sint (get32 lh 0)\<rparr>) s
     in bnd (read_head_loop (nat (lh_n (log s))) 0 lh s) (\<lambda>s. brelse b s))"

fun write_head_loop :: "nat \<Rightarrow> nat \<Rightarrow> nat \<Rightarrow> 'a log_st_scheme \<Rightarrow> 'a log_st_scheme" where
  "write_head_loop 0 i b s = s"
| "write_head_loop (Suc n) i b s =
     write_head_loop n (Suc i) b
       (upd_buf b (\<lambda>x. x\<lparr>b_data := put32 (b_data x) (4 + 4 * i) (lh_block (log s) ! i)\<rparr>) s)"

definition write_head :: "'a log_st_scheme \<Rightarrow> 'a log_st_scheme outcome" where
  "write_head s =
     bnd (bread (lg_dev (log s)) (lg_start (log s)) s) (\<lambda>(b, s).
     let s = upd_buf b (\<lambda>x. x\<lparr>b_data := put32 (b_data x) 0 (of_int (lh_n (log s)))\<rparr>) s;
         s = write_head_loop (nat (lh_n (log s))) 0 b s
     in bnd (bwrite b s) (brelse b))"

definition recover_from_log :: "'a log_st_scheme \<Rightarrow> 'a log_st_scheme outcome" where
  "recover_from_log s =
     bnd (read_head s) (\<lambda>s.
     bnd (install_trans True s) (\<lambda>s.
     write_head (upd_log (\<lambda>l. l\<lparr>lh_n := 0\<rparr>) s)))"

text \<open>\<open>sizeof(struct logheader)\<close> is 4 + 4 * LOGSIZE, which is smaller than BSIZE.\<close>

definition initlog :: "u32 \<Rightarrow> superblock \<Rightarrow> 'a log_st_scheme \<Rightarrow> 'a log_st_scheme outcome" where
  "initlog dev sb s =
     (if BSIZE \<le> 4 + 4 * LOGSIZE then Panic ''initlog: too big logheader''
      else recover_from_log (upd_log (\<lambda>l. l\<lparr>lg_lock := initlock ''log'', lg_start := sb_logstart sb,
             lg_size := sint (sb_nlog sb), lg_dev := dev\<rparr>) s))"

fun write_log_loop :: "nat \<Rightarrow> nat \<Rightarrow> 'a log_st_scheme \<Rightarrow> 'a log_st_scheme outcome" where
  "write_log_loop 0 tail s = Ok s"
| "write_log_loop (Suc n) tail s =
     bnd (bread (lg_dev (log s)) (lg_start (log s) + of_nat tail + 1) s) (\<lambda>(to, s).
     bnd (bread (lg_dev (log s)) (lh_block (log s) ! tail) s) (\<lambda>(from, s).
     let s = upd_buf to (\<lambda>x. x\<lparr>b_data := b_data (bufs s ! from)\<rparr>) s
     in bnd (bwrite to s) (\<lambda>s.
        bnd (brelse from s) (\<lambda>s.
        bnd (brelse to s) (write_log_loop n (Suc tail))))))"

definition write_log :: "'a log_st_scheme \<Rightarrow> 'a log_st_scheme outcome" where
  "write_log s = write_log_loop (nat (lh_n (log s))) 0 s"

definition commit :: "'a log_st_scheme \<Rightarrow> 'a log_st_scheme outcome" where
  "commit s =
     (if 0 < lh_n (log s)
      then bnd (write_log s) (\<lambda>s.
           bnd (write_head s) (\<lambda>s.
           bnd (install_trans False s) (\<lambda>s.
           write_head (upd_log (\<lambda>l. l\<lparr>lh_n := 0\<rparr>) s))))
      else Ok s)"

section \<open>Transactions\<close>

definition begin_op :: "'a log_st_scheme \<Rightarrow> 'a log_st_scheme outcome" where
  "begin_op s =
     bnd (acquire_log s) (\<lambda>s.
       if lg_committing (log s)
       then sleep ChanLog (\<lambda>s. lg_lock (log s)) (\<lambda>f. upd_log (lg_lock_update f)) s
       else if int LOGSIZE < lh_n (log s) + (lg_outstanding (log s) + 1) * MAXOPBLOCKS
       then sleep ChanLog (\<lambda>s. lg_lock (log s)) (\<lambda>f. upd_log (lg_lock_update f)) s
       else release_log (upd_log (\<lambda>l. l\<lparr>lg_outstanding := lg_outstanding l + 1\<rparr>) s))"

definition end_op :: "'a log_st_scheme \<Rightarrow> 'a log_st_scheme outcome" where
  "end_op s =
     bnd (acquire_log s) (\<lambda>s.
     let s = upd_log (\<lambda>l. l\<lparr>lg_outstanding := lg_outstanding l - 1\<rparr>) s
     in if lg_committing (log s) then Panic ''log.committing''
        else let do_commit = (lg_outstanding (log s) = 0)
        in bnd (if do_commit then Ok (upd_log (\<lambda>l. l\<lparr>lg_committing := True\<rparr>) s) else wakeup ChanLog s) (\<lambda>s.
           bnd (release_log s) (\<lambda>s.
           if do_commit
           then bnd (commit s) (\<lambda>s.
                bnd (acquire_log s) (\<lambda>s.
                bnd (wakeup ChanLog (upd_log (\<lambda>l. l\<lparr>lg_committing := False\<rparr>) s)) (\<lambda>s.
                release_log s)))
           else Ok s)))"

text \<open>The index of the entry for the block, or \<open>lh.n\<close> if there is none.\<close>

fun log_slot :: "nat \<Rightarrow> nat \<Rightarrow> u32 \<Rightarrow> u32 list \<Rightarrow> nat" where
  "log_slot 0 i blockno bl = i"
| "log_slot (Suc n) i blockno bl = (if bl ! i = blockno then i else log_slot n (Suc i) blockno bl)"

definition log_write :: "nat \<Rightarrow> 'a log_st_scheme \<Rightarrow> 'a log_st_scheme outcome" where
  "log_write b s =
     bnd (acquire_log s) (\<lambda>s.
       if int LOGSIZE \<le> lh_n (log s) \<or> lg_size (log s) - 1 \<le> lh_n (log s) then Panic ''too big a transaction''
       else if lg_outstanding (log s) < 1 then Panic ''log_write outside of trans''
       else let blockno = b_blockno (bufs s ! b);
                i = log_slot (nat (lh_n (log s))) 0 blockno (lh_block (log s));
                s = upd_log (\<lambda>l. l\<lparr>lh_block := (lh_block l)[i := blockno]\<rparr>) s
            in bnd (if int i = lh_n (log s)
                    then bnd (bpin b s) (\<lambda>s. Ok (upd_log (\<lambda>l. l\<lparr>lh_n := lh_n l + 1\<rparr>) s))
                    else Ok s) (\<lambda>s. release_log s))"

end
