(* ===== verification/Fs.thy ===== *)
theory Fs
  imports Log
begin

text \<open>
  kernel/fs.c: block allocation, inodes, file contents, directories and path names. In-memory inodes are
  indices into \<open>itable.inode\<close>, and \<open>None\<close> is the null pointer. Messages printed on the console are not part
  of the state.
\<close>

section \<open>State\<close>

definition NINODE :: nat where "NINODE = 50"
definition T_DIR :: u16 where "T_DIR = 1"
definition T_FILE :: u16 where "T_FILE = 2"
definition T_DEVICE :: u16 where "T_DEVICE = 3"

text \<open>\<open>struct inode\<close> of kernel/file.h.\<close>

record inode =
  i_dev :: u32
  i_inum :: u32
  i_ref :: int
  i_lock :: sleeplock
  i_valid :: bool
  i_type :: u16
  i_major :: u16
  i_minor :: u16
  i_nlink :: u16
  i_size :: u32
  i_addrs :: "u32 list"

record fs_st = log_st +
  sb :: superblock
  itable_lock :: spinlock
  inodes :: "inode list"

definition upd_inode :: "nat \<Rightarrow> (inode \<Rightarrow> inode) \<Rightarrow> 'a fs_st_scheme \<Rightarrow> 'a fs_st_scheme" where
  "upd_inode i f s = s\<lparr>inodes := (inodes s)[i := f (inodes s ! i)]\<rparr>"

abbreviation get_ilock :: "nat \<Rightarrow> 'a fs_st_scheme \<Rightarrow> sleeplock" where
  "get_ilock i s \<equiv> i_lock (inodes s ! i)"

abbreviation upd_ilock :: "nat \<Rightarrow> (sleeplock \<Rightarrow> sleeplock) \<Rightarrow> 'a fs_st_scheme \<Rightarrow> 'a fs_st_scheme" where
  "upd_ilock i f s \<equiv> upd_inode i (i_lock_update f) s"

abbreviation acquire_itable :: "'a fs_st_scheme \<Rightarrow> 'a fs_st_scheme outcome" where
  "acquire_itable s \<equiv> acquire_in itable_lock itable_lock_update s"

abbreviation release_itable :: "'a fs_st_scheme \<Rightarrow> 'a fs_st_scheme outcome" where
  "release_itable s \<equiv> release_in itable_lock itable_lock_update s"

section \<open>Super block and blocks\<close>

definition readsb :: "u32 \<Rightarrow> 'a log_st_scheme \<Rightarrow> (superblock \<times> 'a log_st_scheme) outcome" where
  "readsb dev s =
     bnd (bread dev 1 s) (\<lambda>(bp, s).
     let b = dec_sb (b_data (bufs s ! bp))
     in bnd (brelse bp s) (\<lambda>s. Ok (b, s)))"

definition fsinit :: "u32 \<Rightarrow> 'a fs_st_scheme \<Rightarrow> 'a fs_st_scheme outcome" where
  "fsinit dev s =
     bnd (readsb dev s) (\<lambda>(b, s).
     let s = s\<lparr>sb := b\<rparr>
     in if sb_magic (sb s) \<noteq> FSMAGIC then Panic ''invalid file system''
        else initlog dev (sb s) s)"

definition bzero :: "u32 \<Rightarrow> u32 \<Rightarrow> 'a log_st_scheme \<Rightarrow> 'a log_st_scheme outcome" where
  "bzero dev bno s =
     bnd (bread dev bno s) (\<lambda>(bp, s).
     bnd (log_write bp (upd_buf bp (\<lambda>x. x\<lparr>b_data := replicate BSIZE 0\<rparr>) s)) (brelse bp))"

definition bit_mask :: "nat \<Rightarrow> u8" where
  "bit_mask bi = push_bit (bi mod 8) 1"

text \<open>The first \<open>bi\<close> that the inner loop of \<open>balloc\<close> finds free; \<open>b\<close> is the number of the block of bit 0.\<close>

fun free_bit :: "nat \<Rightarrow> nat \<Rightarrow> nat \<Rightarrow> nat \<Rightarrow> bytes \<Rightarrow> nat option" where
  "free_bit 0 bi b fssize data = None"
| "free_bit (Suc n) bi b fssize data =
     (if \<not> b + bi < fssize then None
      else if data ! (bi div 8) AND bit_mask bi = 0 then Some bi
      else free_bit n (Suc bi) b fssize data)"

fun balloc_loop :: "nat \<Rightarrow> nat \<Rightarrow> u32 \<Rightarrow> 'a fs_st_scheme \<Rightarrow> (u32 \<times> 'a fs_st_scheme) outcome" where
  "balloc_loop 0 b dev s = Ok (0, s)"
| "balloc_loop (Suc n) b dev s =
     (if \<not> b < unat (sb_size (sb s)) then Ok (0, s)
      else bnd (bread dev (BBLOCK (of_nat b) (sb s)) s) (\<lambda>(bp, s).
           case free_bit BPB 0 b (unat (sb_size (sb s))) (b_data (bufs s ! bp)) of
             Some bi \<Rightarrow>
               (let s = upd_buf bp (\<lambda>x. x\<lparr>b_data := (b_data x)[bi div 8 := b_data x ! (bi div 8) OR bit_mask bi]\<rparr>) s
                in bnd (log_write bp s) (\<lambda>s.
                   bnd (brelse bp s) (\<lambda>s.
                   bnd (bzero dev (of_nat (b + bi)) s) (\<lambda>s.
                   Ok (of_nat (b + bi), s)))))
           | None \<Rightarrow> bnd (brelse bp s) (balloc_loop n (b + BPB) dev)))"

definition balloc :: "u32 \<Rightarrow> 'a fs_st_scheme \<Rightarrow> (u32 \<times> 'a fs_st_scheme) outcome" where
  "balloc dev s = balloc_loop ((unat (sb_size (sb s)) + BPB - 1) div BPB) 0 dev s"

definition bfree :: "u32 \<Rightarrow> u32 \<Rightarrow> 'a fs_st_scheme \<Rightarrow> 'a fs_st_scheme outcome" where
  "bfree dev b s =
     bnd (bread dev (BBLOCK b (sb s)) s) (\<lambda>(bp, s).
     let bi = unat b mod BPB
     in if b_data (bufs s ! bp) ! (bi div 8) AND bit_mask bi = 0 then Panic ''freeing free block''
        else let s = upd_buf bp (\<lambda>x. x\<lparr>b_data := (b_data x)[bi div 8 := b_data x ! (bi div 8) AND NOT (bit_mask bi)]\<rparr>) s
             in bnd (log_write bp s) (brelse bp))"

section \<open>Inodes\<close>

fun iinit_loop :: "nat \<Rightarrow> nat \<Rightarrow> 'a fs_st_scheme \<Rightarrow> 'a fs_st_scheme" where
  "iinit_loop 0 i s = s"
| "iinit_loop (Suc n) i s = iinit_loop n (Suc i) (upd_inode i (\<lambda>x. x\<lparr>i_lock := initsleeplock ''inode''\<rparr>) s)"

definition iinit :: "'a fs_st_scheme \<Rightarrow> 'a fs_st_scheme" where
  "iinit s = iinit_loop NINODE 0 (s\<lparr>itable_lock := initlock ''itable''\<rparr>)"

text \<open>The scan of \<open>iget\<close>: the entry of the inode if it is in the table, and the first empty entry before it.\<close>

fun iget_scan :: "nat \<Rightarrow> nat \<Rightarrow> nat option \<Rightarrow> u32 \<Rightarrow> u32 \<Rightarrow> inode list \<Rightarrow> nat option \<times> nat option" where
  "iget_scan 0 ip emp dev inum tbl = (None, emp)"
| "iget_scan (Suc n) ip emp dev inum tbl =
     (if 0 < i_ref (tbl ! ip) \<and> i_dev (tbl ! ip) = dev \<and> i_inum (tbl ! ip) = inum then (Some ip, emp)
      else iget_scan n (Suc ip) (if emp = None \<and> i_ref (tbl ! ip) = 0 then Some ip else emp) dev inum tbl)"

definition iget :: "u32 \<Rightarrow> u32 \<Rightarrow> 'a fs_st_scheme \<Rightarrow> (nat \<times> 'a fs_st_scheme) outcome" where
  "iget dev inum s =
     bnd (acquire_itable s) (\<lambda>s.
     case iget_scan NINODE 0 None dev inum (inodes s) of
       (Some ip, _) \<Rightarrow>
         bnd (release_itable (upd_inode ip (\<lambda>x. x\<lparr>i_ref := i_ref x + 1\<rparr>) s)) (\<lambda>s. Ok (ip, s))
     | (None, None) \<Rightarrow> Panic ''iget: no inodes''
     | (None, Some ip) \<Rightarrow>
         bnd (release_itable (upd_inode ip (\<lambda>x. x\<lparr>i_dev := dev, i_inum := inum, i_ref := 1, i_valid := False\<rparr>) s))
           (\<lambda>s. Ok (ip, s)))"

fun ialloc_loop :: "nat \<Rightarrow> u32 \<Rightarrow> u32 \<Rightarrow> u16 \<Rightarrow> 'a fs_st_scheme \<Rightarrow> (nat option \<times> 'a fs_st_scheme) outcome" where
  "ialloc_loop 0 inum dev ty s = Ok (None, s)"
| "ialloc_loop (Suc n) inum dev ty s =
     bnd (bread dev (IBLOCK inum (sb s)) s) (\<lambda>(bp, s).
       if get16 (b_data (bufs s ! bp)) (ioff inum) = 0
       then let s = upd_buf bp (\<lambda>x. x\<lparr>b_data := put16 (splice (b_data x) (ioff inum) (replicate 64 0)) (ioff inum) ty\<rparr>) s
            in bnd (log_write bp s) (\<lambda>s.
               bnd (brelse bp s) (\<lambda>s.
               bnd (iget dev inum s) (\<lambda>(ip, s). Ok (Some ip, s))))
       else bnd (brelse bp s) (ialloc_loop n (inum + 1) dev ty))"

definition ialloc :: "u32 \<Rightarrow> u16 \<Rightarrow> 'a fs_st_scheme \<Rightarrow> (nat option \<times> 'a fs_st_scheme) outcome" where
  "ialloc dev ty s = ialloc_loop (unat (sb_ninodes (sb s)) - 1) 1 dev ty s"

definition iupdate :: "nat \<Rightarrow> 'a fs_st_scheme \<Rightarrow> 'a fs_st_scheme outcome" where
  "iupdate ip s =
     bnd (bread (i_dev (inodes s ! ip)) (IBLOCK (i_inum (inodes s ! ip)) (sb s)) s) (\<lambda>(bp, s).
     let i = inodes s ! ip;
         d = \<lparr>d_type = i_type i, d_major = i_major i, d_minor = i_minor i, d_nlink = i_nlink i,
              d_size = i_size i, d_addrs = i_addrs i\<rparr>;
         s = upd_buf bp (\<lambda>x. x\<lparr>b_data := splice (b_data x) (ioff (i_inum i)) (enc_dinode d)\<rparr>) s
     in bnd (log_write bp s) (brelse bp))"

definition idup :: "nat \<Rightarrow> 'a fs_st_scheme \<Rightarrow> (nat \<times> 'a fs_st_scheme) outcome" where
  "idup ip s =
     bnd (acquire_itable s) (\<lambda>s.
     bnd (release_itable (upd_inode ip (\<lambda>x. x\<lparr>i_ref := i_ref x + 1\<rparr>) s)) (\<lambda>s. Ok (ip, s)))"

definition ilock :: "nat option \<Rightarrow> 'a fs_st_scheme \<Rightarrow> 'a fs_st_scheme outcome" where
  "ilock p s =
     (case p of None \<Rightarrow> Panic ''ilock'' | Some ip \<Rightarrow>
      if i_ref (inodes s ! ip) < 1 then Panic ''ilock''
      else bnd (acquiresleep (ChanInodeLock ip) (get_ilock ip) (upd_ilock ip) s) (\<lambda>s.
           if \<not> i_valid (inodes s ! ip)
           then bnd (bread (i_dev (inodes s ! ip)) (IBLOCK (i_inum (inodes s ! ip)) (sb s)) s) (\<lambda>(bp, s).
                let d = dec_dinode (slice (b_data (bufs s ! bp)) (ioff (i_inum (inodes s ! ip))) 64);
                    s = upd_inode ip (\<lambda>x. x\<lparr>i_type := d_type d, i_major := d_major d, i_minor := d_minor d,
                          i_nlink := d_nlink d, i_size := d_size d, i_addrs := d_addrs d\<rparr>) s
                in bnd (brelse bp s) (\<lambda>s.
                   let s = upd_inode ip (\<lambda>x. x\<lparr>i_valid := True\<rparr>) s
                   in if i_type (inodes s ! ip) = 0 then Panic ''ilock: no type'' else Ok s))
           else Ok s))"

definition iunlock :: "nat option \<Rightarrow> 'a fs_st_scheme \<Rightarrow> 'a fs_st_scheme outcome" where
  "iunlock p s =
     (case p of None \<Rightarrow> Panic ''iunlock'' | Some ip \<Rightarrow>
      bnd (holdingsleep (get_ilock ip) (upd_ilock ip) s) (\<lambda>(h, s).
        if \<not> h \<or> i_ref (inodes s ! ip) < 1 then Panic ''iunlock''
        else releasesleep (ChanInodeLock ip) (get_ilock ip) (upd_ilock ip) s))"

section \<open>Contents of inodes\<close>

definition bmap :: "nat \<Rightarrow> nat \<Rightarrow> 'a fs_st_scheme \<Rightarrow> (u32 \<times> 'a fs_st_scheme) outcome" where
  "bmap ip bn s =
     (if bn < NDIRECT
      then let addr = i_addrs (inodes s ! ip) ! bn
           in if addr = 0
              then bnd (balloc (i_dev (inodes s ! ip)) s) (\<lambda>(addr, s).
                   if addr = 0 then Ok (0, s)
                   else Ok (addr, upd_inode ip (\<lambda>x. x\<lparr>i_addrs := (i_addrs x)[bn := addr]\<rparr>) s))
              else Ok (addr, s)
      else let bn = bn - NDIRECT
           in if bn < NINDIRECT
              then let addr = i_addrs (inodes s ! ip) ! NDIRECT
                   in bnd (if addr = 0
                           then bnd (balloc (i_dev (inodes s ! ip)) s) (\<lambda>(addr, s).
                                if addr = 0 then Ok (0, s)
                                else Ok (addr, upd_inode ip (\<lambda>x. x\<lparr>i_addrs := (i_addrs x)[NDIRECT := addr]\<rparr>) s))
                           else Ok (addr, s)) (\<lambda>(addr, s).
                      if addr = 0 then Ok (0, s)
                      else bnd (bread (i_dev (inodes s ! ip)) addr s) (\<lambda>(bp, s).
                           let addr = get32 (b_data (bufs s ! bp)) (4 * bn)
                           in bnd (if addr = 0
                                   then bnd (balloc (i_dev (inodes s ! ip)) s) (\<lambda>(addr, s).
                                        if addr \<noteq> 0
                                        then bnd (log_write bp (upd_buf bp (\<lambda>x. x\<lparr>b_data := put32 (b_data x) (4 * bn) addr\<rparr>) s))
                                               (\<lambda>s. Ok (addr, s))
                                        else Ok (addr, s))
                                   else Ok (addr, s)) (\<lambda>(addr, s).
                              bnd (brelse bp s) (\<lambda>s. Ok (addr, s)))))
              else Panic ''bmap: out of range'')"

fun itrunc_direct :: "nat \<Rightarrow> nat \<Rightarrow> nat \<Rightarrow> 'a fs_st_scheme \<Rightarrow> 'a fs_st_scheme outcome" where
  "itrunc_direct 0 i ip s = Ok s"
| "itrunc_direct (Suc n) i ip s =
     bnd (if i_addrs (inodes s ! ip) ! i \<noteq> 0
          then bnd (bfree (i_dev (inodes s ! ip)) (i_addrs (inodes s ! ip) ! i) s) (\<lambda>s.
               Ok (upd_inode ip (\<lambda>x. x\<lparr>i_addrs := (i_addrs x)[i := 0]\<rparr>) s))
          else Ok s) (itrunc_direct n (Suc i) ip)"

fun itrunc_indirect :: "nat \<Rightarrow> nat \<Rightarrow> nat \<Rightarrow> nat \<Rightarrow> 'a fs_st_scheme \<Rightarrow> 'a fs_st_scheme outcome" where
  "itrunc_indirect 0 j ip bp s = Ok s"
| "itrunc_indirect (Suc n) j ip bp s =
     bnd (if get32 (b_data (bufs s ! bp)) (4 * j) \<noteq> 0
          then bfree (i_dev (inodes s ! ip)) (get32 (b_data (bufs s ! bp)) (4 * j)) s
          else Ok s) (itrunc_indirect n (Suc j) ip bp)"

definition itrunc :: "nat \<Rightarrow> 'a fs_st_scheme \<Rightarrow> 'a fs_st_scheme outcome" where
  "itrunc ip s =
     bnd (itrunc_direct NDIRECT 0 ip s) (\<lambda>s.
     bnd (if i_addrs (inodes s ! ip) ! NDIRECT \<noteq> 0
          then bnd (bread (i_dev (inodes s ! ip)) (i_addrs (inodes s ! ip) ! NDIRECT) s) (\<lambda>(bp, s).
               bnd (itrunc_indirect NINDIRECT 0 ip bp s) (\<lambda>s.
               bnd (brelse bp s) (\<lambda>s.
               bnd (bfree (i_dev (inodes s ! ip)) (i_addrs (inodes s ! ip) ! NDIRECT) s) (\<lambda>s.
               Ok (upd_inode ip (\<lambda>x. x\<lparr>i_addrs := (i_addrs x)[NDIRECT := 0]\<rparr>) s)))))
          else Ok s) (\<lambda>s.
     iupdate ip (upd_inode ip (\<lambda>x. x\<lparr>i_size := 0\<rparr>) s)))"

definition iput :: "nat \<Rightarrow> 'a fs_st_scheme \<Rightarrow> 'a fs_st_scheme outcome" where
  "iput ip s =
     bnd (acquire_itable s) (\<lambda>s.
     bnd (if i_ref (inodes s ! ip) = 1 \<and> i_valid (inodes s ! ip) \<and> i_nlink (inodes s ! ip) = 0
          then bnd (acquiresleep (ChanInodeLock ip) (get_ilock ip) (upd_ilock ip) s) (\<lambda>s.
               bnd (release_itable s) (\<lambda>s.
               bnd (itrunc ip s) (\<lambda>s.
               bnd (iupdate ip (upd_inode ip (\<lambda>x. x\<lparr>i_type := 0\<rparr>) s)) (\<lambda>s.
               let s = upd_inode ip (\<lambda>x. x\<lparr>i_valid := False\<rparr>) s
               in bnd (releasesleep (ChanInodeLock ip) (get_ilock ip) (upd_ilock ip) s) (\<lambda>s.
                  acquire_itable s)))))
          else Ok s) (\<lambda>s.
     release_itable (upd_inode ip (\<lambda>x. x\<lparr>i_ref := i_ref x - 1\<rparr>) s)))"

definition iunlockput :: "nat \<Rightarrow> 'a fs_st_scheme \<Rightarrow> 'a fs_st_scheme outcome" where
  "iunlockput ip s = bnd (iunlock (Some ip) s) (iput ip)"

text \<open>\<open>struct stat\<close> of kernel/stat.h.\<close>

record stat_t =
  st_dev :: u32
  st_ino :: u32
  st_type :: u16
  st_nlink :: u16
  st_size :: u64

definition stati :: "nat \<Rightarrow> 'a fs_st_scheme \<Rightarrow> stat_t" where
  "stati ip s =
     (let i = inodes s ! ip
      in \<lparr>st_dev = i_dev i, st_ino = i_inum i, st_type = i_type i, st_nlink = i_nlink i, st_size = ucast (i_size i)\<rparr>)"

text \<open>
  The loops of \<open>readi\<close> and \<open>writei\<close>. The first argument is \<open>n - tot\<close>; it shrinks by \<open>m\<close>, which is positive.
  Offsets are natural numbers: the callers have checked that \<open>off + n\<close> does not wrap around.
\<close>

function readi_loop :: "nat \<Rightarrow> nat \<Rightarrow> nat \<Rightarrow> nat \<Rightarrow> place \<Rightarrow> 'a fs_st_scheme \<Rightarrow>
    ((int \<times> place) \<times> 'a fs_st_scheme) outcome" where
  "readi_loop left tot off ip dst s =
     (if left = 0 then Ok ((int tot, dst), s)
      else bnd (bmap ip (off div BSIZE) s) (\<lambda>(addr, s).
           if addr = 0 then Ok ((int tot, dst), s)
           else bnd (bread (i_dev (inodes s ! ip)) addr s) (\<lambda>(bp, s).
                let m = min left (BSIZE - off mod BSIZE)
                in bnd (either_copyout dst (slice (b_data (bufs s ! bp)) (off mod BSIZE) m) s) (\<lambda>((r, dst), s).
                   if r = -1 then bnd (brelse bp s) (\<lambda>s. Ok ((-1, dst), s))
                   else bnd (brelse bp s) (\<lambda>s.
                        readi_loop (left - m) (tot + m) (off + m) ip (dst_add dst m) s)))))"
  by pat_completeness auto
termination
  by (relation "measure (\<lambda>(left, _). left)") (auto simp: BSIZE_def)

definition readi :: "nat \<Rightarrow> place \<Rightarrow> u32 \<Rightarrow> u32 \<Rightarrow> 'a fs_st_scheme \<Rightarrow> ((int \<times> place) \<times> 'a fs_st_scheme) outcome" where
  "readi ip dst off n s =
     (let size = i_size (inodes s ! ip)
      in if size < off \<or> off + n < off then Ok ((0, dst), s)
         else let n = (if size < off + n then size - off else n)
              in readi_loop (unat n) 0 (unat off) ip dst s)"

text \<open>A failed \<open>either_copyin\<close> has already stored in the block the bytes of the pages before the fault.\<close>

function writei_loop :: "nat \<Rightarrow> nat \<Rightarrow> nat \<Rightarrow> nat \<Rightarrow> place \<Rightarrow> 'a fs_st_scheme \<Rightarrow>
    ((nat \<times> nat) \<times> 'a fs_st_scheme) outcome" where
  "writei_loop left tot off ip src s =
     (if left = 0 then Ok ((tot, off), s)
      else bnd (bmap ip (off div BSIZE) s) (\<lambda>(addr, s).
           if addr = 0 then Ok ((tot, off), s)
           else bnd (bread (i_dev (inodes s ! ip)) addr s) (\<lambda>(bp, s).
                let m = min left (BSIZE - off mod BSIZE)
                in bnd (either_copyin src m s) (\<lambda>((r, bs), s).
                   let s = upd_buf bp (\<lambda>x. x\<lparr>b_data := splice (b_data x) (off mod BSIZE) bs\<rparr>) s
                   in if r = -1 then bnd (brelse bp s) (\<lambda>s. Ok ((tot, off), s))
                      else bnd (log_write bp s) (\<lambda>s.
                           bnd (brelse bp s) (\<lambda>s.
                           writei_loop (left - m) (tot + m) (off + m) ip (src_add src m) s))))))"
  by pat_completeness auto
termination
  by (relation "measure (\<lambda>(left, _). left)") (auto simp: BSIZE_def)

definition writei :: "nat \<Rightarrow> place \<Rightarrow> u32 \<Rightarrow> u32 \<Rightarrow> 'a fs_st_scheme \<Rightarrow> (int \<times> 'a fs_st_scheme) outcome" where
  "writei ip src off n s =
     (if i_size (inodes s ! ip) < off \<or> off + n < off then Ok (-1, s)
      else if MAXFILE * BSIZE < unat (off + n) then Ok (-1, s)
      else bnd (writei_loop (unat n) 0 (unat off) ip src s) (\<lambda>((tot, off), s).
           let s = (if unat (i_size (inodes s ! ip)) < off
                    then upd_inode ip (\<lambda>x. x\<lparr>i_size := of_nat off\<rparr>) s else s)
           in bnd (iupdate ip s) (\<lambda>s. Ok (int tot, s))))"

declare readi_loop.simps [simp del] writei_loop.simps [simp del]

end
