(* ===== verification/Ring.thy ===== *)
theory Ring
  imports Prelude
begin

text \<open>
  Ring buffers with free-running indices, as the pipe, the console and the UART driver use them: an array of
  \<open>N\<close> bytes, a read index \<open>r\<close> and a write index \<open>w\<close> that only ever grow and wrap around at the width of
  their type. The locale fixes the size; its lemmas hold across the wrap-around because \<open>N\<close> divides the
  number of index values.
\<close>

definition ring_contents :: "nat \<Rightarrow> bytes \<Rightarrow> 'i::len word \<Rightarrow> 'i word \<Rightarrow> bytes" where
  "ring_contents N buf r w = map (\<lambda>j. buf ! (unat (r + of_nat j) mod N)) [0..<unat (w - r)]"

lemma length_ring_contents [simp]: "length (ring_contents N buf r w) = unat (w - r)"
  by (simp add: ring_contents_def)

lemma ring_contents_empty [simp]: "ring_contents N buf r r = []"
  by (simp add: ring_contents_def)

locale ring =
  fixes N :: nat and ty :: "'i::len itself"
  assumes N_pos: "0 < N" and N_dvd: "N dvd 2 ^ LENGTH('i)" and N_less: "N < 2 ^ LENGTH('i)"
begin

lemma unat_add_mod: "unat (r + of_nat j :: 'i word) mod N = (unat r + j) mod N"
proof -
  have "unat (r + of_nat j) = (unat r + j) mod 2 ^ LENGTH('i)"
    by (simp add: unat_word_ariths unsigned_of_nat take_bit_eq_mod mod_add_right_eq)
  then show ?thesis using N_dvd by (simp add: mod_mod_cancel)
qed

lemma full_iff: "unat (w - r :: 'i word) = N \<longleftrightarrow> w = r + of_nat N"
proof -
  have "unat (of_nat N :: 'i word) = N" using N_less by (simp add: unsigned_of_nat take_bit_nat_eq_self)
  then have "unat (w - r) = N \<longleftrightarrow> w - r = of_nat N" by (auto simp: word_unat_eq_iff)
  then show ?thesis by (auto simp: algebra_simps)
qed

lemma unat_incr: "unat (w - r :: 'i word) < N \<Longrightarrow> unat (w + 1 - r) = Suc (unat (w - r))"
proof -
  assume h: "unat (w - r) < N"
  have "unat (w - r + of_nat 1) = unat (w - r) + 1"
    by (rule unat_add_of_nat) (use h N_less in simp)
  moreover have "w - r + of_nat 1 = w + 1 - r" by (simp add: algebra_simps)
  ultimately show ?thesis by (simp only: Suc_eq_plus1)
qed

lemma unat_decr: "(w :: 'i word) \<noteq> r \<Longrightarrow> unat (w - r) = Suc (unat (w - (r + 1)))"
proof -
  assume ne: "w \<noteq> r"
  then have "w - r \<noteq> 0" by simp
  then have "unat (w - r - 1) = unat (w - r) - 1" "0 < unat (w - r)"
    by (simp_all add: unat_minus_one unat_gt_0)
  moreover have "w - r - 1 = w - (r + 1)" by simp
  ultimately show ?thesis by simp
qed

lemma put:
  assumes "length buf = N" "unat (w - r :: 'i word) < N"
  shows "ring_contents N (buf[unat w mod N := c]) r (w + 1) = ring_contents N buf r w @ [c]"
proof -
  let ?k = "unat (w - r)"
  have w: "r + of_nat ?k = w" by simp
  have idx: "(unat r + j) mod N \<noteq> unat w mod N" if "j < ?k" for j
  proof
    have "unat w mod N = (unat r + ?k) mod N" using unat_add_mod [of r ?k] w by simp
    moreover assume "(unat r + j) mod N = unat w mod N"
    ultimately have "(unat r + j) mod N = (unat r + ?k) mod N" by simp
    then have "j mod N = ?k mod N" by (simp add: nat_mod_eq_iff)
    with that assms(2) show False by simp
  qed
  have k: "unat w mod N = (unat r + ?k) mod N" using unat_add_mod [of r ?k] w by simp
  have "unat w mod N < N" using N_pos by simp
  moreover have "(unat r + ?k) mod N \<noteq> (unat r + j) mod N" if "j < ?k" for j using idx [OF that] k by simp
  ultimately show ?thesis using assms by (simp add: ring_contents_def unat_incr unat_add_mod k)
qed

lemma get:
  assumes "(w :: 'i word) \<noteq> r"
  shows "ring_contents N buf r w = buf ! (unat r mod N) # ring_contents N buf (r + 1) w"
proof -
  show ?thesis
    by (simp add: ring_contents_def unat_decr [OF assms] upt_conv_Cons map_Suc_upt [symmetric] add.assoc del: upt_Suc)
qed

lemma unput:
  assumes "unat (w - r :: 'i word) \<le> N" "w \<noteq> r"
  shows "ring_contents N buf r (w - 1) = butlast (ring_contents N buf r w)"
proof -
  have "unat (w - 1 - r) = unat (w - r) - 1"
    using unat_decr [OF assms(2)] by (simp add: algebra_simps)
  then show ?thesis
    by (simp add: ring_contents_def butlast_conv_take take_map)
qed

end

interpretation pipe_ring: ring 512 "TYPE(32)"
  by unfold_locales (simp_all add: dvd_def)

interpretation cons_ring: ring 128 "TYPE(32)"
  by unfold_locales (simp_all add: dvd_def)

interpretation uart_ring: ring 32 "TYPE(64)"
  by unfold_locales (simp_all add: dvd_def)

end
