(* ===== verification/Console.thy ===== *)
theory Console
  imports Fs Ring
begin

text \<open>
  kernel/uart.c and kernel/console.c. The 16550 UART is modelled by its registers: \<open>uart_in\<close> are the
  characters it has received and not yet delivered, \<open>uart_out\<close> those it was given to send, and \<open>uart_room\<close>
  says how many more it takes before it is busy. The line status register follows from these.
\<close>

section \<open>State\<close>

datatype dev_read = Dev_consoleread
datatype dev_write = Dev_consolewrite

record cons_st = fs_st +
  uart_regs :: "nat \<Rightarrow> u8"
  uart_dll :: u8
  uart_dlm :: u8
  uart_in :: bytes
  uart_out :: bytes
  uart_room :: nat
  uart_tx_lock :: spinlock
  uart_tx_buf :: bytes
  uart_tx_w :: u64
  uart_tx_r :: u64
  panicked :: bool
  cons_lock :: spinlock
  cons_buf :: bytes
  cons_r :: u32
  cons_w :: u32
  cons_e :: u32
  devsw_read :: "dev_read option list"
  devsw_write :: "dev_write option list"

section \<open>UART registers\<close>

definition RHR :: nat where "RHR = 0"
definition THR :: nat where "THR = 0"
definition IER :: nat where "IER = 1"
definition FCR :: nat where "FCR = 2"
definition ISR :: nat where "ISR = 2"
definition LCR :: nat where "LCR = 3"
definition LSR :: nat where "LSR = 5"
definition LCR_EIGHT_BITS :: u8 where "LCR_EIGHT_BITS = 3"
definition LCR_BAUD_LATCH :: u8 where "LCR_BAUD_LATCH = 128"
definition LSR_RX_READY :: u8 where "LSR_RX_READY = 1"
definition LSR_TX_IDLE :: u8 where "LSR_TX_IDLE = 32"
definition UART_TX_BUF_SIZE :: nat where "UART_TX_BUF_SIZE = 32"

definition WriteReg :: "nat \<Rightarrow> u8 \<Rightarrow> 'a cons_st_scheme \<Rightarrow> 'a cons_st_scheme" where
  "WriteReg reg v s =
     (if uart_regs s LCR AND LCR_BAUD_LATCH \<noteq> 0 \<and> reg = 0 then s\<lparr>uart_dll := v\<rparr>
      else if uart_regs s LCR AND LCR_BAUD_LATCH \<noteq> 0 \<and> reg = 1 then s\<lparr>uart_dlm := v\<rparr>
      else if reg = THR then s\<lparr>uart_out := uart_out s @ [v], uart_room := uart_room s - 1\<rparr>
      else s\<lparr>uart_regs := (uart_regs s)(reg := v)\<rparr>)"

definition read_LSR :: "'a cons_st_scheme \<Rightarrow> u8" where
  "read_LSR s = (if uart_in s = [] then 0 else LSR_RX_READY) OR (if uart_room s = 0 then 0 else LSR_TX_IDLE)"

definition uartinit :: "'a cons_st_scheme \<Rightarrow> 'a cons_st_scheme" where
  "uartinit s =
     (let s = WriteReg IER 0 s;
          s = WriteReg LCR LCR_BAUD_LATCH s;
          s = WriteReg 0 3 s;
          s = WriteReg 1 0 s;
          s = WriteReg LCR LCR_EIGHT_BITS s;
          s = WriteReg FCR (1 OR 6) s;
          s = WriteReg IER (2 OR 1) s
      in s\<lparr>uart_tx_lock := initlock ''uart''\<rparr>)"

section \<open>Sending and receiving\<close>

text \<open>
  Every round of \<open>uartstart\<close> takes a character from the buffer, so that one round more than there are
  characters is enough.
\<close>

fun uartstart_loop :: "nat \<Rightarrow> 'a cons_st_scheme \<Rightarrow> 'a cons_st_scheme outcome" where
  "uartstart_loop 0 s = Blocked"
| "uartstart_loop (Suc n) s =
     (if uart_tx_w s = uart_tx_r s then Ok s
      else if read_LSR s AND LSR_TX_IDLE = 0 then Ok s
      else let c = uart_tx_buf s ! (unat (uart_tx_r s) mod UART_TX_BUF_SIZE);
               s = s\<lparr>uart_tx_r := uart_tx_r s + 1\<rparr>
           in bnd (wakeup ChanUart s) (\<lambda>s. uartstart_loop n (WriteReg THR c s)))"

definition uartstart :: "'a cons_st_scheme \<Rightarrow> 'a cons_st_scheme outcome" where
  "uartstart s = uartstart_loop (Suc (unat (uart_tx_w s - uart_tx_r s))) s"

definition uartputc :: "u8 \<Rightarrow> 'a cons_st_scheme \<Rightarrow> 'a cons_st_scheme outcome" where
  "uartputc c s =
     bnd (acquire_in uart_tx_lock uart_tx_lock_update s) (\<lambda>s.
       if panicked s then Blocked
       else if uart_tx_w s = uart_tx_r s + of_nat UART_TX_BUF_SIZE
       then sleep ChanUart uart_tx_lock uart_tx_lock_update s
       else let s = s\<lparr>uart_tx_buf := (uart_tx_buf s)[unat (uart_tx_w s) mod UART_TX_BUF_SIZE := c]\<rparr>;
                s = s\<lparr>uart_tx_w := uart_tx_w s + 1\<rparr>
            in bnd (uartstart s) (\<lambda>s. release_in uart_tx_lock uart_tx_lock_update s))"

definition uartputc_sync :: "u32 \<Rightarrow> 'a cons_st_scheme \<Rightarrow> 'a cons_st_scheme outcome" where
  "uartputc_sync c s =
     (let s = push_off s
      in if panicked s then Blocked
         else if read_LSR s AND LSR_TX_IDLE = 0 then Blocked
         else pop_off (WriteReg THR (ucast c) s))"

definition uartgetc :: "'a cons_st_scheme \<Rightarrow> u8 option \<times> 'a cons_st_scheme" where
  "uartgetc s =
     (if read_LSR s AND 1 \<noteq> 0 then (Some (hd (uart_in s)), s\<lparr>uart_in := tl (uart_in s)\<rparr>) else (None, s))"

section \<open>Console\<close>

definition INPUT_BUF_SIZE :: nat where "INPUT_BUF_SIZE = 128"
definition BACKSPACE :: u32 where "BACKSPACE = 0x100"

definition consputc :: "u32 \<Rightarrow> 'a cons_st_scheme \<Rightarrow> 'a cons_st_scheme outcome" where
  "consputc c s =
     (if c = BACKSPACE
      then bnd (uartputc_sync 8 s) (\<lambda>s. bnd (uartputc_sync 32 s) (uartputc_sync 8))
      else uartputc_sync c s)"

fun consolewrite_loop :: "nat \<Rightarrow> nat \<Rightarrow> place \<Rightarrow> 'a cons_st_scheme \<Rightarrow> (int \<times> 'a cons_st_scheme) outcome" where
  "consolewrite_loop 0 i src s = Ok (int i, s)"
| "consolewrite_loop (Suc n) i src s =
     bnd (either_copyin src 1 s) (\<lambda>((r, bs), s).
       if r = -1 then Ok (int i, s)
       else bnd (uartputc (bs ! 0) s) (consolewrite_loop n (Suc i) (src_add src 1)))"

definition consolewrite :: "place \<Rightarrow> int \<Rightarrow> 'a cons_st_scheme \<Rightarrow> (int \<times> 'a cons_st_scheme) outcome" where
  "consolewrite src n s = consolewrite_loop (nat n) 0 src s"

text \<open>
  A loop that sleeps in the middle of its work: \<open>Wait\<close> carries what is left to do when the thread is woken,
  and the state is the one in which it went to sleep.
\<close>

datatype ('a, 'b) turn = Done 'a | Wait 'b

text \<open>
  The loop of \<open>consoleread\<close>, from holding the lock to releasing it or going to sleep; \<open>n\<close> is the number of
  bytes still wanted.
\<close>

fun consoleread_turn :: "nat \<Rightarrow> int \<Rightarrow> place \<Rightarrow> 'a cons_st_scheme \<Rightarrow>
    ((int \<times> place, nat \<times> place) turn \<times> 'a cons_st_scheme) outcome" where
  "consoleread_turn 0 target dst s =
     bnd (release_in cons_lock cons_lock_update s) (\<lambda>s. Ok (Done (target, dst), s))"
| "consoleread_turn (Suc n) target dst s =
     (if cons_r s = cons_w s
      then bnd (curproc s) (\<lambda>(p, s).
           bnd (killed p s) (\<lambda>(k, s).
           if k \<noteq> 0 then bnd (release_in cons_lock cons_lock_update s) (\<lambda>s. Ok (Done (-1, dst), s))
           else bnd (sleep_out ChanCons cons_lock cons_lock_update s) (\<lambda>(_, s). Ok (Wait (Suc n, dst), s))))
      else let c = cons_buf s ! (unat (cons_r s) mod INPUT_BUF_SIZE);
               s = s\<lparr>cons_r := cons_r s + 1\<rparr>
           in if c = 4
              then let s = (if int (Suc n) < target then s\<lparr>cons_r := cons_r s - 1\<rparr> else s)
                   in bnd (release_in cons_lock cons_lock_update s) (\<lambda>s. Ok (Done (target - int (Suc n), dst), s))
              else bnd (either_copyout dst [c] s) (\<lambda>((r, dst), s).
                   if r = -1
                   then bnd (release_in cons_lock cons_lock_update s) (\<lambda>s. Ok (Done (target - int (Suc n), dst), s))
                   else let dst = dst_add dst 1
                        in if c = 10
                           then bnd (release_in cons_lock cons_lock_update s) (\<lambda>s. Ok (Done (target - int n, dst), s))
                           else consoleread_turn n target dst s))"

definition consoleread :: "place \<Rightarrow> int \<Rightarrow> 'a cons_st_scheme \<Rightarrow> ((int \<times> place) \<times> 'a cons_st_scheme) outcome" where
  "consoleread dst n s =
     bnd (acquire_in cons_lock cons_lock_update s) (\<lambda>s.
     bnd (if 0 < n then consoleread_turn (nat n) n dst s
          else bnd (release_in cons_lock cons_lock_update s) (\<lambda>s. Ok (Done (0, dst), s))) (\<lambda>(t, s).
     case t of Done r \<Rightarrow> Ok (r, s) | Wait _ \<Rightarrow> Blocked))"

text \<open>The loop of control-U: at most \<open>e - w\<close> characters are erased.\<close>

fun kill_line :: "nat \<Rightarrow> 'a cons_st_scheme \<Rightarrow> 'a cons_st_scheme outcome" where
  "kill_line n s =
     (if cons_e s \<noteq> cons_w s \<and> cons_buf s ! (unat (cons_e s - 1) mod INPUT_BUF_SIZE) \<noteq> 10
      then (case n of 0 \<Rightarrow> Blocked
            | Suc n \<Rightarrow> bnd (consputc BACKSPACE (s\<lparr>cons_e := cons_e s - 1\<rparr>)) (kill_line n))
      else Ok s)"

definition consoleintr :: "u8 \<Rightarrow> 'a cons_st_scheme \<Rightarrow> 'a cons_st_scheme outcome" where
  "consoleintr c s =
     bnd (acquire_in cons_lock cons_lock_update s) (\<lambda>s.
     bnd (if c = 16 then Ok s
          else if c = 21 then kill_line (unat (cons_e s - cons_w s)) s
          else if c = 8 \<or> c = 127
          then (if cons_e s \<noteq> cons_w s then consputc BACKSPACE (s\<lparr>cons_e := cons_e s - 1\<rparr>) else Ok s)
          else if c \<noteq> 0 \<and> cons_e s - cons_r s < of_nat INPUT_BUF_SIZE
          then let c = (if c = 13 then 10 else c)
               in bnd (consputc (ucast c) s) (\<lambda>s.
                  let s = s\<lparr>cons_buf := (cons_buf s)[unat (cons_e s) mod INPUT_BUF_SIZE := c]\<rparr>;
                      s = s\<lparr>cons_e := cons_e s + 1\<rparr>
                  in if c = 10 \<or> c = 4 \<or> cons_e s - cons_r s = of_nat INPUT_BUF_SIZE
                     then wakeup ChanCons (s\<lparr>cons_w := cons_e s\<rparr>)
                     else Ok s)
          else Ok s) (\<lambda>s.
     release_in cons_lock cons_lock_update s))"

definition consoleinit :: "'a cons_st_scheme \<Rightarrow> 'a cons_st_scheme" where
  "consoleinit s =
     (let s = uartinit (s\<lparr>cons_lock := initlock ''cons''\<rparr>)
      in s\<lparr>devsw_read := (devsw_read s)[1 := Some Dev_consoleread],
           devsw_write := (devsw_write s)[1 := Some Dev_consolewrite]\<rparr>)"

text \<open>One round more than there are characters waiting ends with \<open>uartgetc\<close> returning -1.\<close>

fun uartintr_loop :: "nat \<Rightarrow> 'a cons_st_scheme \<Rightarrow> 'a cons_st_scheme outcome" where
  "uartintr_loop 0 s = Blocked"
| "uartintr_loop (Suc n) s =
     (case uartgetc s of (None, s) \<Rightarrow> Ok s | (Some c, s) \<Rightarrow> bnd (consoleintr c s) (uartintr_loop n))"

definition uartintr :: "'a cons_st_scheme \<Rightarrow> 'a cons_st_scheme outcome" where
  "uartintr s =
     bnd (uartintr_loop (Suc (length (uart_in s))) s) (\<lambda>s.
     bnd (acquire_in uart_tx_lock uart_tx_lock_update s) (\<lambda>s.
     bnd (uartstart s) (\<lambda>s.
     release_in uart_tx_lock uart_tx_lock_update s)))"

declare kill_line.simps [simp del]

end
