(* ===== verification/Pipe.thy ===== *)
theory Pipe
  imports Console
begin

text \<open>
  kernel/pipe.c. A pipe lives in a page of its own; \<open>pipes\<close> gives the \<open>struct pipe\<close> in the page at an
  address, and \<open>None\<close> if there is none (any more).
\<close>

section \<open>State\<close>

definition PIPESIZE :: nat where "PIPESIZE = 512"

record pipe =
  pi_lock :: spinlock
  pi_data :: bytes
  pi_nread :: u32
  pi_nwrite :: u32
  pi_readopen :: bool
  pi_writeopen :: bool

record pipe_st = cons_st +
  pipes :: "addr \<Rightarrow> pipe option"

definition the_pipe :: "addr \<Rightarrow> 'a pipe_st_scheme \<Rightarrow> pipe" where
  "the_pipe a s = (case pipes s a of Some p \<Rightarrow> p | None \<Rightarrow>
     \<lparr>pi_lock = initlock [], pi_data = [], pi_nread = 0, pi_nwrite = 0, pi_readopen = False, pi_writeopen = False\<rparr>)"

definition upd_pipe :: "addr \<Rightarrow> (pipe \<Rightarrow> pipe) \<Rightarrow> 'a pipe_st_scheme \<Rightarrow> 'a pipe_st_scheme" where
  "upd_pipe a f s = s\<lparr>pipes := (pipes s)(a := map_option f (pipes s a))\<rparr>"

abbreviation acquire_pi :: "addr \<Rightarrow> 'a pipe_st_scheme \<Rightarrow> 'a pipe_st_scheme outcome" where
  "acquire_pi a s \<equiv> acquire_in (\<lambda>s. pi_lock (the_pipe a s)) (\<lambda>f. upd_pipe a (pi_lock_update f)) s"

abbreviation release_pi :: "addr \<Rightarrow> 'a pipe_st_scheme \<Rightarrow> 'a pipe_st_scheme outcome" where
  "release_pi a s \<equiv> release_in (\<lambda>s. pi_lock (the_pipe a s)) (\<lambda>f. upd_pipe a (pi_lock_update f)) s"

text \<open>The channels \<open>&pi->nread\<close> and \<open>&pi->nwrite\<close>.\<close>

definition chan_nread :: "addr \<Rightarrow> chan" where "chan_nread a = ChanPipeRead (unat a)"
definition chan_nwrite :: "addr \<Rightarrow> chan" where "chan_nwrite a = ChanPipeWrite (unat a)"

section \<open>Operations\<close>

definition pipeclose :: "addr \<Rightarrow> bool \<Rightarrow> 'a pipe_st_scheme \<Rightarrow> 'a pipe_st_scheme outcome" where
  "pipeclose pi writable s =
     bnd (acquire_pi pi s) (\<lambda>s.
     bnd (if writable then wakeup (chan_nread pi) (upd_pipe pi (\<lambda>p. p\<lparr>pi_writeopen := False\<rparr>) s)
          else wakeup (chan_nwrite pi) (upd_pipe pi (\<lambda>p. p\<lparr>pi_readopen := False\<rparr>) s)) (\<lambda>s.
     if \<not> pi_readopen (the_pipe pi s) \<and> \<not> pi_writeopen (the_pipe pi s)
     then bnd (release_pi pi s) (\<lambda>s. kfree pi (s\<lparr>pipes := (pipes s)(pi := None)\<rparr>))
     else release_pi pi s))"

text \<open>
  The loop of \<open>pipewrite\<close>, from holding the lock to releasing it or going to sleep; the first argument is
  \<open>n - i\<close>.
\<close>

fun pipewrite_turn :: "nat \<Rightarrow> nat \<Rightarrow> addr \<Rightarrow> nat \<Rightarrow> u64 \<Rightarrow> 'a pipe_st_scheme \<Rightarrow>
    ((int, nat) turn \<times> 'a pipe_st_scheme) outcome" where
  "pipewrite_turn 0 i pi pr addr s =
     bnd (wakeup (chan_nread pi) s) (\<lambda>s. bnd (release_pi pi s) (\<lambda>s. Ok (Done (int i), s)))"
| "pipewrite_turn (Suc n) i pi pr addr s =
     bnd (if \<not> pi_readopen (the_pipe pi s) then Ok (True, s)
          else bnd (killed pr s) (\<lambda>(k, s). Ok (k \<noteq> 0, s))) (\<lambda>(gone, s).
     if gone then bnd (release_pi pi s) (\<lambda>s. Ok (Done (-1), s))
     else if pi_nwrite (the_pipe pi s) = pi_nread (the_pipe pi s) + of_nat PIPESIZE
     then bnd (wakeup (chan_nread pi) s) (\<lambda>s.
          bnd (sleep_out (chan_nwrite pi) (\<lambda>s. pi_lock (the_pipe pi s)) (\<lambda>f. upd_pipe pi (pi_lock_update f)) s)
            (\<lambda>(_, s). Ok (Wait i, s)))
     else bnd (copyin (p_pagetable (procs s ! pr)) (addr + of_nat i) 1 s) (\<lambda>((r, ch), s).
          if r = -1
          then bnd (wakeup (chan_nread pi) s) (\<lambda>s. bnd (release_pi pi s) (\<lambda>s. Ok (Done (int i), s)))
          else let s = upd_pipe pi (\<lambda>p. p\<lparr>pi_data := (pi_data p)[unat (pi_nwrite p) mod PIPESIZE := ch ! 0],
                         pi_nwrite := pi_nwrite p + 1\<rparr>) s
               in pipewrite_turn n (Suc i) pi pr addr s))"

definition pipewrite :: "addr \<Rightarrow> u64 \<Rightarrow> int \<Rightarrow> 'a pipe_st_scheme \<Rightarrow> (int \<times> 'a pipe_st_scheme) outcome" where
  "pipewrite pi addr n s =
     bnd (curproc s) (\<lambda>(pr, s).
     bnd (acquire_pi pi s) (\<lambda>s.
     bnd (pipewrite_turn (nat n) 0 pi pr addr s) (\<lambda>(t, s).
     case t of Done r \<Rightarrow> Ok (r, s) | Wait _ \<Rightarrow> Blocked)))"

fun piperead_loop :: "nat \<Rightarrow> nat \<Rightarrow> addr \<Rightarrow> nat \<Rightarrow> u64 \<Rightarrow> 'a pipe_st_scheme \<Rightarrow> (nat \<times> 'a pipe_st_scheme) outcome" where
  "piperead_loop 0 i pi pr addr s = Ok (i, s)"
| "piperead_loop (Suc n) i pi pr addr s =
     (if pi_nread (the_pipe pi s) = pi_nwrite (the_pipe pi s) then Ok (i, s)
      else let ch = pi_data (the_pipe pi s) ! (unat (pi_nread (the_pipe pi s)) mod PIPESIZE);
               s = upd_pipe pi (\<lambda>p. p\<lparr>pi_nread := pi_nread p + 1\<rparr>) s
           in bnd (copyout (p_pagetable (procs s ! pr)) (addr + of_nat i) [ch] s) (\<lambda>(r, s).
              if r = -1 then Ok (i, s) else piperead_loop n (Suc i) pi pr addr s))"

definition piperead :: "addr \<Rightarrow> u64 \<Rightarrow> int \<Rightarrow> 'a pipe_st_scheme \<Rightarrow> (int \<times> 'a pipe_st_scheme) outcome" where
  "piperead pi addr n s =
     bnd (curproc s) (\<lambda>(pr, s).
     bnd (acquire_pi pi s) (\<lambda>s.
       if pi_nread (the_pipe pi s) = pi_nwrite (the_pipe pi s) \<and> pi_writeopen (the_pipe pi s)
       then bnd (killed pr s) (\<lambda>(k, s).
            if k \<noteq> 0 then bnd (release_pi pi s) (\<lambda>s. Ok (-1, s))
            else sleep (chan_nread pi) (\<lambda>s. pi_lock (the_pipe pi s)) (\<lambda>f. upd_pipe pi (pi_lock_update f)) s)
       else bnd (piperead_loop (nat n) 0 pi pr addr s) (\<lambda>(i, s).
            bnd (wakeup (chan_nwrite pi) s) (\<lambda>s.
            bnd (release_pi pi s) (\<lambda>s. Ok (int i, s))))))"

end
