(* ===== verification/Dir.thy ===== *)
theory Dir
  imports Fs Cstring
begin

text \<open>
  kernel/fs.c, directories and path names. A path is the list of its bytes before the terminating NUL.
\<close>

section \<open>Directories\<close>

definition namecmp :: "bytes \<Rightarrow> bytes \<Rightarrow> int" where
  "namecmp a b = strncmp (arr a) (arr b) (of_nat DIRSIZ)"

text \<open>
  The search loops read the size of the directory once: the inode is locked, and \<open>readi\<close> does not change its
  size. \<open>dirlookup\<close> returns the inode and the offset of the entry, which it stores in \<open>*poff\<close>.
\<close>

function dirlookup_loop :: "nat \<Rightarrow> nat \<Rightarrow> nat \<Rightarrow> bytes \<Rightarrow> 'a fs_st_scheme \<Rightarrow>
    ((nat \<times> nat) option \<times> 'a fs_st_scheme) outcome" where
  "dirlookup_loop off sz dp name s =
     (if \<not> off < sz then Ok (None, s)
      else bnd (readi dp (Local []) (of_nat off) 16 s) (\<lambda>((r, d), s).
           if r \<noteq> 16 then Panic ''dirlookup read''
           else let de = (case d of Local bs \<Rightarrow> dec_dirent bs | _ \<Rightarrow> \<lparr>de_inum = 0, de_name = []\<rparr>)
                in if de_inum de = 0 then dirlookup_loop (off + 16) sz dp name s
                   else if namecmp name (de_name de) = 0
                   then bnd (iget (i_dev (inodes s ! dp)) (ucast (de_inum de)) s) (\<lambda>(ip, s). Ok (Some (ip, off), s))
                   else dirlookup_loop (off + 16) sz dp name s))"
  by pat_completeness auto
termination
  by (relation "measure (\<lambda>(off, sz, _). sz - off)") auto

definition dirlookup :: "nat \<Rightarrow> bytes \<Rightarrow> 'a fs_st_scheme \<Rightarrow> ((nat \<times> nat) option \<times> 'a fs_st_scheme) outcome" where
  "dirlookup dp name s =
     (if i_type (inodes s ! dp) \<noteq> T_DIR then Panic ''dirlookup not DIR''
      else dirlookup_loop 0 (unat (i_size (inodes s ! dp))) dp name s)"

text \<open>The offset of the first unused entry, or the size of the directory.\<close>

function dirlink_scan :: "nat \<Rightarrow> nat \<Rightarrow> nat \<Rightarrow> 'a fs_st_scheme \<Rightarrow> (nat \<times> 'a fs_st_scheme) outcome" where
  "dirlink_scan off sz dp s =
     (if \<not> off < sz then Ok (off, s)
      else bnd (readi dp (Local []) (of_nat off) 16 s) (\<lambda>((r, d), s).
           if r \<noteq> 16 then Panic ''dirlink read''
           else let de = (case d of Local bs \<Rightarrow> dec_dirent bs | _ \<Rightarrow> \<lparr>de_inum = 0, de_name = []\<rparr>)
                in if de_inum de = 0 then Ok (off, s) else dirlink_scan (off + 16) sz dp s))"
  by pat_completeness auto
termination
  by (relation "measure (\<lambda>(off, sz, _). sz - off)") auto

definition dirlink :: "nat \<Rightarrow> bytes \<Rightarrow> u32 \<Rightarrow> 'a fs_st_scheme \<Rightarrow> (int \<times> 'a fs_st_scheme) outcome" where
  "dirlink dp name inum s =
     bnd (dirlookup dp name s) (\<lambda>(r, s).
     case r of
       Some (ip, _) \<Rightarrow> bnd (iput ip s) (\<lambda>s. Ok (-1, s))
     | None \<Rightarrow>
         bnd (dirlink_scan 0 (unat (i_size (inodes s ! dp))) dp s) (\<lambda>(off, s).
         let de = \<lparr>de_inum = ucast inum, de_name = strncpy_bytes (arr name) 0 DIRSIZ\<rparr>
         in bnd (writei dp (Local (enc_dirent de)) (of_nat off) 16 s) (\<lambda>(r, s).
            if r \<noteq> 16 then Ok (-1, s) else Ok (0, s))))"

declare dirlookup_loop.simps [simp del] dirlink_scan.simps [simp del]

section \<open>Paths\<close>

definition skip_slashes :: "bytes \<Rightarrow> bytes" where
  "skip_slashes path = dropWhile (\<lambda>c. c = 47) path"

definition skipelem :: "bytes \<Rightarrow> bytes \<Rightarrow> (bytes \<times> bytes) option" where
  "skipelem path name =
     (let path = skip_slashes path
      in if path = [] then None
         else let s = takeWhile (\<lambda>c. c \<noteq> 47) path;
                  rest = dropWhile (\<lambda>c. c \<noteq> 47) path;
                  name = (if DIRSIZ \<le> length s then splice name 0 (take DIRSIZ s) else splice name 0 (s @ [0]))
              in Some (skip_slashes rest, name))"

lemma length_skip_slashes: "length (skip_slashes p) \<le> length p"
  by (simp add: skip_slashes_def length_dropWhile_le)

lemma skipelem_shorter: "skipelem path name = Some (path', name') \<Longrightarrow> length path' < length path"
proof -
  assume h: "skipelem path name = Some (path', name')"
  let ?p = "skip_slashes path"
  have ne: "?p \<noteq> []" and p': "path' = skip_slashes (dropWhile (\<lambda>c. c \<noteq> 47) ?p)"
    using h by (auto simp: skipelem_def Let_def split: if_splits)
  have "hd ?p \<noteq> 47" using ne unfolding skip_slashes_def by (rule hd_dropWhile)
  with ne have "length (dropWhile (\<lambda>c. c \<noteq> 47) ?p) < length ?p"
    by (cases ?p) (auto simp: less_Suc_eq_le length_dropWhile_le)
  then show ?thesis
    using length_skip_slashes [of "dropWhile (\<lambda>c. c \<noteq> 47) ?p"] length_skip_slashes [of path] by (simp add: p')
qed

text \<open>The loop of \<open>namex\<close>; it returns the inode and, for \<open>nameiparent\<close>, the last path element in \<open>name\<close>.\<close>

function namex_loop :: "bytes \<Rightarrow> bool \<Rightarrow> bytes \<Rightarrow> nat \<Rightarrow> 'a fs_st_scheme \<Rightarrow>
    ((nat option \<times> bytes) \<times> 'a fs_st_scheme) outcome" where
  "namex_loop path parent name ip s =
     (case skipelem path name of
        None \<Rightarrow> if parent then bnd (iput ip s) (\<lambda>s. Ok ((None, name), s)) else Ok ((Some ip, name), s)
      | Some (path, name) \<Rightarrow>
          bnd (ilock (Some ip) s) (\<lambda>s.
            if i_type (inodes s ! ip) \<noteq> T_DIR then bnd (iunlockput ip s) (\<lambda>s. Ok ((None, name), s))
            else if parent \<and> path = [] then bnd (iunlock (Some ip) s) (\<lambda>s. Ok ((Some ip, name), s))
            else bnd (dirlookup ip name s) (\<lambda>(r, s).
                 case r of
                   None \<Rightarrow> bnd (iunlockput ip s) (\<lambda>s. Ok ((None, name), s))
                 | Some (nxt, _) \<Rightarrow> bnd (iunlockput ip s) (namex_loop path parent name nxt))))"
  by pat_completeness auto
termination
  by (relation "measure (\<lambda>(path, _). length path)") (auto dest: skipelem_shorter)

definition namex :: "bytes \<Rightarrow> bool \<Rightarrow> bytes \<Rightarrow> 'a fs_st_scheme \<Rightarrow> ((nat option \<times> bytes) \<times> 'a fs_st_scheme) outcome" where
  "namex path parent name s =
     bnd (if path \<noteq> [] \<and> hd path = 47 then iget ROOTDEV ROOTINO s
          else bnd (curproc s) (\<lambda>(p, s).
               case p_cwd (procs s ! p) of None \<Rightarrow> Panic ''kerneltrap'' | Some ip \<Rightarrow> idup ip s)) (\<lambda>(ip, s).
     namex_loop path parent name ip s)"

text \<open>The local array \<open>name\<close> of \<open>namei\<close> is not initialised; its bytes are written before they are read.\<close>

definition namei :: "bytes \<Rightarrow> 'a fs_st_scheme \<Rightarrow> (nat option \<times> 'a fs_st_scheme) outcome" where
  "namei path s = bnd (namex path False (replicate DIRSIZ 0) s) (\<lambda>((ip, _), s). Ok (ip, s))"

definition nameiparent :: "bytes \<Rightarrow> bytes \<Rightarrow> 'a fs_st_scheme \<Rightarrow> ((nat option \<times> bytes) \<times> 'a fs_st_scheme) outcome" where
  "nameiparent path name s = namex path True name s"

declare namex_loop.simps [simp del]

end
