(* ===== verification/File.thy ===== *)
theory File
  imports Pipe Dir
begin

text \<open>
  kernel/file.c and the creation of pipes (kernel/pipe.c): the table of open files, shared by all processes,
  with reference counts.
\<close>

section \<open>State\<close>

definition NFILE :: nat where "NFILE = 100"
definition NDEV :: nat where "NDEV = 10"

datatype fd_type = FD_NONE | FD_PIPE | FD_INODE | FD_DEVICE

record file_t =
  f_type :: fd_type
  f_ref :: int
  f_readable :: bool
  f_writable :: bool
  f_pipe :: addr
  f_ip :: "nat option"
  f_off :: u32
  f_major :: u16

record file_st = pipe_st +
  ftable_lock :: spinlock
  files :: "file_t list"

definition upd_file :: "nat \<Rightarrow> (file_t \<Rightarrow> file_t) \<Rightarrow> 'a file_st_scheme \<Rightarrow> 'a file_st_scheme" where
  "upd_file f g s = s\<lparr>files := (files s)[f := g (files s ! f)]\<rparr>"

abbreviation acquire_ftable :: "'a file_st_scheme \<Rightarrow> 'a file_st_scheme outcome" where
  "acquire_ftable s \<equiv> acquire_in ftable_lock ftable_lock_update s"

abbreviation release_ftable :: "'a file_st_scheme \<Rightarrow> 'a file_st_scheme outcome" where
  "release_ftable s \<equiv> release_in ftable_lock ftable_lock_update s"

section \<open>Reference counts\<close>

definition fileinit :: "'a file_st_scheme \<Rightarrow> 'a file_st_scheme" where
  "fileinit s = s\<lparr>ftable_lock := initlock ''ftable''\<rparr>"

fun filealloc_scan :: "nat \<Rightarrow> nat \<Rightarrow> file_t list \<Rightarrow> nat option" where
  "filealloc_scan 0 f tbl = None"
| "filealloc_scan (Suc n) f tbl = (if f_ref (tbl ! f) = 0 then Some f else filealloc_scan n (Suc f) tbl)"

definition filealloc :: "'a file_st_scheme \<Rightarrow> (nat option \<times> 'a file_st_scheme) outcome" where
  "filealloc s =
     bnd (acquire_ftable s) (\<lambda>s.
     case filealloc_scan NFILE 0 (files s) of
       Some f \<Rightarrow> bnd (release_ftable (upd_file f (\<lambda>x. x\<lparr>f_ref := 1\<rparr>) s)) (\<lambda>s. Ok (Some f, s))
     | None \<Rightarrow> bnd (release_ftable s) (\<lambda>s. Ok (None, s)))"

definition filedup :: "nat \<Rightarrow> 'a file_st_scheme \<Rightarrow> (nat \<times> 'a file_st_scheme) outcome" where
  "filedup f s =
     bnd (acquire_ftable s) (\<lambda>s.
       if f_ref (files s ! f) < 1 then Panic ''filedup''
       else bnd (release_ftable (upd_file f (\<lambda>x. x\<lparr>f_ref := f_ref x + 1\<rparr>) s)) (\<lambda>s. Ok (f, s)))"

text \<open>\<open>iput\<close> of a null pointer would fault.\<close>

definition fileclose :: "nat \<Rightarrow> 'a file_st_scheme \<Rightarrow> 'a file_st_scheme outcome" where
  "fileclose f s =
     bnd (acquire_ftable s) (\<lambda>s.
       if f_ref (files s ! f) < 1 then Panic ''fileclose''
       else let s = upd_file f (\<lambda>x. x\<lparr>f_ref := f_ref x - 1\<rparr>) s
            in if 0 < f_ref (files s ! f) then release_ftable s
               else let ff = files s ! f;
                        s = upd_file f (\<lambda>x. x\<lparr>f_ref := 0, f_type := FD_NONE\<rparr>) s
                    in bnd (release_ftable s) (\<lambda>s.
                       if f_type ff = FD_PIPE then pipeclose (f_pipe ff) (f_writable ff) s
                       else if f_type ff = FD_INODE \<or> f_type ff = FD_DEVICE
                       then bnd (begin_op s) (\<lambda>s.
                            case f_ip ff of None \<Rightarrow> Panic ''kerneltrap''
                            | Some ip \<Rightarrow> bnd (iput ip s) end_op)
                       else Ok s))"

definition count_open_files :: "'a file_st_scheme \<Rightarrow> (u64 \<times> 'a file_st_scheme) outcome" where
  "count_open_files s =
     bnd (acquire_ftable s) (\<lambda>s.
     let cnt = fold (\<lambda>i c. if 0 < f_ref (files s ! i) then c + 1 else c) [0..<NFILE] (0 :: u64)
     in bnd (release_ftable s) (\<lambda>s. Ok (cnt, s)))"

section \<open>Reading and writing\<close>

text \<open>
  \<open>struct stat\<close> as it is copied to the user: four bytes of padding lie between \<open>nlink\<close> and \<open>size\<close>. They are
  whatever was on the kernel stack, the argument \<open>pad\<close>.
\<close>

definition enc64 :: "u64 \<Rightarrow> bytes" where
  "enc64 v = map (\<lambda>i. ucast (drop_bit (8 * i) v)) [0..<8]"

definition enc_stat :: "bytes \<Rightarrow> stat_t \<Rightarrow> bytes" where
  "enc_stat pad st = enc32 (st_dev st) @ enc32 (st_ino st) @ enc16 (st_type st) @ enc16 (st_nlink st) @ pad @ enc64 (st_size st)"

definition filestat :: "bytes \<Rightarrow> nat \<Rightarrow> u64 \<Rightarrow> 'a file_st_scheme \<Rightarrow> (int \<times> 'a file_st_scheme) outcome" where
  "filestat pad f addr s =
     bnd (myproc s) (\<lambda>(pr, s).
       if f_type (files s ! f) = FD_INODE \<or> f_type (files s ! f) = FD_DEVICE
       then bnd (ilock (f_ip (files s ! f)) s) (\<lambda>s.
            case f_ip (files s ! f) of None \<Rightarrow> Panic ''kerneltrap'' | Some ip \<Rightarrow>
            let st = stati ip s
            in bnd (iunlock (Some ip) s) (\<lambda>s.
               case pr of None \<Rightarrow> Panic ''kerneltrap'' | Some p \<Rightarrow>
               bnd (copyout (p_pagetable (procs s ! p)) addr (enc_stat pad st) s) (\<lambda>(r, s).
               if r < 0 then Ok (-1, s) else Ok (0, s))))
       else Ok (-1, s))"

definition fileread :: "nat \<Rightarrow> u64 \<Rightarrow> int \<Rightarrow> 'a file_st_scheme \<Rightarrow> (int \<times> 'a file_st_scheme) outcome" where
  "fileread f addr n s =
     (if \<not> f_readable (files s ! f) then Ok (-1, s)
      else case f_type (files s ! f) of
        FD_PIPE \<Rightarrow> piperead (f_pipe (files s ! f)) addr n s
      | FD_DEVICE \<Rightarrow>
          (let m = sint (f_major (files s ! f))
           in if m < 0 \<or> int NDEV \<le> m then Ok (-1, s)
              else (case devsw_read s ! nat m of
                      None \<Rightarrow> Ok (-1, s)
                    | Some Dev_consoleread \<Rightarrow> bnd (consoleread (User addr) n s) (\<lambda>((r, _), s). Ok (r, s))))
      | FD_INODE \<Rightarrow>
          bnd (ilock (f_ip (files s ! f)) s) (\<lambda>s.
          case f_ip (files s ! f) of None \<Rightarrow> Panic ''kerneltrap'' | Some ip \<Rightarrow>
          bnd (readi ip (User addr) (f_off (files s ! f)) (of_int n) s) (\<lambda>((r, _), s).
          let s = (if 0 < r then upd_file f (\<lambda>x. x\<lparr>f_off := f_off x + of_int r\<rparr>) s else s)
          in bnd (iunlock (Some ip) s) (\<lambda>s. Ok (r, s))))
      | FD_NONE \<Rightarrow> Panic ''fileread'')"

text \<open>
  The loop of \<open>filewrite\<close>: a transaction for every \<open>max\<close> bytes. Each round writes at least one byte or ends
  the loop, so that the number of bytes left is enough fuel.
\<close>

definition filewrite_max :: int where
  "filewrite_max = ((MAXOPBLOCKS - 1 - 1 - 2) div 2) * int BSIZE"

fun filewrite_loop :: "nat \<Rightarrow> int \<Rightarrow> int \<Rightarrow> nat \<Rightarrow> u64 \<Rightarrow> 'a file_st_scheme \<Rightarrow> (int \<times> 'a file_st_scheme) outcome" where
  "filewrite_loop fuel i n f addr s =
     (if \<not> i < n then Ok (i, s)
      else case fuel of 0 \<Rightarrow> Blocked | Suc fuel \<Rightarrow>
      let n1 = (if filewrite_max < n - i then filewrite_max else n - i)
      in bnd (begin_op s) (\<lambda>s.
         bnd (ilock (f_ip (files s ! f)) s) (\<lambda>s.
         case f_ip (files s ! f) of None \<Rightarrow> Panic ''kerneltrap'' | Some ip \<Rightarrow>
         bnd (writei ip (User (addr + of_int i)) (f_off (files s ! f)) (of_int n1) s) (\<lambda>(r, s).
         let s = (if 0 < r then upd_file f (\<lambda>x. x\<lparr>f_off := f_off x + of_int r\<rparr>) s else s)
         in bnd (iunlock (Some ip) s) (\<lambda>s.
            bnd (end_op s) (\<lambda>s.
            if r \<noteq> n1 then Ok (i, s) else filewrite_loop fuel (i + r) n f addr s))))))"

definition filewrite :: "nat \<Rightarrow> u64 \<Rightarrow> int \<Rightarrow> 'a file_st_scheme \<Rightarrow> (int \<times> 'a file_st_scheme) outcome" where
  "filewrite f addr n s =
     (if \<not> f_writable (files s ! f) then Ok (-1, s)
      else case f_type (files s ! f) of
        FD_PIPE \<Rightarrow> pipewrite (f_pipe (files s ! f)) addr n s
      | FD_DEVICE \<Rightarrow>
          (let m = sint (f_major (files s ! f))
           in if m < 0 \<or> int NDEV \<le> m then Ok (-1, s)
              else (case devsw_write s ! nat m of
                      None \<Rightarrow> Ok (-1, s)
                    | Some Dev_consolewrite \<Rightarrow> consolewrite (User addr) n s))
      | FD_INODE \<Rightarrow> bnd (filewrite_loop (nat n) 0 n f addr s) (\<lambda>(i, s). Ok (if i = n then n else -1, s))
      | FD_NONE \<Rightarrow> Panic ''filewrite'')"

declare filewrite_loop.simps [simp del]

section \<open>Creating pipes\<close>

definition pipealloc_bad :: "nat option \<Rightarrow> nat option \<Rightarrow> 'a file_st_scheme \<Rightarrow>
    ((int \<times> nat option \<times> nat option) \<times> 'a file_st_scheme) outcome" where
  "pipealloc_bad f0 f1 s =
     bnd (case f0 of Some f \<Rightarrow> fileclose f s | None \<Rightarrow> Ok s) (\<lambda>s.
     bnd (case f1 of Some f \<Rightarrow> fileclose f s | None \<Rightarrow> Ok s) (\<lambda>s.
     Ok ((-1, f0, f1), s)))"

text \<open>The page's bytes after the 24 bytes of the lock become \<open>pi->data\<close>, which is not initialised.\<close>

definition pipealloc :: "'a file_st_scheme \<Rightarrow> ((int \<times> nat option \<times> nat option) \<times> 'a file_st_scheme) outcome" where
  "pipealloc s =
     bnd (filealloc s) (\<lambda>(f0, s).
     case f0 of None \<Rightarrow> pipealloc_bad None None s | Some a \<Rightarrow>
     bnd (filealloc s) (\<lambda>(f1, s).
     case f1 of None \<Rightarrow> pipealloc_bad f0 None s | Some b \<Rightarrow>
     bnd (kalloc s) (\<lambda>(pi, s).
     if pi = 0 then pipealloc_bad f0 f1 s
     else let s = s\<lparr>pipes := (pipes s)(pi := Some \<lparr>pi_lock = initlock ''pipe'',
                pi_data = rd (phys s) (pi + 24) PIPESIZE, pi_nread = 0, pi_nwrite = 0,
                pi_readopen = True, pi_writeopen = True\<rparr>)\<rparr>;
              s = upd_file a (\<lambda>x. x\<lparr>f_type := FD_PIPE, f_readable := True, f_writable := False, f_pipe := pi\<rparr>) s;
              s = upd_file b (\<lambda>x. x\<lparr>f_type := FD_PIPE, f_readable := False, f_writable := True, f_pipe := pi\<rparr>) s
          in Ok ((0, f0, f1), s))))"

end
