(* ===== verification/Printf.thy ===== *)
theory Printf
  imports File
begin

text \<open>
  kernel/printf.c: formatted output on the console. The arguments of \<open>printf\<close> are a list: a number, as the
  64-bit slot in which it is passed, or a string pointer with the bytes before the terminating NUL. To read
  an argument of the wrong kind, or more arguments than were passed, is undefined in C; the model stops.
\<close>

section \<open>State\<close>

record pr_st = file_st +
  pr_lock :: spinlock
  pr_locking :: bool

datatype fmt_arg = Num u64 | Str "bytes option"

section \<open>Numbers\<close>

definition digits :: "nat \<Rightarrow> u8" where
  "digits d = of_nat (if d < 10 then 48 + d else 97 + (d - 10))"

text \<open>The do-while loop of \<open>printint\<close>: the digits, least significant first.\<close>

function digit_loop :: "nat \<Rightarrow> nat \<Rightarrow> bytes" where
  "digit_loop base x =
     digits (x mod base) # (if x div base \<noteq> 0 \<and> 1 < base then digit_loop base (x div base) else [])"
  by pat_completeness auto
termination
  by (relation "measure snd") (auto simp: div_greater_zero_iff intro!: div_less_dividend)

declare digit_loop.simps [simp del]

definition printint_buf :: "u64 \<Rightarrow> nat \<Rightarrow> bool \<Rightarrow> bytes" where
  "printint_buf xx base sign =
     (if sign \<and> sint xx < 0 then digit_loop base (unat (- xx)) @ [45] else digit_loop base (unat xx))"

fun put_all :: "bytes \<Rightarrow> 'a cons_st_scheme \<Rightarrow> 'a cons_st_scheme outcome" where
  "put_all [] s = Ok s"
| "put_all (c # cs) s = bnd (consputc (ucast c) s) (put_all cs)"

text \<open>\<open>buf\<close> has room for 16 characters; a longer number is written past its end.\<close>

definition printint :: "u64 \<Rightarrow> nat \<Rightarrow> bool \<Rightarrow> 'a cons_st_scheme \<Rightarrow> 'a cons_st_scheme outcome" where
  "printint xx base sign s =
     (let buf = printint_buf xx base sign
      in if 16 < length buf then Panic ''undefined: printint writes past buf''
         else put_all (rev buf) s)"

definition printptr :: "u64 \<Rightarrow> 'a cons_st_scheme \<Rightarrow> 'a cons_st_scheme outcome" where
  "printptr x s =
     bnd (consputc 48 s) (\<lambda>s. bnd (consputc 120 s)
       (put_all (map (\<lambda>i. digits (unat (drop_bit 60 (push_bit (4 * i) x)))) [0..<16])))"

section \<open>printf\<close>

text \<open>\<open>va_arg\<close> as an \<open>int\<close>: the low 32 bits of the slot, sign-extended when passed as \<open>long long\<close>.\<close>

definition arg_int :: "u64 \<Rightarrow> u64" where
  "arg_int v = scast (ucast v :: u32)"

definition num_conv :: "(u64 \<Rightarrow> 'a cons_st_scheme \<Rightarrow> 'a cons_st_scheme outcome) \<Rightarrow> fmt_arg list \<Rightarrow>
    'a cons_st_scheme \<Rightarrow> (fmt_arg list \<times> 'a cons_st_scheme) outcome" where
  "num_conv f args s =
     (case args of Num v # args \<Rightarrow> bnd (f v s) (\<lambda>s. Ok (args, s)) | _ \<Rightarrow> Panic ''undefined: va_arg'')"

text \<open>
  One conversion: \<open>c0 c1 c2\<close> are the characters after the percent sign (0 beyond the end). The result tells
  how many characters of the format were used, and the arguments that are left.
\<close>

definition convert :: "u8 \<Rightarrow> u8 \<Rightarrow> u8 \<Rightarrow> fmt_arg list \<Rightarrow> 'a cons_st_scheme \<Rightarrow>
    ((nat \<times> fmt_arg list) \<times> 'a cons_st_scheme) outcome" where
  "convert c0 c1 c2 args s =
     (let used = (\<lambda>k r. bnd r (\<lambda>(args, s). Ok ((k, args), s)))
      in if c0 = 100 then used 1 (num_conv (\<lambda>v. printint (arg_int v) 10 True) args s)
         else if c0 = 108 \<and> c1 = 100 then used 2 (num_conv (\<lambda>v. printint v 10 True) args s)
         else if c0 = 108 \<and> c1 = 108 \<and> c2 = 100 then used 3 (num_conv (\<lambda>v. printint v 10 True) args s)
         else if c0 = 117 then used 1 (num_conv (\<lambda>v. printint (arg_int v) 10 False) args s)
         else if c0 = 108 \<and> c1 = 117 then used 2 (num_conv (\<lambda>v. printint v 10 False) args s)
         else if c0 = 108 \<and> c1 = 108 \<and> c2 = 117 then used 3 (num_conv (\<lambda>v. printint v 10 False) args s)
         else if c0 = 120 then used 1 (num_conv (\<lambda>v. printint (arg_int v) 16 False) args s)
         else if c0 = 108 \<and> c1 = 120 then used 2 (num_conv (\<lambda>v. printint v 16 False) args s)
         else if c0 = 108 \<and> c1 = 108 \<and> c2 = 120 then used 3 (num_conv (\<lambda>v. printint v 16 False) args s)
         else if c0 = 112 then used 1 (num_conv printptr args s)
         else if c0 = 115
         then (case args of
                 Str None # args \<Rightarrow> used 1 (bnd (put_all [40, 110, 117, 108, 108, 41] s) (\<lambda>s. Ok (args, s)))
               | Str (Some str) # args \<Rightarrow> used 1 (bnd (put_all str s) (\<lambda>s. Ok (args, s)))
               | _ \<Rightarrow> Panic ''undefined: va_arg'')
         else if c0 = 37 then used 1 (bnd (consputc 37 s) (\<lambda>s. Ok (args, s)))
         else used 1 (bnd (consputc 37 s) (\<lambda>s. bnd (consputc (ucast c0) s) (\<lambda>s. Ok (args, s)))))"

text \<open>The loop over the format; it ends at the NUL, or at a percent sign at the very end.\<close>

function printf_loop :: "bytes \<Rightarrow> fmt_arg list \<Rightarrow> 'a cons_st_scheme \<Rightarrow> 'a cons_st_scheme outcome" where
  "printf_loop fmt args s =
     (case fmt of
        [] \<Rightarrow> Ok s
      | c # fmt \<Rightarrow>
          if c \<noteq> 37 then bnd (consputc (ucast c) s) (printf_loop fmt args)
          else (case fmt of
                  [] \<Rightarrow> Ok s
                | c0 # rest \<Rightarrow>
                    let c1 = (if rest = [] then 0 else rest ! 0);
                        c2 = (if length rest < 2 then 0 else rest ! 1)
                    in bnd (convert c0 c1 c2 args s) (\<lambda>((k, args), s). printf_loop (drop k fmt) args s)))"
  by pat_completeness auto
termination
  by (relation "measure (\<lambda>(fmt, _). length fmt)") auto

declare printf_loop.simps [simp del]

definition printf :: "bytes \<Rightarrow> fmt_arg list \<Rightarrow> 'a pr_st_scheme \<Rightarrow> 'a pr_st_scheme outcome" where
  "printf fmt args s =
     (let locking = pr_locking s
      in bnd (if locking then acquire_in pr_lock pr_lock_update s else Ok s) (\<lambda>s.
         bnd (printf_loop fmt args s) (\<lambda>s.
         if locking then release_in pr_lock pr_lock_update s else Ok s)))"

definition printfinit :: "'a pr_st_scheme \<Rightarrow> 'a pr_st_scheme" where
  "printfinit s = s\<lparr>pr_lock := initlock ''pr'', pr_locking := True\<rparr>"

text \<open>A string literal as bytes.\<close>

definition cstr :: "string \<Rightarrow> bytes" where
  "cstr = map (\<lambda>c. of_nat (of_char c))"

text \<open>What \<open>panic\<close> does before it spins: the message is printed without the lock, and output is frozen.\<close>

definition panic_out :: "bytes \<Rightarrow> 'a pr_st_scheme \<Rightarrow> 'a pr_st_scheme outcome" where
  "panic_out msg s =
     bnd (printf (cstr ''panic: '') [] (s\<lparr>pr_locking := False\<rparr>)) (\<lambda>s.
     bnd (printf [37, 115, 10] [Str (Some msg)] s) (\<lambda>s.
     Ok (s\<lparr>panicked := True\<rparr>)))"

end
