(* ===== verification/Virtio.thy ===== *)
theory Virtio
  imports Printf
begin

text \<open>
  kernel/virtio_disk.c: the driver of the virtio disk. The descriptor table and the two rings are memory
  that driver and device share; an address in a descriptor is the object it points to. The device itself is
  hardware: its registers are the argument \<open>mmio\<close> of \<open>virtio_disk_init\<close>, and what it does with a request is
  a hypothesis of the theorems.
\<close>

section \<open>State\<close>

definition NUM :: nat where "NUM = 8"
definition VRING_DESC_F_NEXT :: u16 where "VRING_DESC_F_NEXT = 1"
definition VRING_DESC_F_WRITE :: u16 where "VRING_DESC_F_WRITE = 2"
definition VIRTIO_BLK_T_IN :: u32 where "VIRTIO_BLK_T_IN = 0"
definition VIRTIO_BLK_T_OUT :: u32 where "VIRTIO_BLK_T_OUT = 1"

text \<open>What the address field of a descriptor points to: a request header, a buffer's data, a status byte.\<close>

datatype dma = DmaNull | DmaOp nat | DmaData nat | DmaStatus nat

record virtq_desc =
  dsc_addr :: dma
  dsc_len :: u32
  dsc_flags :: u16
  dsc_next :: u16

record virtio_blk_req =
  req_type :: u32
  req_reserved :: u32
  req_sector :: u64

record vdisk =
  vd_desc :: "virtq_desc list"
  vd_avail_idx :: u16
  vd_avail_ring :: "u16 list"
  vd_used_didx :: u16
  vd_used_ring :: "u32 list"
  vd_free :: "bool list"
  vd_used_idx :: u16
  vd_info_b :: "nat option list"
  vd_info_status :: "u8 list"
  vd_ops :: "virtio_blk_req list"
  vd_lock :: spinlock
  vd_pages :: "addr \<times> addr \<times> addr"
  vd_mmio :: "(u32 \<times> u32) list"

record virtio_st = pr_st +
  vd :: vdisk

definition upd_vd :: "(vdisk \<Rightarrow> vdisk) \<Rightarrow> 'a virtio_st_scheme \<Rightarrow> 'a virtio_st_scheme" where
  "upd_vd f s = s\<lparr>vd := f (vd s)\<rparr>"

abbreviation acquire_vd :: "'a virtio_st_scheme \<Rightarrow> 'a virtio_st_scheme outcome" where
  "acquire_vd s \<equiv> acquire_in (\<lambda>s. vd_lock (vd s)) (\<lambda>f. upd_vd (vd_lock_update f)) s"

abbreviation release_vd :: "'a virtio_st_scheme \<Rightarrow> 'a virtio_st_scheme outcome" where
  "release_vd s \<equiv> release_in (\<lambda>s. vd_lock (vd s)) (\<lambda>f. upd_vd (vd_lock_update f)) s"

section \<open>Initialisation\<close>

text \<open>
  \<open>mmio h r\<close> is what the device answers when register \<open>r\<close> is read after the register writes \<open>h\<close>; the driver
  records its writes in \<open>vd_mmio\<close>.
\<close>

type_synonym mmio = "(u32 \<times> u32) list \<Rightarrow> u32 \<Rightarrow> u32"

definition set_reg :: "u32 \<Rightarrow> u32 \<Rightarrow> 'a virtio_st_scheme \<Rightarrow> 'a virtio_st_scheme" where
  "set_reg r v s = upd_vd (\<lambda>d. d\<lparr>vd_mmio := vd_mmio d @ [(r, v)]\<rparr>) s"

definition get_reg :: "mmio \<Rightarrow> u32 \<Rightarrow> 'a virtio_st_scheme \<Rightarrow> u32" where
  "get_reg mmio r s = mmio (vd_mmio (vd s)) r"

definition negotiate :: "u32 \<Rightarrow> u32" where
  "negotiate features =
     features AND NOT (push_bit 5 1) AND NOT (push_bit 7 1) AND NOT (push_bit 11 1) AND NOT (push_bit 12 1) AND
     NOT (push_bit 27 1) AND NOT (push_bit 29 1) AND NOT (push_bit 28 1)"

definition no_desc :: virtq_desc where
  "no_desc = \<lparr>dsc_addr = DmaNull, dsc_len = 0, dsc_flags = 0, dsc_next = 0\<rparr>"

definition virtio_queue_init :: "mmio \<Rightarrow> u32 \<Rightarrow> 'a virtio_st_scheme \<Rightarrow> 'a virtio_st_scheme outcome" where
  "virtio_queue_init mmio status s =
     (let s = set_reg 0x030 0 s
      in if get_reg mmio 0x044 s \<noteq> 0 then Panic ''virtio disk should not be ready''
         else let mx = get_reg mmio 0x034 s
         in if mx = 0 then Panic ''virtio disk has no queue 0''
            else if mx < of_nat NUM then Panic ''virtio disk max queue too short''
            else bnd (kalloc s) (\<lambda>(dsc, s).
                 bnd (kalloc s) (\<lambda>(avail, s).
                 bnd (kalloc s) (\<lambda>(used, s).
                 if dsc = 0 \<or> avail = 0 \<or> used = 0 then Panic ''virtio disk kalloc''
                 else let s = s\<lparr>phys := memset (phys s) dsc 0 PGSIZE\<rparr>;
                          s = s\<lparr>phys := memset (phys s) avail 0 PGSIZE\<rparr>;
                          s = s\<lparr>phys := memset (phys s) used 0 PGSIZE\<rparr>;
                          s = upd_vd (\<lambda>d. d\<lparr>vd_pages := (dsc, avail, used),
                                vd_desc := replicate NUM no_desc, vd_avail_idx := 0,
                                vd_avail_ring := replicate NUM 0, vd_used_didx := 0,
                                vd_used_ring := replicate NUM 0\<rparr>) s;
                          s = set_reg 0x038 (of_nat NUM) s;
                          s = set_reg 0x080 (ucast dsc) s;
                          s = set_reg 0x084 (ucast (drop_bit 32 dsc)) s;
                          s = set_reg 0x090 (ucast avail) s;
                          s = set_reg 0x094 (ucast (drop_bit 32 avail)) s;
                          s = set_reg 0x0a0 (ucast used) s;
                          s = set_reg 0x0a4 (ucast (drop_bit 32 used)) s;
                          s = set_reg 0x044 1 s;
                          s = upd_vd (\<lambda>d. d\<lparr>vd_free := replicate NUM True\<rparr>) s
                      in Ok (set_reg 0x070 (status OR 4) s)))))"

definition virtio_disk_init :: "mmio \<Rightarrow> 'a virtio_st_scheme \<Rightarrow> 'a virtio_st_scheme outcome" where
  "virtio_disk_init mmio s =
     (let s = upd_vd (\<lambda>d. d\<lparr>vd_lock := initlock ''virtio_disk''\<rparr>) s
      in if get_reg mmio 0 s \<noteq> 0x74726976 \<or> get_reg mmio 4 s \<noteq> 2 \<or> get_reg mmio 8 s \<noteq> 2 \<or>
            get_reg mmio 0xc s \<noteq> 0x554d4551
         then Panic ''could not find virtio disk''
         else let s = set_reg 0x070 0 s;
                  s = set_reg 0x070 1 s;
                  s = set_reg 0x070 (1 OR 2) s;
                  s = set_reg 0x020 (negotiate (get_reg mmio 0x010 s)) s;
                  s = set_reg 0x070 (1 OR 2 OR 8) s;
                  status = get_reg mmio 0x070 s
              in if status AND 8 = 0 then Panic ''virtio disk FEATURES_OK unset''
                 else virtio_queue_init mmio status s)"

section \<open>Descriptors\<close>

fun first_free :: "nat \<Rightarrow> nat \<Rightarrow> bool list \<Rightarrow> nat option" where
  "first_free 0 i fr = None"
| "first_free (Suc n) i fr = (if fr ! i then Some i else first_free n (Suc i) fr)"

definition alloc_desc :: "'a virtio_st_scheme \<Rightarrow> nat option \<times> 'a virtio_st_scheme" where
  "alloc_desc s =
     (case first_free NUM 0 (vd_free (vd s)) of
        None \<Rightarrow> (None, s)
      | Some i \<Rightarrow> (Some i, upd_vd (\<lambda>d. d\<lparr>vd_free := (vd_free d)[i := False]\<rparr>) s))"

definition free_desc :: "nat \<Rightarrow> 'a virtio_st_scheme \<Rightarrow> 'a virtio_st_scheme outcome" where
  "free_desc i s =
     (if NUM \<le> i then Panic ''free_desc 1''
      else if vd_free (vd s) ! i then Panic ''free_desc 2''
      else wakeup ChanDiskFree (upd_vd (\<lambda>d. d\<lparr>vd_desc := (vd_desc d)[i := no_desc],
             vd_free := (vd_free d)[i := True]\<rparr>) s))"

text \<open>\<open>free_desc\<close> refuses a descriptor that is free already, so that a chain has at most \<open>NUM\<close> of them.\<close>

fun free_chain :: "nat \<Rightarrow> nat \<Rightarrow> 'a virtio_st_scheme \<Rightarrow> 'a virtio_st_scheme outcome" where
  "free_chain 0 i s = Blocked"
| "free_chain (Suc n) i s =
     (let flag = dsc_flags (vd_desc (vd s) ! i);
          nxt = unat (dsc_next (vd_desc (vd s) ! i))
      in bnd (free_desc i s) (\<lambda>s.
         if flag AND VRING_DESC_F_NEXT \<noteq> 0 then free_chain n nxt s else Ok s))"

fun free_descs :: "nat list \<Rightarrow> 'a virtio_st_scheme \<Rightarrow> 'a virtio_st_scheme outcome" where
  "free_descs [] s = Ok s"
| "free_descs (i # is) s = bnd (free_desc i s) (free_descs is)"

text \<open>The loop of \<open>alloc3_desc\<close>: \<open>got\<close> are the descriptors \<open>idx[0]\<close> to \<open>idx[i-1]\<close>.\<close>

fun alloc3_loop :: "nat \<Rightarrow> nat list \<Rightarrow> 'a virtio_st_scheme \<Rightarrow> (nat list option \<times> 'a virtio_st_scheme) outcome" where
  "alloc3_loop 0 got s = Ok (Some got, s)"
| "alloc3_loop (Suc n) got s =
     (case alloc_desc s of
        (None, s) \<Rightarrow> bnd (free_descs got s) (\<lambda>s. Ok (None, s))
      | (Some i, s) \<Rightarrow> alloc3_loop n (got @ [i]) s)"

definition alloc3_desc :: "'a virtio_st_scheme \<Rightarrow> (nat list option \<times> 'a virtio_st_scheme) outcome" where
  "alloc3_desc s = alloc3_loop 3 [] s"

section \<open>Requests\<close>

text \<open>The descriptors and the header of a request, and its entry in the available ring.\<close>

definition format_request :: "nat \<Rightarrow> bool \<Rightarrow> u64 \<Rightarrow> nat \<Rightarrow> nat \<Rightarrow> nat \<Rightarrow> vdisk \<Rightarrow> vdisk" where
  "format_request b wr_req sector i0 i1 i2 d =
     (let d = d\<lparr>vd_ops := (vd_ops d)[i0 := \<lparr>req_type = (if wr_req then VIRTIO_BLK_T_OUT else VIRTIO_BLK_T_IN),
                req_reserved = 0, req_sector = sector\<rparr>]\<rparr>;
          d = d\<lparr>vd_desc := (vd_desc d)[i0 := \<lparr>dsc_addr = DmaOp i0, dsc_len = 16, dsc_flags = VRING_DESC_F_NEXT,
                dsc_next = of_nat i1\<rparr>]\<rparr>;
          d = d\<lparr>vd_desc := (vd_desc d)[i1 := \<lparr>dsc_addr = DmaData b, dsc_len = of_nat BSIZE,
                dsc_flags = (if wr_req then 0 else VRING_DESC_F_WRITE) OR VRING_DESC_F_NEXT, dsc_next = of_nat i2\<rparr>]\<rparr>;
          d = d\<lparr>vd_info_status := (vd_info_status d)[i0 := 0xff]\<rparr>;
          d = d\<lparr>vd_desc := (vd_desc d)[i2 := \<lparr>dsc_addr = DmaStatus i0, dsc_len = 1, dsc_flags = VRING_DESC_F_WRITE,
                dsc_next = 0\<rparr>]\<rparr>;
          d = d\<lparr>vd_info_b := (vd_info_b d)[i0 := Some b]\<rparr>;
          d = d\<lparr>vd_avail_ring := (vd_avail_ring d)[unat (vd_avail_idx d) mod NUM := of_nat i0]\<rparr>
      in d\<lparr>vd_avail_idx := vd_avail_idx d + 1\<rparr>)"

text \<open>\<open>virtio_disk_rw\<close> up to the wait for the interrupt: it returns the head of the chain, with the lock held.\<close>

definition virtio_disk_rw_start :: "nat \<Rightarrow> bool \<Rightarrow> 'a virtio_st_scheme \<Rightarrow> (nat \<times> 'a virtio_st_scheme) outcome" where
  "virtio_disk_rw_start b wr_req s =
     (let sector = ucast (b_blockno (bufs s ! b) * 2)
      in bnd (acquire_vd s) (\<lambda>s.
         bnd (alloc3_desc s) (\<lambda>(r, s).
         case r of
           Some [i0, i1, i2] \<Rightarrow>
             (let s = upd_buf b (\<lambda>x. x\<lparr>b_disk := True\<rparr>) s;
                  s = upd_vd (format_request b wr_req sector i0 i1 i2) s
              in Ok (i0, set_reg 0x050 0 s))
         | _ \<Rightarrow> sleep ChanDiskFree (\<lambda>s. vd_lock (vd s)) (\<lambda>f. upd_vd (vd_lock_update f)) s)))"

text \<open>The rest of \<open>virtio_disk_rw\<close>, from holding the lock on.\<close>

definition virtio_disk_rw_finish :: "nat \<Rightarrow> nat \<Rightarrow> 'a virtio_st_scheme \<Rightarrow> 'a virtio_st_scheme outcome" where
  "virtio_disk_rw_finish b i0 s =
     (if b_disk (bufs s ! b) then sleep (ChanDisk b) (\<lambda>s. vd_lock (vd s)) (\<lambda>f. upd_vd (vd_lock_update f)) s
      else bnd (free_chain (Suc NUM) i0 (upd_vd (\<lambda>d. d\<lparr>vd_info_b := (vd_info_b d)[i0 := None]\<rparr>) s)) (\<lambda>s.
           release_vd s))"

section \<open>Interrupts\<close>

text \<open>
  The loop of \<open>virtio_disk_intr\<close> ends after as many rounds as the used ring has new entries. An entry that
  names no request in flight would make the driver write through a null pointer.
\<close>

fun virtio_intr_loop :: "nat \<Rightarrow> 'a virtio_st_scheme \<Rightarrow> 'a virtio_st_scheme outcome" where
  "virtio_intr_loop 0 s = Ok s"
| "virtio_intr_loop (Suc n) s =
     (if vd_used_idx (vd s) = vd_used_didx (vd s) then Ok s
      else let id = unat (vd_used_ring (vd s) ! (unat (vd_used_idx (vd s)) mod NUM))
           in if vd_info_status (vd s) ! id \<noteq> 0 then Panic ''virtio_disk_intr status''
              else case vd_info_b (vd s) ! id of
                     None \<Rightarrow> Panic ''kerneltrap''
                   | Some b \<Rightarrow>
                       bnd (wakeup (ChanDisk b) (upd_buf b (\<lambda>x. x\<lparr>b_disk := False\<rparr>) s)) (\<lambda>s.
                       virtio_intr_loop n (upd_vd (\<lambda>d. d\<lparr>vd_used_idx := vd_used_idx d + 1\<rparr>) s)))"

definition virtio_disk_intr :: "mmio \<Rightarrow> 'a virtio_st_scheme \<Rightarrow> 'a virtio_st_scheme outcome" where
  "virtio_disk_intr mmio s =
     bnd (acquire_vd s) (\<lambda>s.
     let s = set_reg 0x064 (get_reg mmio 0x060 s AND 3) s
     in bnd (virtio_intr_loop (unat (vd_used_didx (vd s) - vd_used_idx (vd s))) s) (\<lambda>s. release_vd s))"

end
