(* ===== verification/Process.thy ===== *)
theory Process
  imports Virtio
begin

text \<open>
  kernel/proc.c, the operations on processes that use the file system: the first process, fork, exit and
  wait.
\<close>

definition NOFILE :: nat where "NOFILE = 16"

text \<open>What \<open>safestrcpy\<close> leaves in an array: at most all but one byte of the string, and a NUL.\<close>

definition safestrcpy_bytes :: "bytes \<Rightarrow> bytes \<Rightarrow> bytes" where
  "safestrcpy_bytes dst src = splice dst 0 (take (length dst - 1) src @ [0])"

text \<open>The string in an array: the bytes before the first NUL.\<close>

definition cstring :: "bytes \<Rightarrow> bytes" where
  "cstring bs = takeWhile (\<lambda>c. c \<noteq> 0) bs"

section \<open>The first process\<close>

definition initcode :: bytes where
  "initcode = [
     0x17, 0x05, 0x00, 0x00, 0x13, 0x05, 0x45, 0x02,
     0x97, 0x05, 0x00, 0x00, 0x93, 0x85, 0x35, 0x02,
     0x93, 0x08, 0x70, 0x00, 0x73, 0x00, 0x00, 0x00,
     0x93, 0x08, 0x20, 0x00, 0x73, 0x00, 0x00, 0x00,
     0xef, 0xf0, 0x9f, 0xff, 0x2f, 0x69, 0x6e, 0x69,
     0x74, 0x00, 0x00, 0x24, 0x00, 0x00, 0x00, 0x00,
     0x00, 0x00, 0x00, 0x00]"

definition userinit :: "'a fs_st_scheme \<Rightarrow> 'a fs_st_scheme outcome" where
  "userinit s =
     bnd (allocproc s) (\<lambda>(r, s).
     let s = s\<lparr>initproc := r\<rparr>
     in case r of None \<Rightarrow> Panic ''kerneltrap'' | Some p \<Rightarrow>
        bnd (uvmfirst (p_pagetable (procs s ! p)) initcode s) (\<lambda>s.
        let s = upd_proc p (\<lambda>q. q\<lparr>p_sz := PGSIZE\<rparr>) s;
            s = tf_store p tf_epc 0 s;
            s = tf_store p tf_sp PGSIZE s;
            s = upd_proc p (\<lambda>q. q\<lparr>p_name := safestrcpy_bytes (p_name q) (cstr ''initcode'')\<rparr>) s
        in bnd (namei (cstr ''/'') s) (\<lambda>(ip, s).
           release_p p (upd_proc p (\<lambda>q. q\<lparr>p_cwd := ip, p_state := RUNNABLE\<rparr>) s))))"

section \<open>fork\<close>

fun fork_files :: "nat \<Rightarrow> nat \<Rightarrow> nat \<Rightarrow> nat \<Rightarrow> 'a file_st_scheme \<Rightarrow> 'a file_st_scheme outcome" where
  "fork_files 0 i p np s = Ok s"
| "fork_files (Suc n) i p np s =
     (case p_ofile (procs s ! p) ! i of
        None \<Rightarrow> fork_files n (Suc i) p np s
      | Some f \<Rightarrow> bnd (filedup f s) (\<lambda>(f, s).
          fork_files n (Suc i) p np (upd_proc np (\<lambda>q. q\<lparr>p_ofile := (p_ofile q)[i := Some f]\<rparr>) s)))"

definition fork :: "'a file_st_scheme \<Rightarrow> (int \<times> 'a file_st_scheme) outcome" where
  "fork s =
     bnd (curproc s) (\<lambda>(p, s).
     bnd (allocproc s) (\<lambda>(r, s).
     case r of None \<Rightarrow> Ok (-1, s) | Some np \<Rightarrow>
     bnd (uvmcopy (p_pagetable (procs s ! p)) (p_pagetable (procs s ! np)) (p_sz (procs s ! p)) s) (\<lambda>(r, s).
     if r < 0 then bnd (freeproc np s) (\<lambda>s. bnd (release_p np s) (\<lambda>s. Ok (-1, s)))
     else let s = upd_proc np (\<lambda>q. q\<lparr>p_sz := p_sz (procs s ! p)\<rparr>) s;
              s = s\<lparr>phys := wr (phys s) (p_trapframe (procs s ! np)) (rd (phys s) (p_trapframe (procs s ! p)) tf_size)\<rparr>;
              s = upd_proc np (\<lambda>q. q\<lparr>p_trace_mask := p_trace_mask (procs s ! p)\<rparr>) s;
              s = tf_store np (tf_a 0) 0 s
          in bnd (fork_files NOFILE 0 p np s) (\<lambda>s.
             case p_cwd (procs s ! p) of None \<Rightarrow> Panic ''kerneltrap'' | Some cwd \<Rightarrow>
             bnd (idup cwd s) (\<lambda>(cwd, s).
             let s = upd_proc np (\<lambda>q. q\<lparr>p_cwd := Some cwd\<rparr>) s;
                 s = upd_proc np (\<lambda>q. q\<lparr>p_name := safestrcpy_bytes (p_name q) (cstring (p_name (procs s ! p)))\<rparr>) s;
                 pid = p_pid (procs s ! np)
             in bnd (release_p np s) (\<lambda>s.
                bnd (acquire_in wait_lock wait_lock_update s) (\<lambda>s.
                bnd (release_in wait_lock wait_lock_update (upd_proc np (\<lambda>q. q\<lparr>p_parent := Some p\<rparr>) s)) (\<lambda>s.
                bnd (acquire_p np s) (\<lambda>s.
                bnd (release_p np (upd_proc np (\<lambda>q. q\<lparr>p_state := RUNNABLE\<rparr>) s)) (\<lambda>s.
                Ok (sint pid, s)))))))))))"

section \<open>exit\<close>

text \<open>\<open>wakeup(initproc)\<close>: the channel is the address of the process.\<close>

definition wakeup_proc :: "nat option \<Rightarrow> 'a proc_st_scheme \<Rightarrow> 'a proc_st_scheme outcome" where
  "wakeup_proc p s = (case p of None \<Rightarrow> Ok s | Some i \<Rightarrow> wakeup (ChanProc i) s)"

fun reparent_loop :: "nat \<Rightarrow> nat \<Rightarrow> nat \<Rightarrow> 'a proc_st_scheme \<Rightarrow> 'a proc_st_scheme outcome" where
  "reparent_loop 0 pp p s = Ok s"
| "reparent_loop (Suc n) pp p s =
     (if p_parent (procs s ! pp) = Some p
      then bnd (wakeup_proc (initproc s) (upd_proc pp (\<lambda>q. q\<lparr>p_parent := initproc s\<rparr>) s))
             (reparent_loop n (Suc pp) p)
      else reparent_loop n (Suc pp) p s)"

definition reparent :: "nat \<Rightarrow> 'a proc_st_scheme \<Rightarrow> 'a proc_st_scheme outcome" where
  "reparent p s = reparent_loop NPROC 0 p s"

fun exit_files :: "nat \<Rightarrow> nat \<Rightarrow> nat \<Rightarrow> 'a file_st_scheme \<Rightarrow> 'a file_st_scheme outcome" where
  "exit_files 0 fd p s = Ok s"
| "exit_files (Suc n) fd p s =
     (case p_ofile (procs s ! p) ! fd of
        None \<Rightarrow> exit_files n (Suc fd) p s
      | Some f \<Rightarrow> bnd (fileclose f s) (\<lambda>s.
          exit_files n (Suc fd) p (upd_proc p (\<lambda>q. q\<lparr>p_ofile := (p_ofile q)[fd := None]\<rparr>) s)))"

text \<open>\<open>exit\<close> up to the context switch, from which it never comes back.\<close>

definition exit_out :: "u32 \<Rightarrow> 'a file_st_scheme \<Rightarrow> (bool \<times> 'a file_st_scheme) outcome" where
  "exit_out status s =
     bnd (curproc s) (\<lambda>(p, s).
       if initproc s = Some p then Panic ''init exiting''
       else bnd (exit_files NOFILE 0 p s) (\<lambda>s.
            bnd (begin_op s) (\<lambda>s.
            bnd (case p_cwd (procs s ! p) of None \<Rightarrow> Panic ''kerneltrap'' | Some ip \<Rightarrow> iput ip s) (\<lambda>s.
            bnd (end_op s) (\<lambda>s.
            let s = upd_proc p (\<lambda>q. q\<lparr>p_cwd := None\<rparr>) s
            in bnd (acquire_in wait_lock wait_lock_update s) (\<lambda>s.
               bnd (reparent p s) (\<lambda>s.
               bnd (wakeup_proc (p_parent (procs s ! p)) s) (exit_end status p))))))))"

definition exit :: "u32 \<Rightarrow> 'a file_st_scheme \<Rightarrow> 'b outcome" where
  "exit status s = bnd (exit_out status s) (\<lambda>_. Blocked)"

section \<open>wait\<close>

text \<open>
  One scan of the process table: the result of \<open>wait\<close> if a zombie child was found (all locks are released
  then), and whether there are children at all.
\<close>

fun wait_scan :: "nat \<Rightarrow> nat \<Rightarrow> nat \<Rightarrow> u64 \<Rightarrow> bool \<Rightarrow> 'a proc_st_scheme \<Rightarrow>
    ((int option \<times> bool) \<times> 'a proc_st_scheme) outcome" where
  "wait_scan 0 pp p addr havekids s = Ok ((None, havekids), s)"
| "wait_scan (Suc n) pp p addr havekids s =
     (if p_parent (procs s ! pp) = Some p
      then bnd (acquire_p pp s) (\<lambda>s.
           if p_state (procs s ! pp) = ZOMBIE
           then let pid = p_pid (procs s ! pp)
                in bnd (if addr \<noteq> 0
                        then copyout (p_pagetable (procs s ! p)) addr (enc32 (p_xstate (procs s ! pp))) s
                        else Ok (0, s)) (\<lambda>(r, s).
                   if r < 0
                   then bnd (release_p pp s) (\<lambda>s.
                        bnd (release_in wait_lock wait_lock_update s) (\<lambda>s. Ok ((Some (-1), True), s)))
                   else bnd (freeproc pp s) (\<lambda>s.
                        bnd (release_p pp s) (\<lambda>s.
                        bnd (release_in wait_lock wait_lock_update s) (\<lambda>s. Ok ((Some (sint pid), True), s)))))
           else bnd (release_p pp s) (wait_scan n (Suc pp) p addr True))
      else wait_scan n (Suc pp) p addr havekids s)"

definition wait :: "u64 \<Rightarrow> 'a proc_st_scheme \<Rightarrow> (int \<times> 'a proc_st_scheme) outcome" where
  "wait addr s =
     bnd (curproc s) (\<lambda>(p, s).
     bnd (acquire_in wait_lock wait_lock_update s) (\<lambda>s.
     bnd (wait_scan NPROC 0 p addr False s) (\<lambda>((r, havekids), s).
     case r of
       Some pid \<Rightarrow> Ok (pid, s)
     | None \<Rightarrow>
         bnd (if \<not> havekids then Ok (True, s) else bnd (killed p s) (\<lambda>(k, s). Ok (k \<noteq> 0, s))) (\<lambda>(stop, s).
         if stop then bnd (release_in wait_lock wait_lock_update s) (\<lambda>s. Ok (-1, s))
         else sleep (ChanProc p) wait_lock wait_lock_update s))))"

end
