(* ===== verification/Exec.thy ===== *)
theory Exec
  imports Process
begin

text \<open>
  kernel/exec.c and kernel/elf.h. The arguments of the new program are C strings in kernel memory, given by
  their addresses.
\<close>

section \<open>ELF headers\<close>

definition get64 :: "bytes \<Rightarrow> nat \<Rightarrow> u64" where
  "get64 bs off = ucast (get32 bs off) OR push_bit 32 (ucast (get32 bs (off + 4)))"

definition ELF_MAGIC :: u32 where "ELF_MAGIC = 0x464C457F"
definition ELF_PROG_LOAD :: u32 where "ELF_PROG_LOAD = 1"
definition MAXARG :: nat where "MAXARG = 32"
definition USERSTACK :: u64 where "USERSTACK = 1"

text \<open>The fields of \<open>struct elfhdr\<close> (64 bytes) and \<open>struct proghdr\<close> (56 bytes) that the kernel uses.\<close>

record elfhdr =
  elf_magic :: u32
  elf_entry :: u64
  elf_phoff :: u64
  elf_phnum :: u16

record proghdr =
  ph_type :: u32
  ph_flags :: u32
  ph_off :: u64
  ph_vaddr :: u64
  ph_filesz :: u64
  ph_memsz :: u64

definition dec_elfhdr :: "bytes \<Rightarrow> elfhdr" where
  "dec_elfhdr bs = \<lparr>elf_magic = get32 bs 0, elf_entry = get64 bs 24, elf_phoff = get64 bs 32, elf_phnum = get16 bs 56\<rparr>"

definition dec_proghdr :: "bytes \<Rightarrow> proghdr" where
  "dec_proghdr bs = \<lparr>ph_type = get32 bs 0, ph_flags = get32 bs 4, ph_off = get64 bs 8, ph_vaddr = get64 bs 16,
     ph_filesz = get64 bs 32, ph_memsz = get64 bs 40\<rparr>"

definition flags2perm :: "u32 \<Rightarrow> u64" where
  "flags2perm flags =
     (let perm = (if flags AND 1 \<noteq> 0 then PTE_X else 0)
      in if flags AND 2 \<noteq> 0 then perm OR PTE_W else perm)"

section \<open>Loading\<close>

text \<open>\<open>readi\<close> into a variable of the caller: the result and the bytes.\<close>

definition readi_local :: "nat \<Rightarrow> u32 \<Rightarrow> u32 \<Rightarrow> 'a fs_st_scheme \<Rightarrow> ((int \<times> bytes) \<times> 'a fs_st_scheme) outcome" where
  "readi_local ip off n s =
     bnd (readi ip (Local []) off n s) (\<lambda>((r, d), s).
     Ok ((r, case d of Local bs \<Rightarrow> bs | _ \<Rightarrow> []), s))"

text \<open>The first argument counts the pages of the segment; \<open>i\<close> is the offset of the page in it.\<close>

fun loadseg_loop :: "nat \<Rightarrow> nat \<Rightarrow> addr \<Rightarrow> u64 \<Rightarrow> nat \<Rightarrow> u32 \<Rightarrow> nat \<Rightarrow> 'a fs_st_scheme \<Rightarrow> (int \<times> 'a fs_st_scheme) outcome" where
  "loadseg_loop 0 i pagetable va ip offset sz s = Ok (0, s)"
| "loadseg_loop (Suc k) i pagetable va ip offset sz s =
     bnd (walkaddr pagetable (va + of_nat i) s) (\<lambda>(pa, s).
       if pa = 0 then Panic ''loadseg: address should exist''
       else let n = (if sz - i < 4096 then sz - i else 4096)
            in bnd (readi ip (Phys pa) (offset + of_nat i) (of_nat n) s) (\<lambda>((r, _), s).
               if r \<noteq> int n then Ok (-1, s)
               else loadseg_loop k (i + 4096) pagetable va ip offset sz s))"

definition loadseg :: "addr \<Rightarrow> u64 \<Rightarrow> nat \<Rightarrow> u32 \<Rightarrow> u32 \<Rightarrow> 'a fs_st_scheme \<Rightarrow> (int \<times> 'a fs_st_scheme) outcome" where
  "loadseg pagetable va ip offset sz s = loadseg_loop ((unat sz + 4095) div 4096) 0 pagetable va ip offset (unat sz) s"

text \<open>The loop over the program headers: success or failure, and \<open>sz\<close> as the loop leaves it.\<close>

fun exec_load :: "nat \<Rightarrow> u32 \<Rightarrow> addr \<Rightarrow> u64 \<Rightarrow> nat \<Rightarrow> 'a fs_st_scheme \<Rightarrow> ((bool \<times> u64) \<times> 'a fs_st_scheme) outcome" where
  "exec_load 0 off pagetable sz ip s = Ok ((True, sz), s)"
| "exec_load (Suc n) off pagetable sz ip s =
     bnd (readi_local ip off 56 s) (\<lambda>((r, bs), s).
       if r \<noteq> 56 then Ok ((False, sz), s)
       else let ph = dec_proghdr bs
            in if ph_type ph \<noteq> ELF_PROG_LOAD then exec_load n (off + 56) pagetable sz ip s
               else if ph_memsz ph < ph_filesz ph then Ok ((False, sz), s)
               else if ph_vaddr ph + ph_memsz ph < ph_vaddr ph then Ok ((False, sz), s)
               else if ph_vaddr ph mod PGSIZE \<noteq> 0 then Ok ((False, sz), s)
               else bnd (uvmalloc pagetable sz (ph_vaddr ph + ph_memsz ph) (flags2perm (ph_flags ph)) s) (\<lambda>(sz1, s).
                    if sz1 = 0 then Ok ((False, sz), s)
                    else bnd (loadseg pagetable (ph_vaddr ph) ip (ucast (ph_off ph)) (ucast (ph_filesz ph)) s) (\<lambda>(r, s).
                         if r < 0 then Ok ((False, sz1), s)
                         else exec_load n (off + 56) pagetable sz1 ip s)))"

section \<open>The stack of the new program\<close>

text \<open>
  The loop that pushes the argument strings; \<open>ustack\<close> are their addresses, in order. The array \<open>argv\<close> ends
  with a null pointer within its \<open>MAXARG\<close> entries, as \<open>sys_exec\<close> sees to.
\<close>

fun push_args :: "addr list \<Rightarrow> nat \<Rightarrow> addr \<Rightarrow> u64 \<Rightarrow> u64 \<Rightarrow> u64 list \<Rightarrow> 'a fs_st_scheme \<Rightarrow>
    ((bool \<times> u64 \<times> u64 list) \<times> 'a fs_st_scheme) outcome" where
  "push_args [] argc pagetable sp stackbase ustack s = Ok ((True, sp, ustack), s)"
| "push_args (a # argv) argc pagetable sp stackbase ustack s =
     (if MAXARG \<le> argc then Ok ((False, sp, ustack), s)
      else case strlen (ptr (phys s) a) of None \<Rightarrow> Blocked | Some len \<Rightarrow>
      let sp = sp - (of_nat len + 1);
          sp = sp - sp mod 16
      in if sp < stackbase then Ok ((False, sp, ustack), s)
         else bnd (copyout pagetable sp (rd (phys s) a (len + 1)) s) (\<lambda>(r, s).
              if r < 0 then Ok ((False, sp, ustack), s)
              else push_args argv (Suc argc) pagetable sp stackbase (ustack @ [sp]) s))"

text \<open>The last path element: what follows the last slash.\<close>

definition basename :: "bytes \<Rightarrow> bytes" where
  "basename path = rev (takeWhile (\<lambda>c. c \<noteq> 47) (rev path))"

definition exec_bad :: "addr \<Rightarrow> u64 \<Rightarrow> nat option \<Rightarrow> 'a fs_st_scheme \<Rightarrow> (int \<times> 'a fs_st_scheme) outcome" where
  "exec_bad pagetable sz ip s =
     bnd (if pagetable \<noteq> 0 then proc_freepagetable pagetable sz s else Ok s) (\<lambda>s.
     bnd (case ip of None \<Rightarrow> Ok s | Some i \<Rightarrow> bnd (iunlockput i s) end_op) (\<lambda>s.
     Ok (-1, s)))"

text \<open>
  \<open>exec\<close> from the allocation of the stack on: the arguments are pushed, and only then does the process
  switch to the new image.
\<close>

definition exec_commit :: "nat \<Rightarrow> bytes \<Rightarrow> elfhdr \<Rightarrow> addr \<Rightarrow> u64 \<Rightarrow> u64 \<Rightarrow> nat \<Rightarrow> u64 \<Rightarrow> 'a fs_st_scheme \<Rightarrow>
    (int \<times> 'a fs_st_scheme) outcome" where
  "exec_commit p path elf pagetable sz sp argc oldsz s =
     (let s = tf_store p (tf_a 1) sp s;
          s = upd_proc p (\<lambda>q. q\<lparr>p_name := safestrcpy_bytes (p_name q) (basename path)\<rparr>) s;
          oldpagetable = p_pagetable (procs s ! p);
          s = upd_proc p (\<lambda>q. q\<lparr>p_pagetable := pagetable, p_sz := sz\<rparr>) s;
          s = tf_store p tf_epc (elf_entry elf) s;
          s = tf_store p tf_sp sp s
      in bnd (proc_freepagetable oldpagetable oldsz s) (\<lambda>s. Ok (int argc, s)))"

definition exec_stack :: "bytes \<Rightarrow> addr list \<Rightarrow> elfhdr \<Rightarrow> addr \<Rightarrow> u64 \<Rightarrow> 'a fs_st_scheme \<Rightarrow> (int \<times> 'a fs_st_scheme) outcome" where
  "exec_stack path argv elf pagetable sz s =
     bnd (curproc s) (\<lambda>(p, s).
      let oldsz = p_sz (procs s ! p);
          sz = PGROUNDUP sz
      in bnd (uvmalloc pagetable sz (sz + (USERSTACK + 1) * PGSIZE) PTE_W s) (\<lambda>(sz1, s).
         if sz1 = 0 then exec_bad pagetable sz None s
         else let sz = sz1
         in bnd (uvmclear pagetable (sz - (USERSTACK + 1) * PGSIZE) s) (\<lambda>s.
            let stackbase = sz - USERSTACK * PGSIZE
            in bnd (push_args argv 0 pagetable sz stackbase [] s) (\<lambda>((ok, sp, ustack), s).
               if \<not> ok then exec_bad pagetable sz None s
               else let argc = length ustack;
                        sp = sp - (of_nat argc + 1) * 8;
                        sp = sp - sp mod 16
                    in if sp < stackbase then exec_bad pagetable sz None s
                       else bnd (copyout pagetable sp (concat (map enc64 (ustack @ [0]))) s) (\<lambda>(r, s).
                            if r < 0 then exec_bad pagetable sz None s
                            else exec_commit p path elf pagetable sz sp argc oldsz s)))))"

definition exec :: "bytes \<Rightarrow> addr list \<Rightarrow> 'a fs_st_scheme \<Rightarrow> (int \<times> 'a fs_st_scheme) outcome" where
  "exec path argv s =
     bnd (curproc s) (\<lambda>(p, s).
     bnd (begin_op s) (\<lambda>s.
     bnd (namei path s) (\<lambda>(r, s).
     case r of None \<Rightarrow> bnd (end_op s) (\<lambda>s. Ok (-1, s)) | Some ip \<Rightarrow>
     bnd (ilock (Some ip) s) (\<lambda>s.
     bnd (readi_local ip 0 64 s) (\<lambda>((r, bs), s).
     if r \<noteq> 64 then exec_bad 0 0 (Some ip) s
     else let elf = dec_elfhdr bs
     in if elf_magic elf \<noteq> ELF_MAGIC then exec_bad 0 0 (Some ip) s
        else bnd (proc_pagetable p s) (\<lambda>(pagetable, s).
        if pagetable = 0 then exec_bad 0 0 (Some ip) s
        else bnd (exec_load (unat (elf_phnum elf)) (ucast (elf_phoff elf)) pagetable 0 ip s) (\<lambda>((ok, sz), s).
             if \<not> ok then exec_bad pagetable sz (Some ip) s
             else bnd (iunlockput ip s) (\<lambda>s.
                  bnd (end_op s) (\<lambda>s.
                  exec_stack path argv elf pagetable sz s)))))))))"

end
