(* ===== verification/Sysfile.thy ===== *)
theory Sysfile
  imports Exec
begin

text \<open>
  kernel/syscall.c, the access to system call arguments, and kernel/sysfile.c, the system calls on files.
  Results of system calls are 64-bit words; -1 is the error.
\<close>

section \<open>Arguments\<close>

definition MAXPATH :: nat where "MAXPATH = 128"

definition fetchaddr :: "u64 \<Rightarrow> 'a proc_st_scheme \<Rightarrow> ((int \<times> u64) \<times> 'a proc_st_scheme) outcome" where
  "fetchaddr addr s =
     bnd (curproc s) (\<lambda>(p, s).
       if p_sz (procs s ! p) \<le> addr \<or> p_sz (procs s ! p) < addr + 8 then Ok ((-1, 0), s)
       else bnd (copyin (p_pagetable (procs s ! p)) addr 8 s) (\<lambda>((r, bs), s).
            if r \<noteq> 0 then Ok ((-1, 0), s) else Ok ((0, get64 bs 0), s)))"

text \<open>\<open>fetchstr\<close> returns, with the code's result, the bytes stored in \<open>buf\<close>.\<close>

definition fetchstr :: "u64 \<Rightarrow> nat \<Rightarrow> 'a proc_st_scheme \<Rightarrow> ((int \<times> bytes) \<times> 'a proc_st_scheme) outcome" where
  "fetchstr addr mx s =
     bnd (curproc s) (\<lambda>(p, s).
     bnd (copyinstr (p_pagetable (procs s ! p)) addr mx s) (\<lambda>((r, buf), s).
     if r < 0 then Ok ((-1, buf), s)
     else case strlen (arr buf) of None \<Rightarrow> Blocked | Some n \<Rightarrow> Ok ((int n, buf), s)))"

definition argraw :: "nat \<Rightarrow> 'a proc_st_scheme \<Rightarrow> (u64 \<times> 'a proc_st_scheme) outcome" where
  "argraw n s =
     bnd (curproc s) (\<lambda>(p, s).
       if n \<le> 5 then Ok (tf_load p (tf_a n) s, s) else Panic ''argraw'')"

definition argint :: "nat \<Rightarrow> 'a proc_st_scheme \<Rightarrow> (u32 \<times> 'a proc_st_scheme) outcome" where
  "argint n s = bnd (argraw n s) (\<lambda>(v, s). Ok (ucast v, s))"

definition argaddr :: "nat \<Rightarrow> 'a proc_st_scheme \<Rightarrow> (u64 \<times> 'a proc_st_scheme) outcome" where
  "argaddr n s = argraw n s"

definition argstr :: "nat \<Rightarrow> nat \<Rightarrow> 'a proc_st_scheme \<Rightarrow> ((int \<times> bytes) \<times> 'a proc_st_scheme) outcome" where
  "argstr n mx s = bnd (argaddr n s) (\<lambda>(addr, s). fetchstr addr mx s)"

text \<open>\<open>argstr\<close> where the caller only wants the string: \<open>None\<close> if it fails.\<close>

definition argpath :: "nat \<Rightarrow> 'a proc_st_scheme \<Rightarrow> (bytes option \<times> 'a proc_st_scheme) outcome" where
  "argpath n s = bnd (argstr n MAXPATH s) (\<lambda>((r, buf), s). Ok (if r < 0 then None else Some (cstring buf), s))"

definition argfd :: "nat \<Rightarrow> 'a proc_st_scheme \<Rightarrow> ((nat \<times> nat) option \<times> 'a proc_st_scheme) outcome" where
  "argfd n s =
     bnd (argint n s) (\<lambda>(fd, s).
       if sint fd < 0 \<or> int NOFILE \<le> sint fd then Ok (None, s)
       else bnd (curproc s) (\<lambda>(p, s).
            case p_ofile (procs s ! p) ! unat fd of
              None \<Rightarrow> Ok (None, s) | Some f \<Rightarrow> Ok (Some (unat fd, f), s)))"

fun fdalloc_scan :: "nat \<Rightarrow> nat \<Rightarrow> nat option list \<Rightarrow> nat option" where
  "fdalloc_scan 0 fd ofile = None"
| "fdalloc_scan (Suc n) fd ofile = (if ofile ! fd = None then Some fd else fdalloc_scan n (Suc fd) ofile)"

definition fdalloc :: "nat \<Rightarrow> 'a proc_st_scheme \<Rightarrow> (nat option \<times> 'a proc_st_scheme) outcome" where
  "fdalloc f s =
     bnd (curproc s) (\<lambda>(p, s).
     case fdalloc_scan NOFILE 0 (p_ofile (procs s ! p)) of
       None \<Rightarrow> Ok (None, s)
     | Some fd \<Rightarrow> Ok (Some fd, upd_proc p (\<lambda>q. q\<lparr>p_ofile := (p_ofile q)[fd := Some f]\<rparr>) s))"

section \<open>Open files\<close>

definition sys_dup :: "'a file_st_scheme \<Rightarrow> (u64 \<times> 'a file_st_scheme) outcome" where
  "sys_dup s =
     bnd (argfd 0 s) (\<lambda>(r, s).
     case r of None \<Rightarrow> Ok (-1, s) | Some (_, f) \<Rightarrow>
     bnd (fdalloc f s) (\<lambda>(fd, s).
     case fd of None \<Rightarrow> Ok (-1, s) | Some fd \<Rightarrow>
     bnd (filedup f s) (\<lambda>(_, s). Ok (of_nat fd, s))))"

definition sys_read :: "'a file_st_scheme \<Rightarrow> (u64 \<times> 'a file_st_scheme) outcome" where
  "sys_read s =
     bnd (argaddr 1 s) (\<lambda>(p, s).
     bnd (argint 2 s) (\<lambda>(n, s).
     bnd (argfd 0 s) (\<lambda>(r, s).
     case r of None \<Rightarrow> Ok (-1, s) | Some (_, f) \<Rightarrow>
     bnd (fileread f p (sint n) s) (\<lambda>(r, s). Ok (of_int r, s)))))"

definition sys_write :: "'a file_st_scheme \<Rightarrow> (u64 \<times> 'a file_st_scheme) outcome" where
  "sys_write s =
     bnd (argaddr 1 s) (\<lambda>(p, s).
     bnd (argint 2 s) (\<lambda>(n, s).
     bnd (argfd 0 s) (\<lambda>(r, s).
     case r of None \<Rightarrow> Ok (-1, s) | Some (_, f) \<Rightarrow>
     bnd (filewrite f p (sint n) s) (\<lambda>(r, s). Ok (of_int r, s)))))"

definition sys_close :: "'a file_st_scheme \<Rightarrow> (u64 \<times> 'a file_st_scheme) outcome" where
  "sys_close s =
     bnd (argfd 0 s) (\<lambda>(r, s).
     case r of None \<Rightarrow> Ok (-1, s) | Some (fd, f) \<Rightarrow>
     bnd (curproc s) (\<lambda>(p, s).
     bnd (fileclose f (upd_proc p (\<lambda>q. q\<lparr>p_ofile := (p_ofile q)[fd := None]\<rparr>) s)) (\<lambda>s. Ok (0, s))))"

definition sys_fstat :: "bytes \<Rightarrow> 'a file_st_scheme \<Rightarrow> (u64 \<times> 'a file_st_scheme) outcome" where
  "sys_fstat pad s =
     bnd (argaddr 1 s) (\<lambda>(st, s).
     bnd (argfd 0 s) (\<lambda>(r, s).
     case r of None \<Rightarrow> Ok (-1, s) | Some (_, f) \<Rightarrow>
     bnd (filestat pad f st s) (\<lambda>(r, s). Ok (of_int r, s))))"

section \<open>Names\<close>

text \<open>The failure exit of most calls: end the transaction and return -1.\<close>

definition end_fail :: "'a log_st_scheme \<Rightarrow> (u64 \<times> 'a log_st_scheme) outcome" where
  "end_fail s = bnd (end_op s) (\<lambda>s. Ok (-1, s))"

definition no_name :: bytes where
  "no_name = replicate DIRSIZ 0"

definition add_nlink :: "u16 \<Rightarrow> nat \<Rightarrow> 'a fs_st_scheme \<Rightarrow> 'a fs_st_scheme" where
  "add_nlink d ip s = upd_inode ip (\<lambda>x. x\<lparr>i_nlink := i_nlink x + d\<rparr>) s"

definition sys_link_bad :: "nat \<Rightarrow> 'a fs_st_scheme \<Rightarrow> (u64 \<times> 'a fs_st_scheme) outcome" where
  "sys_link_bad ip s =
     bnd (ilock (Some ip) s) (\<lambda>s.
     bnd (iupdate ip (add_nlink (-1) ip s)) (\<lambda>s.
     bnd (iunlockput ip s) end_fail))"

definition sys_link :: "'a fs_st_scheme \<Rightarrow> (u64 \<times> 'a fs_st_scheme) outcome" where
  "sys_link s =
     bnd (argpath 0 s) (\<lambda>(old, s).
     case old of None \<Rightarrow> Ok (-1, s) | Some old \<Rightarrow>
     bnd (argpath 1 s) (\<lambda>(new, s).
     case new of None \<Rightarrow> Ok (-1, s) | Some new \<Rightarrow>
     bnd (begin_op s) (\<lambda>s.
     bnd (namei old s) (\<lambda>(r, s).
     case r of None \<Rightarrow> end_fail s | Some ip \<Rightarrow>
     bnd (ilock (Some ip) s) (\<lambda>s.
     if i_type (inodes s ! ip) = T_DIR then bnd (iunlockput ip s) end_fail
     else bnd (iupdate ip (add_nlink 1 ip s)) (\<lambda>s.
     bnd (iunlock (Some ip) s) (\<lambda>s.
     bnd (nameiparent new no_name s) (\<lambda>((r, name), s).
     case r of None \<Rightarrow> sys_link_bad ip s | Some dp \<Rightarrow>
     bnd (ilock (Some dp) s) (\<lambda>s.
     bnd (if i_dev (inodes s ! dp) \<noteq> i_dev (inodes s ! ip) then Ok (-1, s)
          else dirlink dp name (i_inum (inodes s ! ip)) s) (\<lambda>(r, s).
     if r < 0 then bnd (iunlockput dp s) (sys_link_bad ip)
     else bnd (iunlockput dp s) (\<lambda>s.
          bnd (iput ip s) (\<lambda>s.
          bnd (end_op s) (\<lambda>s. Ok (0, s))))))))))))))"

function isdirempty_loop :: "nat \<Rightarrow> nat \<Rightarrow> nat \<Rightarrow> 'a fs_st_scheme \<Rightarrow> (bool \<times> 'a fs_st_scheme) outcome" where
  "isdirempty_loop off sz dp s =
     (if \<not> off < sz then Ok (True, s)
      else bnd (readi_local dp (of_nat off) 16 s) (\<lambda>((r, bs), s).
           if r \<noteq> 16 then Panic ''isdirempty: readi''
           else if de_inum (dec_dirent bs) \<noteq> 0 then Ok (False, s)
           else isdirempty_loop (off + 16) sz dp s))"
  by pat_completeness auto
termination
  by (relation "measure (\<lambda>(off, sz, _). sz - off)") auto

declare isdirempty_loop.simps [simp del]

definition isdirempty :: "nat \<Rightarrow> 'a fs_st_scheme \<Rightarrow> (bool \<times> 'a fs_st_scheme) outcome" where
  "isdirempty dp s = isdirempty_loop (2 * 16) (unat (i_size (inodes s ! dp))) dp s"

definition sys_unlink_bad :: "nat \<Rightarrow> 'a fs_st_scheme \<Rightarrow> (u64 \<times> 'a fs_st_scheme) outcome" where
  "sys_unlink_bad dp s = bnd (iunlockput dp s) end_fail"

definition sys_unlink :: "'a fs_st_scheme \<Rightarrow> (u64 \<times> 'a fs_st_scheme) outcome" where
  "sys_unlink s =
     bnd (argpath 0 s) (\<lambda>(path, s).
     case path of None \<Rightarrow> Ok (-1, s) | Some path \<Rightarrow>
     bnd (begin_op s) (\<lambda>s.
     bnd (nameiparent path no_name s) (\<lambda>((r, name), s).
     case r of None \<Rightarrow> end_fail s | Some dp \<Rightarrow>
     bnd (ilock (Some dp) s) (\<lambda>s.
     if namecmp name (cstr ''.'') = 0 \<or> namecmp name (cstr ''..'') = 0 then sys_unlink_bad dp s
     else bnd (dirlookup dp name s) (\<lambda>(r, s).
     case r of None \<Rightarrow> sys_unlink_bad dp s | Some (ip, off) \<Rightarrow>
     bnd (ilock (Some ip) s) (\<lambda>s.
     if sint (i_nlink (inodes s ! ip)) < 1 then Panic ''unlink: nlink < 1''
     else bnd (if i_type (inodes s ! ip) = T_DIR then isdirempty ip s else Ok (True, s)) (\<lambda>(gone, s).
     if \<not> gone then bnd (iunlockput ip s) (sys_unlink_bad dp)
     else bnd (writei dp (Local (replicate 16 0)) (of_nat off) 16 s) (\<lambda>(r, s).
     if r \<noteq> 16 then Panic ''unlink: writei''
     else bnd (if i_type (inodes s ! ip) = T_DIR then iupdate dp (add_nlink (-1) dp s) else Ok s) (\<lambda>s.
     bnd (iunlockput dp s) (\<lambda>s.
     bnd (iupdate ip (add_nlink (-1) ip s)) (\<lambda>s.
     bnd (iunlockput ip s) (\<lambda>s.
     bnd (end_op s) (\<lambda>s. Ok (0, s))))))))))))))"

definition create_fail :: "nat \<Rightarrow> nat \<Rightarrow> 'a fs_st_scheme \<Rightarrow> (nat option \<times> 'a fs_st_scheme) outcome" where
  "create_fail ip dp s =
     bnd (iupdate ip (upd_inode ip (\<lambda>x. x\<lparr>i_nlink := 0\<rparr>) s)) (\<lambda>s.
     bnd (iunlockput ip s) (\<lambda>s.
     bnd (iunlockput dp s) (\<lambda>s. Ok (None, s))))"

definition create :: "bytes \<Rightarrow> u16 \<Rightarrow> u16 \<Rightarrow> u16 \<Rightarrow> 'a fs_st_scheme \<Rightarrow> (nat option \<times> 'a fs_st_scheme) outcome" where
  "create path ty major minor s =
     bnd (nameiparent path no_name s) (\<lambda>((r, name), s).
     case r of None \<Rightarrow> Ok (None, s) | Some dp \<Rightarrow>
     bnd (ilock (Some dp) s) (\<lambda>s.
     bnd (dirlookup dp name s) (\<lambda>(r, s).
     case r of
       Some (ip, _) \<Rightarrow>
         bnd (iunlockput dp s) (\<lambda>s.
         bnd (ilock (Some ip) s) (\<lambda>s.
         if ty = T_FILE \<and> (i_type (inodes s ! ip) = T_FILE \<or> i_type (inodes s ! ip) = T_DEVICE)
         then Ok (Some ip, s)
         else bnd (iunlockput ip s) (\<lambda>s. Ok (None, s))))
     | None \<Rightarrow>
         bnd (ialloc (i_dev (inodes s ! dp)) ty s) (\<lambda>(r, s).
         case r of None \<Rightarrow> bnd (iunlockput dp s) (\<lambda>s. Ok (None, s)) | Some ip \<Rightarrow>
         bnd (ilock (Some ip) s) (\<lambda>s.
         bnd (iupdate ip (upd_inode ip (\<lambda>x. x\<lparr>i_major := major, i_minor := minor, i_nlink := 1\<rparr>) s)) (\<lambda>s.
         bnd (if ty = T_DIR
              then bnd (dirlink ip (cstr ''.'') (i_inum (inodes s ! ip)) s) (\<lambda>(r, s).
                   if r < 0 then Ok (-1, s) else dirlink ip (cstr ''..'') (i_inum (inodes s ! dp)) s)
              else Ok (0, s)) (\<lambda>(r, s).
         if r < 0 then create_fail ip dp s
         else bnd (dirlink dp name (i_inum (inodes s ! ip)) s) (\<lambda>(r, s).
              if r < 0 then create_fail ip dp s
              else bnd (if ty = T_DIR then iupdate dp (add_nlink 1 dp s) else Ok s) (\<lambda>s.
                   bnd (iunlockput dp s) (\<lambda>s. Ok (Some ip, s)))))))))))"

definition O_WRONLY :: u32 where "O_WRONLY = 1"
definition O_RDWR :: u32 where "O_RDWR = 2"
definition O_CREATE :: u32 where "O_CREATE = 0x200"
definition O_TRUNC :: u32 where "O_TRUNC = 0x400"

text \<open>\<open>sys_open\<close> once the inode is found and locked.\<close>

definition open_inode :: "nat \<Rightarrow> u32 \<Rightarrow> 'a file_st_scheme \<Rightarrow> (u64 \<times> 'a file_st_scheme) outcome" where
  "open_inode ip omode s =
     (if i_type (inodes s ! ip) = T_DEVICE \<and>
         (sint (i_major (inodes s ! ip)) < 0 \<or> int NDEV \<le> sint (i_major (inodes s ! ip)))
      then bnd (iunlockput ip s) end_fail
      else bnd (filealloc s) (\<lambda>(r, s).
           case r of None \<Rightarrow> bnd (iunlockput ip s) end_fail | Some f \<Rightarrow>
           bnd (fdalloc f s) (\<lambda>(r, s).
           case r of None \<Rightarrow> bnd (fileclose f s) (\<lambda>s. bnd (iunlockput ip s) end_fail) | Some fd \<Rightarrow>
           let s = (if i_type (inodes s ! ip) = T_DEVICE
                    then upd_file f (\<lambda>x. x\<lparr>f_type := FD_DEVICE, f_major := i_major (inodes s ! ip)\<rparr>) s
                    else upd_file f (\<lambda>x. x\<lparr>f_type := FD_INODE, f_off := 0\<rparr>) s);
               s = upd_file f (\<lambda>x. x\<lparr>f_ip := Some ip, f_readable := (omode AND O_WRONLY = 0),
                     f_writable := (omode AND O_WRONLY \<noteq> 0 \<or> omode AND O_RDWR \<noteq> 0)\<rparr>) s
           in bnd (if omode AND O_TRUNC \<noteq> 0 \<and> i_type (inodes s ! ip) = T_FILE then itrunc ip s else Ok s) (\<lambda>s.
              bnd (iunlock (Some ip) s) (\<lambda>s.
              bnd (end_op s) (\<lambda>s. Ok (of_nat fd, s)))))))"

definition sys_open :: "'a file_st_scheme \<Rightarrow> (u64 \<times> 'a file_st_scheme) outcome" where
  "sys_open s =
     bnd (argint 1 s) (\<lambda>(omode, s).
     bnd (argpath 0 s) (\<lambda>(path, s).
     case path of None \<Rightarrow> Ok (-1, s) | Some path \<Rightarrow>
     bnd (begin_op s) (\<lambda>s.
     if omode AND O_CREATE \<noteq> 0
     then bnd (create path T_FILE 0 0 s) (\<lambda>(r, s).
          case r of None \<Rightarrow> end_fail s | Some ip \<Rightarrow> open_inode ip omode s)
     else bnd (namei path s) (\<lambda>(r, s).
          case r of None \<Rightarrow> end_fail s | Some ip \<Rightarrow>
          bnd (ilock (Some ip) s) (\<lambda>s.
          if i_type (inodes s ! ip) = T_DIR \<and> omode \<noteq> 0 then bnd (iunlockput ip s) end_fail
          else open_inode ip omode s)))))"

definition create_only :: "bytes option \<Rightarrow> u16 \<Rightarrow> u16 \<Rightarrow> u16 \<Rightarrow> 'a fs_st_scheme \<Rightarrow> (u64 \<times> 'a fs_st_scheme) outcome" where
  "create_only path ty major minor s =
     (case path of None \<Rightarrow> end_fail s | Some path \<Rightarrow>
      bnd (create path ty major minor s) (\<lambda>(r, s).
      case r of None \<Rightarrow> end_fail s | Some ip \<Rightarrow>
      bnd (iunlockput ip s) (\<lambda>s. bnd (end_op s) (\<lambda>s. Ok (0, s)))))"

definition sys_mkdir :: "'a fs_st_scheme \<Rightarrow> (u64 \<times> 'a fs_st_scheme) outcome" where
  "sys_mkdir s =
     bnd (begin_op s) (\<lambda>s.
     bnd (argpath 0 s) (\<lambda>(path, s). create_only path T_DIR 0 0 s))"

definition sys_mknod :: "'a fs_st_scheme \<Rightarrow> (u64 \<times> 'a fs_st_scheme) outcome" where
  "sys_mknod s =
     bnd (begin_op s) (\<lambda>s.
     bnd (argint 1 s) (\<lambda>(major, s).
     bnd (argint 2 s) (\<lambda>(minor, s).
     bnd (argpath 0 s) (\<lambda>(path, s). create_only path T_DEVICE (ucast major) (ucast minor) s))))"

definition sys_chdir :: "'a fs_st_scheme \<Rightarrow> (u64 \<times> 'a fs_st_scheme) outcome" where
  "sys_chdir s =
     bnd (curproc s) (\<lambda>(p, s).
     bnd (begin_op s) (\<lambda>s.
     bnd (argpath 0 s) (\<lambda>(path, s).
     case path of None \<Rightarrow> end_fail s | Some path \<Rightarrow>
     bnd (namei path s) (\<lambda>(r, s).
     case r of None \<Rightarrow> end_fail s | Some ip \<Rightarrow>
     bnd (ilock (Some ip) s) (\<lambda>s.
     if i_type (inodes s ! ip) \<noteq> T_DIR then bnd (iunlockput ip s) end_fail
     else bnd (iunlock (Some ip) s) (\<lambda>s.
          bnd (case p_cwd (procs s ! p) of None \<Rightarrow> Panic ''kerneltrap'' | Some cwd \<Rightarrow> iput cwd s) (\<lambda>s.
          bnd (end_op s) (\<lambda>s.
          Ok (0, upd_proc p (\<lambda>q. q\<lparr>p_cwd := Some ip\<rparr>) s)))))))))"

section \<open>exec and pipe\<close>

fun kfree_all :: "addr list \<Rightarrow> 'a kmem_st_scheme \<Rightarrow> 'a kmem_st_scheme outcome" where
  "kfree_all [] s = Ok s"
| "kfree_all (a # as) s = bnd (kfree a s) (kfree_all as)"

text \<open>
  The loop that fetches the argument strings, one page each: success or failure, and the pages it holds,
  which are the entries of \<open>argv\<close> before the null pointer.
\<close>

fun fetch_args :: "nat \<Rightarrow> u64 \<Rightarrow> addr list \<Rightarrow> 'a proc_st_scheme \<Rightarrow> ((bool \<times> addr list) \<times> 'a proc_st_scheme) outcome" where
  "fetch_args 0 ua argv s = Ok ((False, argv), s)"
| "fetch_args (Suc n) ua argv s =
     bnd (fetchaddr ua s) (\<lambda>((r, uarg), s).
       if r < 0 then Ok ((False, argv), s)
       else if uarg = 0 then Ok ((True, argv), s)
       else bnd (kalloc s) (\<lambda>(a, s).
            if a = 0 then Ok ((False, argv), s)
            else bnd (fetchstr uarg 4096 s) (\<lambda>((r, buf), s).
                 let s = s\<lparr>phys := wr (phys s) a buf\<rparr>
                 in if r < 0 then Ok ((False, argv @ [a]), s)
                    else fetch_args n (ua + 8) (argv @ [a]) s)))"

definition sys_exec :: "'a fs_st_scheme \<Rightarrow> (u64 \<times> 'a fs_st_scheme) outcome" where
  "sys_exec s =
     bnd (argaddr 1 s) (\<lambda>(uargv, s).
     bnd (argpath 0 s) (\<lambda>(path, s).
     case path of None \<Rightarrow> Ok (-1, s) | Some path \<Rightarrow>
     bnd (fetch_args MAXARG uargv [] s) (\<lambda>((ok, argv), s).
     if ok then bnd (exec path argv s) (\<lambda>(ret, s). bnd (kfree_all argv s) (\<lambda>s. Ok (of_int ret, s)))
     else bnd (kfree_all argv s) (\<lambda>s. Ok (-1, s)))))"

definition sys_pipe :: "'a file_st_scheme \<Rightarrow> (u64 \<times> 'a file_st_scheme) outcome" where
  "sys_pipe s =
     bnd (curproc s) (\<lambda>(p, s).
     bnd (argaddr 0 s) (\<lambda>(fdarray, s).
     bnd (pipealloc s) (\<lambda>((r, rf0, wf0), s).
     case (rf0, wf0) of
       (Some rf0, Some wf0) \<Rightarrow>
         if r < 0 then Ok (-1, s)
         else let set_fd = (\<lambda>fd v. upd_proc p (\<lambda>q. q\<lparr>p_ofile := (p_ofile q)[fd := v]\<rparr>));
                  close2 = (\<lambda>s. bnd (fileclose rf0 s) (\<lambda>s. bnd (fileclose wf0 s) (\<lambda>s. Ok (-1, s))))
         in bnd (fdalloc rf0 s) (\<lambda>(r0, s).
            case r0 of None \<Rightarrow> close2 s | Some fd0 \<Rightarrow>
            bnd (fdalloc wf0 s) (\<lambda>(r1, s).
            case r1 of None \<Rightarrow> close2 (set_fd fd0 None s) | Some fd1 \<Rightarrow>
            bnd (copyout (p_pagetable (procs s ! p)) fdarray (enc32 (of_nat fd0)) s) (\<lambda>(r, s).
            bnd (if r < 0 then Ok (r, s)
                 else copyout (p_pagetable (procs s ! p)) (fdarray + 4) (enc32 (of_nat fd1)) s) (\<lambda>(r, s).
            if r < 0 then close2 (set_fd fd1 None (set_fd fd0 None s))
            else Ok (0, s)))))
     | _ \<Rightarrow> Ok (-1, s))))"

end
