(* ===== verification/Syscall.thy ===== *)
theory Syscall
  imports Sysfile
begin

text \<open>
  kernel/sysproc.c and the dispatcher of kernel/syscall.c. The state adds the clock and the trap registers of
  kernel/trap.c, which \<open>Trap\<close> uses.
\<close>

section \<open>State\<close>

text \<open>
  Per hart: the trap registers, the timer compare register, and the interrupts that the PLIC has pending
  for it. \<open>uservec\<close>, \<open>userret\<close>, \<open>kernelvec\<close> and \<open>usertrap_pc\<close> are the addresses of those routines.
\<close>

record trap_st = virtio_st +
  tickslock :: spinlock
  ticks :: u32
  stvec :: "nat \<Rightarrow> u64"
  sepc :: "nat \<Rightarrow> u64"
  scause :: "nat \<Rightarrow> u64"
  stval :: "nat \<Rightarrow> u64"
  spp :: "nat \<Rightarrow> bool"
  spie :: "nat \<Rightarrow> bool"
  stimecmp :: "nat \<Rightarrow> u64"
  mtime :: u64
  uservec :: addr
  userret :: addr
  kernelvec :: addr
  usertrap_pc :: addr
  plic_regs :: "u64 \<Rightarrow> u32"
  plic_pending :: "nat \<Rightarrow> u32 list"
  forkret_first :: bool
  started :: bool

abbreviation acquire_ticks :: "'a trap_st_scheme \<Rightarrow> 'a trap_st_scheme outcome" where
  "acquire_ticks s \<equiv> acquire_in tickslock tickslock_update s"

abbreviation release_ticks :: "'a trap_st_scheme \<Rightarrow> 'a trap_st_scheme outcome" where
  "release_ticks s \<equiv> release_in tickslock tickslock_update s"

section \<open>Processes and time\<close>

definition sys_exit :: "'a file_st_scheme \<Rightarrow> (u64 \<times> 'a file_st_scheme) outcome" where
  "sys_exit s = bnd (argint 0 s) (\<lambda>(n, s). exit n s)"

definition sys_getpid :: "'a proc_st_scheme \<Rightarrow> (u64 \<times> 'a proc_st_scheme) outcome" where
  "sys_getpid s = bnd (curproc s) (\<lambda>(p, s). Ok (scast (p_pid (procs s ! p)), s))"

definition sys_fork :: "'a file_st_scheme \<Rightarrow> (u64 \<times> 'a file_st_scheme) outcome" where
  "sys_fork s = bnd (fork s) (\<lambda>(r, s). Ok (of_int r, s))"

definition sys_wait :: "'a proc_st_scheme \<Rightarrow> (u64 \<times> 'a proc_st_scheme) outcome" where
  "sys_wait s = bnd (argaddr 0 s) (\<lambda>(p, s). bnd (wait p s) (\<lambda>(r, s). Ok (of_int r, s)))"

definition sys_sbrk :: "'a proc_st_scheme \<Rightarrow> (u64 \<times> 'a proc_st_scheme) outcome" where
  "sys_sbrk s =
     bnd (argint 0 s) (\<lambda>(n, s).
     bnd (curproc s) (\<lambda>(p, s).
     let addr = p_sz (procs s ! p)
     in bnd (growproc n s) (\<lambda>(r, s). if r < 0 then Ok (-1, s) else Ok (addr, s))))"

text \<open>The loop of \<open>sys_sleep\<close> from holding the lock on; \<open>Wait\<close> carries \<open>n\<close> and \<open>ticks0\<close>.\<close>

definition sys_sleep_turn :: "u32 \<Rightarrow> u32 \<Rightarrow> 'a trap_st_scheme \<Rightarrow> ((u64, u32 \<times> u32) turn \<times> 'a trap_st_scheme) outcome" where
  "sys_sleep_turn n ticks0 s =
     (if ticks s - ticks0 < n
      then bnd (curproc s) (\<lambda>(p, s).
           bnd (killed p s) (\<lambda>(k, s).
           if k \<noteq> 0 then bnd (release_ticks s) (\<lambda>s. Ok (Done (-1), s))
           else bnd (sleep_out ChanTicks tickslock tickslock_update s) (\<lambda>(_, s). Ok (Wait (n, ticks0), s))))
      else bnd (release_ticks s) (\<lambda>s. Ok (Done 0, s)))"

definition sys_sleep :: "'a trap_st_scheme \<Rightarrow> (u64 \<times> 'a trap_st_scheme) outcome" where
  "sys_sleep s =
     bnd (argint 0 s) (\<lambda>(n, s).
     let n = (if sint n < 0 then 0 else n)
     in bnd (acquire_ticks s) (\<lambda>s.
        bnd (sys_sleep_turn n (ticks s) s) (\<lambda>(t, s).
        case t of Done r \<Rightarrow> Ok (r, s) | Wait _ \<Rightarrow> Blocked)))"

definition sys_kill :: "'a proc_st_scheme \<Rightarrow> (u64 \<times> 'a proc_st_scheme) outcome" where
  "sys_kill s = bnd (argint 0 s) (\<lambda>(pid, s). bnd (kill pid s) (\<lambda>(r, s). Ok (of_int r, s)))"

definition sys_uptime :: "'a trap_st_scheme \<Rightarrow> (u64 \<times> 'a trap_st_scheme) outcome" where
  "sys_uptime s =
     bnd (acquire_ticks s) (\<lambda>s.
     let xticks = ticks s
     in bnd (release_ticks s) (\<lambda>s. Ok (ucast xticks, s)))"

definition sys_hello :: "'a pr_st_scheme \<Rightarrow> (u64 \<times> 'a pr_st_scheme) outcome" where
  "sys_hello s = bnd (printf (cstr ''Hello, world!'' @ [10]) [] s) (\<lambda>s. Ok (0, s))"

fun sys_xv6_loop :: "nat \<Rightarrow> 'a pr_st_scheme \<Rightarrow> 'a pr_st_scheme outcome" where
  "sys_xv6_loop 0 s = Ok s"
| "sys_xv6_loop (Suc n) s = bnd (printf (cstr ''Hello_xv6'' @ [10]) [] s) (sys_xv6_loop n)"

definition sys_xv6 :: "'a pr_st_scheme \<Rightarrow> (u64 \<times> 'a pr_st_scheme) outcome" where
  "sys_xv6 s = bnd (argint 0 s) (\<lambda>(n, s). bnd (sys_xv6_loop (nat (sint n)) s) (\<lambda>s. Ok (0, s)))"

definition sys_trace :: "'a proc_st_scheme \<Rightarrow> (u64 \<times> 'a proc_st_scheme) outcome" where
  "sys_trace s =
     bnd (argint 0 s) (\<lambda>(mask, s).
     bnd (curproc s) (\<lambda>(p, s). Ok (0, upd_proc p (\<lambda>q. q\<lparr>p_trace_mask := mask\<rparr>) s)))"

definition sys_sysinfo :: "'a file_st_scheme \<Rightarrow> (u64 \<times> 'a file_st_scheme) outcome" where
  "sys_sysinfo s =
     bnd (curproc s) (\<lambda>(p, s).
     bnd (argaddr 0 s) (\<lambda>(addr, s).
     case kfree_memsize s of None \<Rightarrow> Blocked | Some r \<Rightarrow>
     bnd r (\<lambda>(freemem, s).
     let nproc = count_active_processes s
     in bnd (count_open_files s) (\<lambda>(nopenfiles, s).
        bnd (copyout (p_pagetable (procs s ! p)) addr (enc64 freemem @ enc64 nproc @ enc64 nopenfiles) s) (\<lambda>(r, s).
        if r < 0 then Ok (-1, s) else Ok (0, s))))))"

section \<open>Dispatch\<close>

text \<open>The entries of \<open>syscalls\<close> and \<open>syscall_names\<close>, by the numbers of kernel/syscall.h.\<close>

definition syscall_names :: "string list" where
  "syscall_names = [[], ''fork'', ''exit'', ''wait'', ''pipe'', ''read'', ''kill'', ''exec'', ''fstat'', ''chdir'',
     ''dup'', ''getpid'', ''sbrk'', ''sleep'', ''uptime'', ''open'', ''write'', ''mknod'', ''unlink'', ''link'',
     ''mkdir'', ''close'', ''hello'', ''xv6'', ''trace'', ''sysinfo'']"

definition syscalls :: "bytes \<Rightarrow> nat \<Rightarrow> 'a trap_st_scheme \<Rightarrow> (u64 \<times> 'a trap_st_scheme) outcome" where
  "syscalls pad num s =
     (if num = 1 then sys_fork s else if num = 2 then sys_exit s else if num = 3 then sys_wait s
      else if num = 4 then sys_pipe s else if num = 5 then sys_read s else if num = 6 then sys_kill s
      else if num = 7 then sys_exec s else if num = 8 then sys_fstat pad s else if num = 9 then sys_chdir s
      else if num = 10 then sys_dup s else if num = 11 then sys_getpid s else if num = 12 then sys_sbrk s
      else if num = 13 then sys_sleep s else if num = 14 then sys_uptime s else if num = 15 then sys_open s
      else if num = 16 then sys_write s else if num = 17 then sys_mknod s else if num = 18 then sys_unlink s
      else if num = 19 then sys_link s else if num = 20 then sys_mkdir s else if num = 21 then sys_close s
      else if num = 22 then sys_hello s else if num = 23 then sys_xv6 s else if num = 24 then sys_trace s
      else sys_sysinfo s)"

text \<open>\<open>pad\<close> are the padding bytes of \<open>struct stat\<close> on the kernel stack, see \<open>filestat\<close>.\<close>

definition syscall :: "bytes \<Rightarrow> 'a trap_st_scheme \<Rightarrow> 'a trap_st_scheme outcome" where
  "syscall pad s =
     bnd (curproc s) (\<lambda>(p, s).
     let num = ucast (tf_load p (tf_a 7) s) :: u32
     in if 0 < sint num \<and> num < 26
        then bnd (syscalls pad (unat num) s) (\<lambda>(r, s).
             let s = tf_store p (tf_a 0) r s
             in if p_trace_mask (procs s ! p) AND push_bit (unat num) 1 \<noteq> 0
                then printf (cstr ''%d: syscall %s -> %ld'' @ [10])
                       [Num (ucast (p_pid (procs s ! p))), Str (Some (cstr (syscall_names ! unat num))),
                        Num (tf_load p (tf_a 0) s)] s
                else Ok s)
        else bnd (printf (cstr ''%d %s: unknown sys call %d'' @ [10])
                   [Num (ucast (p_pid (procs s ! p))), Str (Some (cstring (p_name (procs s ! p)))), Num (ucast num)] s)
               (\<lambda>s. Ok (tf_store p (tf_a 0) (-1) s)))"

end
