(* ===== verification/Trap.thy ===== *)
theory Trap
  imports Syscall
begin

text \<open>
  kernel/trap.c, kernel/plic.c, the rest of kernel/proc.c that crosses into user space (forkret), and
  the boot sequence of kernel/start.c and kernel/main.c. \<open>mmio\<close> is the disk device's registers and \<open>pad\<close> the
  stack padding, as in the theories before.
\<close>

section \<open>Interrupt controller\<close>

definition PLIC_SENABLE :: "nat \<Rightarrow> u64" where "PLIC_SENABLE hart = PLIC + 0x2080 + of_nat hart * 0x100"
definition PLIC_SPRIORITY :: "nat \<Rightarrow> u64" where "PLIC_SPRIORITY hart = PLIC + 0x201000 + of_nat hart * 0x2000"
definition UART0_IRQ :: u32 where "UART0_IRQ = 10"
definition VIRTIO0_IRQ :: u32 where "VIRTIO0_IRQ = 1"

definition plicinit :: "'a trap_st_scheme \<Rightarrow> 'a trap_st_scheme" where
  "plicinit s = s\<lparr>plic_regs := (plic_regs s)(PLIC + 40 := 1, PLIC + 4 := 1)\<rparr>"

definition plicinithart :: "'a trap_st_scheme \<Rightarrow> 'a trap_st_scheme" where
  "plicinithart s =
     (let hart = cpuid s
      in s\<lparr>plic_regs := (plic_regs s)(PLIC_SENABLE hart := push_bit 10 1 OR push_bit 1 1, PLIC_SPRIORITY hart := 0)\<rparr>)"

text \<open>Reading the claim register takes the pending interrupt; 0 means that there is none.\<close>

definition plic_claim :: "'a trap_st_scheme \<Rightarrow> u32 \<times> 'a trap_st_scheme" where
  "plic_claim s =
     (let hart = cpuid s
      in case plic_pending s hart of
           [] \<Rightarrow> (0, s)
         | irq # irqs \<Rightarrow> (irq, s\<lparr>plic_pending := (plic_pending s)(hart := irqs)\<rparr>))"

definition plic_complete :: "u32 \<Rightarrow> 'a trap_st_scheme \<Rightarrow> 'a trap_st_scheme" where
  "plic_complete irq s =
     (let hart = cpuid s
      in s\<lparr>plic_regs := (plic_regs s)(PLIC + 0x201004 + of_nat hart * 0x2000 := irq)\<rparr>)"

section \<open>Devices and clock\<close>

definition trapinit :: "'a trap_st_scheme \<Rightarrow> 'a trap_st_scheme" where
  "trapinit s = s\<lparr>tickslock := initlock ''time''\<rparr>"

definition w_stvec :: "u64 \<Rightarrow> 'a trap_st_scheme \<Rightarrow> 'a trap_st_scheme" where
  "w_stvec v s = s\<lparr>stvec := (stvec s)(tp s := v)\<rparr>"

definition trapinithart :: "'a trap_st_scheme \<Rightarrow> 'a trap_st_scheme" where
  "trapinithart s = w_stvec (kernelvec s) s"

definition clockintr :: "'a trap_st_scheme \<Rightarrow> 'a trap_st_scheme outcome" where
  "clockintr s =
     bnd (if cpuid s = 0
          then bnd (acquire_ticks s) (\<lambda>s.
               bnd (wakeup ChanTicks (s\<lparr>ticks := ticks s + 1\<rparr>)) (\<lambda>s. release_ticks s))
          else Ok s) (\<lambda>s.
     Ok (s\<lparr>stimecmp := (stimecmp s)(tp s := mtime s + 1000000)\<rparr>))"

definition devintr :: "mmio \<Rightarrow> 'a trap_st_scheme \<Rightarrow> (nat \<times> 'a trap_st_scheme) outcome" where
  "devintr mmio s =
     (if scause s (tp s) = 0x8000000000000009
      then let (irq, s) = plic_claim s
           in bnd (if irq = UART0_IRQ then uartintr s
                   else if irq = VIRTIO0_IRQ then virtio_disk_intr mmio s
                   else if irq \<noteq> 0 then printf (cstr ''unexpected interrupt irq=%d'' @ [10]) [Num (ucast irq)] s
                   else Ok s) (\<lambda>s.
              let s = (if irq \<noteq> 0 then plic_complete irq s else s)
              in Ok (1, s))
      else if scause s (tp s) = 0x8000000000000005
      then bnd (clockintr s) (\<lambda>s. Ok (2, s))
      else Ok (0, s))"

section \<open>Returning to user space\<close>

text \<open>\<open>usertrapret\<close> returns the value of satp that it hands to \<open>userret\<close> in trampoline.S.\<close>

definition usertrapret :: "'a trap_st_scheme \<Rightarrow> (u64 \<times> 'a trap_st_scheme) outcome" where
  "usertrapret s =
     bnd (curproc s) (\<lambda>(p, s).
     let s = intr_off s;
         s = w_stvec (TRAMPOLINE + (uservec s - trampoline s)) s;
         s = tf_store p tf_kernel_satp (satp s (tp s)) s;
         s = tf_store p tf_kernel_sp (p_kstack (procs s ! p) + PGSIZE) s;
         s = tf_store p tf_kernel_trap (usertrap_pc s) s;
         s = tf_store p tf_kernel_hartid (of_nat (tp s)) s;
         s = s\<lparr>spp := (spp s)(tp s := False), spie := (spie s)(tp s := True)\<rparr>;
         s = s\<lparr>sepc := (sepc s)(tp s := tf_load p tf_epc s)\<rparr>
     in Ok (MAKE_SATP (p_pagetable (procs s ! p)), s))"

section \<open>Traps\<close>

text \<open>
  \<open>Done\<close> is the return to user space with the satp of the process; \<open>Wait\<close> is a thread that has yielded its
  hart after a clock interrupt and has \<open>usertrapret\<close> left to do.
\<close>

definition usertrap :: "mmio \<Rightarrow> bytes \<Rightarrow> 'a trap_st_scheme \<Rightarrow> ((u64, unit) turn \<times> 'a trap_st_scheme) outcome" where
  "usertrap mmio pad s =
     (if spp s (tp s) then Panic ''usertrap: not from user mode''
      else let s = w_stvec (kernelvec s) s
           in bnd (curproc s) (\<lambda>(p, s).
              let s = tf_store p tf_epc (sepc s (tp s)) s
              in bnd (if scause s (tp s) = 8
                      then bnd (killed p s) (\<lambda>(k, s).
                           if k \<noteq> 0 then exit (-1) s
                           else let s = tf_store p tf_epc (tf_load p tf_epc s + 4) s
                                in bnd (syscall pad (intr_on s)) (\<lambda>s. Ok (0, s)))
                      else bnd (devintr mmio s) (\<lambda>(which_dev, s).
                           if which_dev \<noteq> 0 then Ok (which_dev, s)
                           else bnd (printf (cstr ''usertrap(): unexpected scause 0x%lx pid=%d'' @ [10])
                                       [Num (scause s (tp s)), Num (ucast (p_pid (procs s ! p)))] s) (\<lambda>s.
                                bnd (printf (cstr ''            sepc=0x%lx stval=0x%lx'' @ [10])
                                       [Num (sepc s (tp s)), Num (stval s (tp s))] s) (\<lambda>s.
                                bnd (setkilled p s) (\<lambda>s. Ok (0, s)))))) (\<lambda>(which_dev, s).
                 bnd (killed p s) (\<lambda>(k, s).
                 if k \<noteq> 0 then exit (-1) s
                 else if which_dev = 2 then bnd (yield_out s) (\<lambda>(_, s). Ok (Wait (), s))
                 else bnd (usertrapret s) (\<lambda>(r, s). Ok (Done r, s))))))"

text \<open>
  \<open>kerneltrap\<close>: a thread that yields restores \<open>sepc\<close> and sstatus when it runs again; \<open>Wait\<close> carries them.
\<close>

definition kerneltrap :: "mmio \<Rightarrow> 'a trap_st_scheme \<Rightarrow> ((unit, u64 \<times> bool \<times> bool) turn \<times> 'a trap_st_scheme) outcome" where
  "kerneltrap mmio s =
     (let epc = sepc s (tp s); sp_p = spp s (tp s); sp_ie = spie s (tp s)
      in if \<not> spp s (tp s) then Panic ''kerneltrap: not from supervisor mode''
         else if intr_get s then Panic ''kerneltrap: interrupts enabled''
         else bnd (devintr mmio s) (\<lambda>(which_dev, s).
              if which_dev = 0 then Panic ''kerneltrap''
              else bnd (if which_dev = 2 then myproc s else Ok (None, s)) (\<lambda>(p, s).
                   if p \<noteq> None then bnd (yield_out s) (\<lambda>(_, s). Ok (Wait (epc, sp_p, sp_ie), s))
                   else Ok (Done (), s\<lparr>sepc := (sepc s)(tp s := epc), spp := (spp s)(tp s := sp_p),
                               spie := (spie s)(tp s := sp_ie)\<rparr>))))"

definition forkret :: "'a trap_st_scheme \<Rightarrow> (u64 \<times> 'a trap_st_scheme) outcome" where
  "forkret s =
     bnd (curproc s) (\<lambda>(p, s).
     bnd (release_p p s) (\<lambda>s.
     bnd (if forkret_first s
          then bnd (fsinit ROOTDEV s) (\<lambda>s. Ok (s\<lparr>forkret_first := False\<rparr>))
          else Ok s) usertrapret))"

section \<open>Boot\<close>

text \<open>The machine-mode registers that \<open>start\<close> and \<open>timerinit\<close> set.\<close>

record mregs =
  m_status :: u64
  m_epc :: u64
  m_satp :: u64
  m_edeleg :: u64
  m_ideleg :: u64
  m_sie :: u64
  m_pmpaddr0 :: u64
  m_pmpcfg0 :: u64
  m_ie :: u64
  m_envcfg :: u64
  m_counteren :: u64
  m_stimecmp :: u64
  m_hartid :: u64
  m_tp :: u64

definition timerinit :: "u64 \<Rightarrow> mregs \<Rightarrow> mregs" where
  "timerinit time m =
     (let m = m\<lparr>m_ie := m_ie m OR push_bit 5 1\<rparr>;
          m = m\<lparr>m_envcfg := m_envcfg m OR push_bit 63 1\<rparr>;
          m = m\<lparr>m_counteren := m_counteren m OR 2\<rparr>
      in m\<lparr>m_stimecmp := time + 1000000\<rparr>)"

text \<open>\<open>start\<close> up to the mret, which continues at \<open>m_epc\<close> in the mode that \<open>m_status\<close> names.\<close>

definition start :: "u64 \<Rightarrow> u64 \<Rightarrow> mregs \<Rightarrow> mregs" where
  "start main_pc time m =
     (let x = m_status m;
          x = x AND NOT (push_bit 11 3);
          x = x OR push_bit 11 1;
          m = m\<lparr>m_status := x\<rparr>;
          m = m\<lparr>m_epc := main_pc\<rparr>;
          m = m\<lparr>m_satp := 0\<rparr>;
          m = m\<lparr>m_edeleg := 0xffff\<rparr>;
          m = m\<lparr>m_ideleg := 0xffff\<rparr>;
          m = m\<lparr>m_sie := m_sie m OR push_bit 9 1 OR push_bit 5 1 OR push_bit 1 1\<rparr>;
          m = m\<lparr>m_pmpaddr0 := 0x3fffffffffffff\<rparr>;
          m = m\<lparr>m_pmpcfg0 := 0xf\<rparr>;
          m = timerinit time m
      in m\<lparr>m_tp := m_hartid m\<rparr>)"

text \<open>\<open>main\<close> up to the call of \<open>scheduler\<close>. A hart other than 0 spins until hart 0 has set \<open>started\<close>.\<close>

definition main_hart0 :: "mmio \<Rightarrow> 'a trap_st_scheme \<Rightarrow> 'a trap_st_scheme outcome" where
  "main_hart0 mmio s =
     (let s = printfinit (consoleinit s)
      in bnd (printf [10] [] s) (\<lambda>s.
         bnd (printf (cstr ''xv6 kernel is booting'' @ [10]) [] s) (\<lambda>s.
         bnd (printf [10] [] s) (\<lambda>s.
         case kinit s of None \<Rightarrow> Blocked | Some r \<Rightarrow>
         bnd r (\<lambda>s.
         bnd (kvminit s) (\<lambda>s.
         let s = kvminithart s;
             s = procinit s;
             s = trapinit s;
             s = trapinithart s;
             s = plicinit s;
             s = plicinithart s;
             s = binit s;
             s = iinit s;
             s = fileinit s
         in bnd (virtio_disk_init mmio s) (\<lambda>s.
            bnd (userinit s) (\<lambda>s.
            Ok (s\<lparr>started := True\<rparr>)))))))))"

definition main :: "mmio \<Rightarrow> 'a trap_st_scheme \<Rightarrow> 'a trap_st_scheme outcome" where
  "main mmio s =
     (if cpuid s = 0 then main_hart0 mmio s
      else if \<not> started s then Blocked
      else bnd (printf (cstr ''hart %d starting'' @ [10]) [Num (of_nat (cpuid s))] s) (\<lambda>s.
           Ok (plicinithart (trapinithart (kvminithart s)))))"

end
