(* ===== verification/Lru.thy ===== *)
theory Lru
  imports Bio
begin

text \<open>
  The doubly linked list of the buffer cache as a list of buffers, most recently used first: the two searches
  of \<open>bget\<close> are searches of that list from its front and from its back, and \<open>brelse\<close> moves a buffer to the
  front.
\<close>

section \<open>Doubly linked paths\<close>

text \<open>The nodes \<open>xs\<close> lie between \<open>a\<close> and \<open>c\<close>; \<open>nx\<close> and \<open>pv\<close> are the next and previous links.\<close>

fun path :: "(nat \<Rightarrow> nat) \<Rightarrow> (nat \<Rightarrow> nat) \<Rightarrow> nat \<Rightarrow> nat list \<Rightarrow> nat \<Rightarrow> bool" where
  "path nx pv a [] c \<longleftrightarrow> nx a = c \<and> pv c = a"
| "path nx pv a (x # xs) c \<longleftrightarrow> nx a = x \<and> pv x = a \<and> path nx pv x xs c"

lemma path_append: "path nx pv a (xs @ b # ys) c \<longleftrightarrow> path nx pv a xs b \<and> path nx pv b ys c"
  by (induction xs arbitrary: a) auto

lemma path_cong:
  "(\<And>i. i \<in> set (a # xs) \<Longrightarrow> nx i = nx' i) \<Longrightarrow> (\<And>i. i \<in> set (xs @ [c]) \<Longrightarrow> pv i = pv' i) \<Longrightarrow>
   path nx pv a xs c = path nx' pv' a xs c"
  by (induction xs arbitrary: a) auto

lemma path_next: "path nx pv a xs c \<Longrightarrow> nx a = hd (xs @ [c])"
  by (cases xs) auto

lemma path_prev: "path nx pv a xs c \<Longrightarrow> pv c = last (a # xs)"
  by (induction xs arbitrary: a) auto

lemma path_unlink:
  assumes "path nx pv a (xs @ b # ys) c" "distinct (a # xs @ b # ys)" "distinct (xs @ b # ys @ [c])"
  shows "path (nx(pv b := nx b)) (pv(nx b := pv b)) a (xs @ ys) c"
  using assms
proof (induction xs arbitrary: a)
  case Nil
  then have ab: "nx a = b" "pv b = a" and ys: "path nx pv b ys c" by simp_all
  show ?case
  proof (cases ys)
    case Nil
    then show ?thesis using ys ab by simp
  next
    case (Cons y zs)
    then have y: "nx b = y" "pv y = b" "path nx pv y zs c" using ys by simp_all
    have "path (nx(a := y)) (pv(y := a)) y zs c = path nx pv y zs c"
      by (rule path_cong) (use Nil.prems Cons in auto)
    then show ?thesis using y ab Cons by (simp add: fun_upd_def)
  qed
next
  case (Cons x xs)
  let ?N = "nx(pv b := nx b)" and ?P = "pv(nx b := pv b)"
  have IH: "path ?N ?P x (xs @ ys) c" by (rule Cons.IH) (use Cons.prems in auto)
  have "pv b = last (x # xs)" using Cons.prems(1) by (auto simp: path_append dest: path_prev)
  then have "pv b \<in> set (x # xs)" by (metis last_in_set list.distinct(1))
  moreover have "nx b = hd (ys @ [c])" using Cons.prems(1) by (auto simp: path_append dest: path_next)
  then have "nx b \<in> set (ys @ [c])" by (metis hd_in_set Nil_is_append_conv not_Cons_self2)
  ultimately have "pv b \<noteq> a" "nx b \<noteq> x" using Cons.prems(2,3) by auto
  then show ?case using IH Cons.prems(1) by (simp add: fun_upd_def)
qed

lemma path_link_front:
  assumes "path nx pv a xs c" "b \<notin> set (a # xs @ [c])" "distinct (a # xs)" "distinct (xs @ [c])"
  shows "path (nx(b := nx a, a := b)) (pv(b := a, nx a := b)) a (b # xs) c"
proof (cases xs)
  case Nil
  then show ?thesis using assms by auto
next
  case (Cons x zs)
  then have x: "nx a = x" "pv x = a" "path nx pv x zs c" using assms by simp_all
  have "path (nx(b := nx a, a := b)) (pv(b := a, nx a := b)) x zs c = path nx pv x zs c"
    by (rule path_cong) (use assms Cons x in auto)
  then show ?thesis using x assms Cons by auto
qed

section \<open>The list of buffers\<close>

abbreviation nxt :: "buf list \<Rightarrow> nat \<Rightarrow> nat" where
  "nxt bs i \<equiv> b_next (bs ! i)"

abbreviation prv :: "buf list \<Rightarrow> nat \<Rightarrow> nat" where
  "prv bs i \<equiv> b_prev (bs ! i)"

definition lru :: "buf list \<Rightarrow> nat list \<Rightarrow> bool" where
  "lru bs ls \<longleftrightarrow> length bs = Suc NBUF \<and> distinct ls \<and> set ls = {0..<NBUF} \<and>
     path (nxt bs) (prv bs) NBUF ls NBUF"

lemma length_lru: "lru bs ls \<Longrightarrow> length ls = NBUF"
  using distinct_card [of ls] by (simp add: lru_def)

lemma lru_cong:
  assumes "lru bs ls" "length bs' = length bs" "\<And>i. i \<le> NBUF \<Longrightarrow> nxt bs' i = nxt bs i" "\<And>i. i \<le> NBUF \<Longrightarrow> prv bs' i = prv bs i"
  shows "lru bs' ls"
proof -
  have "path (nxt bs') (prv bs') NBUF ls NBUF = path (nxt bs) (prv bs) NBUF ls NBUF"
    by (rule path_cong) (use assms in \<open>auto simp: lru_def\<close>)
  with assms show ?thesis by (simp add: lru_def)
qed

lemma bget_cached_path:
  "path (nxt bs) pv a xs NBUF \<Longrightarrow> NBUF \<notin> set xs \<Longrightarrow> length xs < n \<Longrightarrow>
   bget_cached n (nxt bs a) dev bno bs = Ok (find (\<lambda>b. b_dev (bs ! b) = dev \<and> b_blockno (bs ! b) = bno) xs)"
proof (induction xs arbitrary: a n)
  case Nil
  then show ?case by (cases n) auto
next
  case (Cons x xs)
  then obtain m where "n = Suc m" by (cases n) auto
  with Cons.IH [of x m] Cons.prems show ?case by auto
qed

lemma bget_unused_path:
  "path nx (prv bs) NBUF xs c \<Longrightarrow> NBUF \<notin> set xs \<Longrightarrow> length xs < n \<Longrightarrow>
   bget_unused n (prv bs c) bs = Ok (find (\<lambda>b. b_refcnt (bs ! b) = 0) (rev xs))"
proof (induction xs arbitrary: c n rule: rev_induct)
  case Nil
  then show ?case by (cases n) auto
next
  case (snoc x xs)
  then obtain m where n: "n = Suc m" by (cases n) auto
  have p: "path nx (prv bs) NBUF xs x" "prv bs c = x" using snoc.prems(1) by (auto simp: path_append)
  show ?case using snoc.IH [OF p(1), of m] snoc.prems p n by auto
qed

lemma bget_cached_lru:
  "lru bs ls \<Longrightarrow> bget_cached (Suc NBUF) (b_next (bs ! NBUF)) dev bno bs =
     Ok (find (\<lambda>b. b_dev (bs ! b) = dev \<and> b_blockno (bs ! b) = bno) ls)"
  by (rule bget_cached_path) (auto simp: lru_def length_lru)

lemma bget_unused_lru:
  "lru bs ls \<Longrightarrow> bget_unused (Suc NBUF) (b_prev (bs ! NBUF)) bs = Ok (find (\<lambda>b. b_refcnt (bs ! b) = 0) (rev ls))"
  by (rule bget_unused_path) (auto simp: lru_def length_lru)

declare bget_cached.simps [simp del] bget_unused.simps [simp del]

text \<open>The links after an update of one buffer.\<close>

lemma nxt_update: "i < length bs \<Longrightarrow> nxt (bs[i := x]) = (nxt bs)(i := b_next x)"
  by (auto simp: fun_eq_iff nth_list_update)

lemma prv_update: "i < length bs \<Longrightarrow> prv (bs[i := x]) = (prv bs)(i := b_prev x)"
  by (auto simp: fun_eq_iff nth_list_update)

definition front_bufs :: "nat \<Rightarrow> buf list \<Rightarrow> buf list" where
  "front_bufs b bs =
     (let bs = bs[nxt bs b := (bs ! nxt bs b)\<lparr>b_prev := prv bs b\<rparr>];
          bs = bs[prv bs b := (bs ! prv bs b)\<lparr>b_next := nxt bs b\<rparr>];
          bs = bs[b := (bs ! b)\<lparr>b_next := nxt bs NBUF\<rparr>];
          bs = bs[b := (bs ! b)\<lparr>b_prev := NBUF\<rparr>];
          bs = bs[nxt bs NBUF := (bs ! nxt bs NBUF)\<lparr>b_prev := b\<rparr>]
      in bs[NBUF := (bs ! NBUF)\<lparr>b_next := b\<rparr>])"

lemma link_front_unlink: "link_front b (unlink b s) = s\<lparr>bufs := front_bufs b (bufs s)\<rparr>"
  by (simp add: link_front_def unlink_def front_bufs_def upd_buf_def Let_def)

lemma lru_front:
  assumes lru: "lru bs (xs @ b # ys)"
  shows "lru (front_bufs b bs) (b # xs @ ys)"
proof -
  have len: "length bs = Suc NBUF" and d: "distinct (xs @ b # ys)" and st: "set (xs @ b # ys) = {0..<NBUF}"
    and pt: "path (nxt bs) (prv bs) NBUF (xs @ b # ys) NBUF" using lru by (auto simp: lru_def)
  have b: "b < NBUF" using st by auto
  have le: "i < NBUF" if "i \<in> set xs \<or> i \<in> set ys" for i
    using st that by (metis Un_iff atLeastLessThan_iff list.set_intros(2) set_append)
  have "path (nxt bs) (prv bs) NBUF xs b" "path (nxt bs) (prv bs) b ys NBUF" using pt by (simp_all add: path_append)
  note pn = path_next [OF this(2)] path_prev [OF this(1)]
  have "hd (ys @ [NBUF]) \<in> set (ys @ [NBUF])" "last (NBUF # xs) \<in> set (NBUF # xs)"
    by (metis hd_in_set Nil_is_append_conv not_Cons_self2, metis last_in_set list.distinct(1))
  then have "nxt bs b \<in> set (ys @ [NBUF])" "prv bs b \<in> set (NBUF # xs)" unfolding pn .
  then have n: "nxt bs b \<le> NBUF" "nxt bs b \<noteq> b" and p: "prv bs b \<le> NBUF" "prv bs b \<noteq> b"
    using st d b le by (auto intro: less_imp_le)
  define bs1 where "bs1 = bs[nxt bs b := (bs ! nxt bs b)\<lparr>b_prev := prv bs b\<rparr>]"
  define bs2 where "bs2 = bs1[prv bs1 b := (bs1 ! prv bs1 b)\<lparr>b_next := nxt bs1 b\<rparr>]"
  have l1: "length bs1 = Suc NBUF" by (simp add: bs1_def len)
  have N1: "nxt bs1 i = nxt bs i" and P1: "prv bs1 i = (if i = nxt bs b then prv bs b else prv bs i)" for i
    using n len by (auto simp: bs1_def nth_list_update)
  have b1: "prv bs1 b = prv bs b" "nxt bs1 b = nxt bs b" using n by (simp_all add: P1 N1)
  have l2: "length bs2 = Suc NBUF" by (simp add: bs2_def l1)
  have N2: "nxt bs2 = (nxt bs)(prv bs b := nxt bs b)" and P2: "prv bs2 = (prv bs)(nxt bs b := prv bs b)"
    using p l1 by (auto simp: bs2_def b1 fun_eq_iff N1 P1 nth_list_update)
  have pt2: "path (nxt bs2) (prv bs2) NBUF (xs @ ys) NBUF"
    unfolding N2 P2 by (rule path_unlink) (use pt d st in auto)
  have h2: "nxt bs2 NBUF \<le> NBUF" "nxt bs2 NBUF \<noteq> b"
  proof -
    have "nxt bs2 NBUF = hd ((xs @ ys) @ [NBUF])" using pt2 by (rule path_next)
    moreover have "hd ((xs @ ys) @ [NBUF]) \<in> set ((xs @ ys) @ [NBUF])" by (rule hd_in_set) simp
    ultimately show "nxt bs2 NBUF \<le> NBUF" "nxt bs2 NBUF \<noteq> b" using le d b by (auto intro: less_imp_le)
  qed
  have "lru (bs2[b := (bs2 ! b)\<lparr>b_next := nxt bs2 NBUF, b_prev := NBUF\<rparr>, nxt bs2 NBUF := (bs2 ! nxt bs2 NBUF)\<lparr>b_prev := b\<rparr>,
      NBUF := (if nxt bs2 NBUF = NBUF then (bs2 ! NBUF)\<lparr>b_prev := b, b_next := b\<rparr> else (bs2 ! NBUF)\<lparr>b_next := b\<rparr>)]) (b # xs @ ys)" (is "lru ?bs _")
  proof -
    have "nxt ?bs = (nxt bs2)(b := nxt bs2 NBUF, NBUF := b)" "prv ?bs = (prv bs2)(b := NBUF, nxt bs2 NBUF := b)"
      using h2 l2 b by (auto simp: fun_eq_iff nth_list_update)
    moreover have "path ((nxt bs2)(b := nxt bs2 NBUF, NBUF := b)) ((prv bs2)(b := NBUF, nxt bs2 NBUF := b)) NBUF (b # xs @ ys) NBUF"
      by (rule path_link_front [OF pt2]) (use d st in auto)
    ultimately show ?thesis using l2 d st by (auto simp: lru_def)
  qed
  moreover have "front_bufs b bs = ?bs"
    using h2 l2 b by (simp add: front_bufs_def Let_def flip: bs1_def) (simp add: nth_list_update flip: bs2_def)
  ultimately show ?thesis by simp
qed

end
