(* ===== verification/Locks.thy ===== *)
theory Locks
  imports Sleeplock
begin

text \<open>
  Critical sections as equations. A hart is \<open>calm\<close> when its interrupt state is consistent and recorded; in a
  calm state a section on a free lock comes back to the same hart state. The locale \<open>sleep_lock\<close> is the
  interface that the buffer cache and the inode table use: a sleeping lock somewhere in the state, given by
  the laws of its access functions.
\<close>

section \<open>Calm harts\<close>

definition calm :: "'a hart_st_scheme \<Rightarrow> bool" where
  "calm s \<longleftrightarrow> hart_ok s \<and> settled s = s"

lemma calm_push_off [simp]: "calm s \<Longrightarrow> calm (push_off s)"
  by (auto simp: calm_def push_off_hart_ok) (auto simp: hart_ok_def settled_def hart_defs)

lemma pop_push_calm [simp]: "calm s \<Longrightarrow> pop_off (push_off s) = Ok s"
  by (simp add: calm_def pop_push)

lemma cpu_proc_push_off [simp]: "cpu_proc (mycpu (push_off s)) = cpu_proc (mycpu s)"
  by (simp add: hart_defs)

lemma myproc_calm [simp]: "calm s \<Longrightarrow> myproc s = Ok (cpu_proc (mycpu s), s)"
  by (simp add: myproc_def Let_def)

lemma curproc_calm [simp]: "calm s \<Longrightarrow> cpu_proc (mycpu s) = Some p \<Longrightarrow> curproc s = Ok (p, s)"
  by (simp add: curproc_def)

text \<open>The fields of the process table are independent of the hart.\<close>

lemma push_off_proc [simp]:
  "procs (push_off s) = procs s" "initproc (push_off s) = initproc s" "nextpid (push_off s) = nextpid s"
  "pid_lock (push_off s) = pid_lock s" "wait_lock (push_off s) = wait_lock s" "forkret_pc (push_off s) = forkret_pc s"
  "push_off (procs_update f s) = procs_update f (push_off s)"
  "push_off (nextpid_update g s) = nextpid_update g (push_off s)"
  "push_off (pid_lock_update h s) = pid_lock_update h (push_off s)"
  "push_off (wait_lock_update h s) = wait_lock_update h (push_off s)"
  by (simp_all add: hart_defs)

lemma pop_off_proc [simp]:
  "pop_off (procs_update f s) = bnd (pop_off s) (\<lambda>s. Ok (procs_update f s))"
  "pop_off (nextpid_update g s) = bnd (pop_off s) (\<lambda>s. Ok (nextpid_update g s))"
  "pop_off (pid_lock_update h s) = bnd (pop_off s) (\<lambda>s. Ok (pid_lock_update h s))"
  "pop_off (wait_lock_update h s) = bnd (pop_off s) (\<lambda>s. Ok (wait_lock_update h s))"
  by (simp_all add: hart_defs)

lemma mycpu_proc [simp]:
  "mycpu (procs_update f s) = mycpu s" "mycpu (nextpid_update g s) = mycpu s"
  "mycpu (pid_lock_update h s) = mycpu s" "mycpu (wait_lock_update h s) = mycpu s"
  by (simp_all add: mycpu_def)

lemma calm_iff: "calm s \<longleftrightarrow> 0 \<le> noff (cpus s (tp s)) \<and> (0 < noff (cpus s (tp s)) \<longrightarrow> \<not> sie s (tp s)) \<and>
    (noff (cpus s (tp s)) = 0 \<longrightarrow> intena (cpus s (tp s)) = sie s (tp s))"
proof -
  have "set_mycpu ((mycpu s)\<lparr>intena := intr_get s\<rparr>) s = s \<longleftrightarrow> intena (cpus s (tp s)) = sie s (tp s)"
  proof
    assume "set_mycpu ((mycpu s)\<lparr>intena := intr_get s\<rparr>) s = s"
    then have "cpus (set_mycpu ((mycpu s)\<lparr>intena := intr_get s\<rparr>) s) (tp s) = cpus s (tp s)" by simp
    then have "intena ((mycpu s)\<lparr>intena := intr_get s\<rparr>) = intena (cpus s (tp s))" by (simp add: hart_defs)
    then show "intena (cpus s (tp s)) = sie s (tp s)" by (simp add: hart_defs)
  next
    assume h: "intena (cpus s (tp s)) = sie s (tp s)"
    show "set_mycpu ((mycpu s)\<lparr>intena := intr_get s\<rparr>) s = s" by (simp add: hart_defs flip: h)
  qed
  then show ?thesis by (auto simp: calm_def hart_ok_def settled_def intr_get_def mycpu_def [of s])
qed

lemma calm_proc [simp]:
  "calm (procs_update f s) = calm s" "calm (nextpid_update g s) = calm s"
  "calm (pid_lock_update h s) = calm s" "calm (wait_lock_update h s) = calm s"
  by (simp_all add: calm_iff)

section \<open>Sections on a spinlock\<close>

lemma acquire_in_free [simp]:
  "lock_free (get s) \<Longrightarrow> acquire_in get upd s = Ok (upd (\<lambda>_. held_by (tp s) (get s)) (push_off s))"
  by (simp add: acquire_in_def)

lemma release_in_held:
  "get s = held_by (tp s) l \<Longrightarrow> lock_free l \<Longrightarrow>
   release_in get upd s = bnd (pop_off s) (\<lambda>s. Ok (upd (\<lambda>_. l) s))"
  by (simp add: release_in_def bnd_assoc)

section \<open>Waking\<close>

definition free_plocks :: "proc list \<Rightarrow> bool" where
  "free_plocks ps \<longleftrightarrow> length ps = NPROC \<and> (\<forall>i<NPROC. lock_free (p_lock (ps ! i)))"

definition wake1 :: "chan \<Rightarrow> nat option \<Rightarrow> nat \<Rightarrow> proc \<Rightarrow> proc" where
  "wake1 ch me i q = (if me \<noteq> Some i \<and> p_state q = SLEEPING \<and> p_chan q = Some ch then q\<lparr>p_state := RUNNABLE\<rparr> else q)"

fun woken_from :: "nat \<Rightarrow> nat \<Rightarrow> chan \<Rightarrow> nat option \<Rightarrow> proc list \<Rightarrow> proc list" where
  "woken_from 0 p ch me ps = ps"
| "woken_from (Suc n) p ch me ps = woken_from n (Suc p) ch me (ps[p := wake1 ch me p (ps ! p)])"

definition woken :: "chan \<Rightarrow> nat option \<Rightarrow> proc list \<Rightarrow> proc list" where
  "woken ch me ps = woken_from NPROC 0 ch me ps"

lemma length_woken_from [simp]: "length (woken_from n p ch me ps) = length ps"
  by (induction n arbitrary: p ps) auto

lemma nth_woken_from:
  "i < length ps \<Longrightarrow> woken_from n p ch me ps ! i = (if p \<le> i \<and> i < p + n then wake1 ch me i (ps ! i) else ps ! i)"
proof (induction n arbitrary: p ps)
  case (Suc n)
  then show ?case by (cases "i = p") auto
qed auto

lemma length_woken [simp]: "length (woken ch me ps) = length ps"
  by (simp add: woken_def)

lemma nth_woken: "length ps = NPROC \<Longrightarrow> i < NPROC \<Longrightarrow> woken ch me ps ! i = wake1 ch me i (ps ! i)"
  by (simp add: woken_def nth_woken_from)

lemma wake1_other [simp]:
  "p_lock (wake1 ch me i q) = p_lock q" "p_pid (wake1 ch me i q) = p_pid q"
  "p_pagetable (wake1 ch me i q) = p_pagetable q" "p_chan (wake1 ch me i q) = p_chan q"
  "p_sz (wake1 ch me i q) = p_sz q" "p_killed (wake1 ch me i q) = p_killed q"
  by (simp_all add: wake1_def)

lemma free_plocks_woken [simp]: "free_plocks ps \<Longrightarrow> free_plocks (woken ch me ps)"
  by (simp add: free_plocks_def nth_woken)

lemma wakeup_loop_eq:
  assumes "calm s" "p + n \<le> length (procs s)" "\<And>i. p \<le> i \<Longrightarrow> i < p + n \<Longrightarrow> lock_free (p_lock (procs s ! i))"
  shows "wakeup_loop n p ch s = Ok (s\<lparr>procs := woken_from n p ch (cpu_proc (mycpu s)) (procs s)\<rparr>)"
  using assms
proof (induction n arbitrary: p s)
  case (Suc n)
  let ?me = "cpu_proc (mycpu s)" and ?q = "procs s ! p"
  let ?s = "s\<lparr>procs := (procs s)[p := wake1 ch ?me p ?q]\<rparr>"
  have IH: "wakeup_loop n (Suc p) ch ?s = Ok (?s\<lparr>procs := woken_from n (Suc p) ch ?me (procs ?s)\<rparr>)"
    using Suc.IH [of ?s "Suc p"] Suc.prems by simp
  have free: "lock_free (p_lock ?q)" using Suc.prems by simp
  have p: "p < length (procs s)" using Suc.prems by simp
  have "wakeup_loop (Suc n) p ch s = wakeup_loop n (Suc p) ch ?s"
  proof (cases "?me = Some p")
    case True
    then show ?thesis using Suc.prems(1) by (simp add: wake1_def)
  next
    case False
    then show ?thesis using Suc.prems(1) free p
      by (auto simp: upd_proc_def Let_def release_in_held [where l = "p_lock ?q"] wake1_def)
  qed
  then show ?case by (simp add: IH)
qed simp

lemma wakeup_eq [simp]:
  "calm s \<Longrightarrow> free_plocks (procs s) \<Longrightarrow> wakeup ch s = Ok (s\<lparr>procs := woken ch (cpu_proc (mycpu s)) (procs s)\<rparr>)"
  by (simp add: wakeup_def woken_def free_plocks_def wakeup_loop_eq)

section \<open>Sleeping locks\<close>

locale sleep_lock =
  fixes ch :: chan
    and get :: "'a proc_st_scheme \<Rightarrow> sleeplock"
    and upd :: "(sleeplock \<Rightarrow> sleeplock) \<Rightarrow> 'a proc_st_scheme \<Rightarrow> 'a proc_st_scheme"
    and ok :: "'a proc_st_scheme \<Rightarrow> bool"
  assumes get_upd: "ok s \<Longrightarrow> get (upd f s) = f (get s)"
    and upd_upd: "ok s \<Longrightarrow> upd f (upd g s) = upd (\<lambda>l. f (g l)) s"
    and upd_cong: "ok s \<Longrightarrow> f (get s) = g (get s) \<Longrightarrow> upd f s = upd g s"
    and ok_upd: "ok (upd f s) = ok s"
    and upd_push: "push_off (upd f s) = upd f (push_off s)" "get (push_off s) = get s" "ok (push_off s) = ok s"
    and upd_pop: "pop_off (upd f s) = bnd (pop_off s) (\<lambda>s. Ok (upd f s))"
    and upd_hart: "calm (upd f s) = calm s" "mycpu (upd f s) = mycpu s" "tp (upd f s) = tp s"
    and upd_procs: "procs (upd f s) = procs s" "get (procs_update w s) = get s" "ok (procs_update w s) = ok s"
      "upd f (procs_update w s) = procs_update w (upd f s)"
    and upd_same: "ok s \<Longrightarrow> upd (\<lambda>l. l) s = s"
begin

lemmas laws = get_upd upd_upd ok_upd upd_push upd_pop upd_hart upd_procs

lemma release_lk_eq:
  "ok s \<Longrightarrow> sl_lk (get s) = held_by (tp s) l \<Longrightarrow> lock_free l \<Longrightarrow>
   release_lk get upd s = bnd (pop_off s) (\<lambda>s. Ok (upd (sl_lk_update (\<lambda>_. l)) s))"
  by (rule release_in_held)

lemma acquiresleep_free:
  assumes "calm s" "ok s" "cpu_proc (mycpu s) = Some p" "lock_free (sl_lk (get s))" "\<not> sl_locked (get s)"
  shows "acquiresleep ch get upd s = Ok (upd (\<lambda>l. l\<lparr>sl_locked := True, sl_pid := p_pid (procs s ! p)\<rparr>) s)"
proof -
  have "upd (\<lambda>l. l\<lparr>sl_locked := True, sl_pid := p_pid (procs s ! p), sl_lk := sl_lk (get s)\<rparr>) s =
      upd (\<lambda>l. l\<lparr>sl_locked := True, sl_pid := p_pid (procs s ! p)\<rparr>) s"
    by (rule upd_cong) (use assms in \<open>simp_all\<close>)
  with assms show ?thesis
    by (simp add: acquiresleep_def laws Let_def release_lk_eq [where l = "sl_lk (get s)"])
qed

lemma acquiresleep_held:
  assumes "calm s" "ok s" "cpu_proc (mycpu s) = Some p" "lock_free (sl_lk (get s))" "sl_locked (get s)"
    "free_plocks (procs s)" "p < NPROC"
  shows "\<forall>t. acquiresleep ch get upd s \<noteq> Ok t"
  using assms by (auto simp: acquiresleep_def laws sleep_def)

lemma holdingsleep_eq:
  assumes "calm s" "ok s" "cpu_proc (mycpu s) = Some p" "lock_free (sl_lk (get s))"
  shows "holdingsleep get upd s = Ok (sl_locked (get s) \<and> sl_pid (get s) = p_pid (procs s ! p), s)"
proof -
  have "upd (\<lambda>l. l\<lparr>sl_lk := sl_lk (get s)\<rparr>) s = upd (\<lambda>l. l) s" by (rule upd_cong) (use assms in simp_all)
  with assms show ?thesis
    by (simp add: holdingsleep_def laws release_lk_eq [where l = "sl_lk (get s)"] upd_same)
qed

lemma releasesleep_eq:
  assumes "calm s" "ok s" "cpu_proc (mycpu s) = Some p" "lock_free (sl_lk (get s))" "free_plocks (procs s)"
  shows "releasesleep ch get upd s =
    Ok ((upd (\<lambda>l. l\<lparr>sl_locked := False, sl_pid := 0\<rparr>) s)\<lparr>procs := woken ch (Some p) (procs s)\<rparr>)"
proof -
  have "upd (\<lambda>l. l\<lparr>sl_locked := False, sl_pid := 0, sl_lk := sl_lk (get s)\<rparr>) s =
      upd (\<lambda>l. l\<lparr>sl_locked := False, sl_pid := 0\<rparr>) s" by (rule upd_cong) (use assms in simp_all)
  with assms show ?thesis
    by (simp add: releasesleep_def laws Let_def release_lk_eq [where l = "sl_lk (get s)"])
qed

end

end
