(* ===== verification/Bcache.thy ===== *)
theory Bcache
  imports Lru Locks
begin

text \<open>
  The buffer cache as a disk with a cache in front of it. \<open>view s n\<close> is the content of block \<open>n\<close> as a reader
  sees it. The lemmas give each operation of bio.c in a state where one process uses the cache: \<open>H\<close> is the
  set of buffers the process holds, and \<open>pins\<close> counts the references taken by \<open>bpin\<close>.
\<close>

section \<open>The cache is independent of the hart\<close>

lemma push_off_bio [simp]:
  "bcache_lock (push_off s) = bcache_lock s" "bufs (push_off s) = bufs s" "disk (push_off s) = disk s"
  "disk_writes (push_off s) = disk_writes s"
  "push_off (bcache_lock_update f s) = bcache_lock_update f (push_off s)"
  "push_off (bufs_update g s) = bufs_update g (push_off s)"
  "push_off (disk_update h s) = disk_update h (push_off s)"
  "push_off (disk_writes_update k s) = disk_writes_update k (push_off s)"
  by (simp_all add: hart_defs)

lemma pop_off_bio [simp]:
  "pop_off (bcache_lock_update f s) = bnd (pop_off s) (\<lambda>s. Ok (bcache_lock_update f s))"
  "pop_off (bufs_update g s) = bnd (pop_off s) (\<lambda>s. Ok (bufs_update g s))"
  "pop_off (disk_update h s) = bnd (pop_off s) (\<lambda>s. Ok (disk_update h s))"
  "pop_off (disk_writes_update k s) = bnd (pop_off s) (\<lambda>s. Ok (disk_writes_update k s))"
  by (simp_all add: hart_defs)

lemma mycpu_bio [simp]:
  "mycpu (bcache_lock_update f s) = mycpu s" "mycpu (bufs_update g s) = mycpu s"
  "mycpu (disk_update h s) = mycpu s" "mycpu (disk_writes_update k s) = mycpu s"
  by (simp_all add: mycpu_def)

lemma calm_bio [simp]:
  "calm (bcache_lock_update f s) = calm s" "calm (bufs_update g s) = calm s"
  "calm (disk_update h s) = calm s" "calm (disk_writes_update k s) = calm s"
  by (simp_all add: calm_iff)

text \<open>The lock of a buffer is a sleeping lock in the sense of the interface.\<close>

lemma b_lock_update_cong: "f (b_lock x) = g (b_lock x) \<Longrightarrow> b_lock_update f x = b_lock_update g x"
  by (cases x) simp

lemma b_lock_update_id: "b_lock_update (\<lambda>l. l) x = x"
  by (cases x) simp

lemma pop_off_upd_buf: "pop_off (upd_buf b f s) = bnd (pop_off s) (\<lambda>s. Ok (upd_buf b f s))"
  by (simp add: hart_defs upd_buf_def)

interpretation block: sleep_lock "ChanBufLock b" "get_block b" "upd_block b" "\<lambda>s. b < length (bufs s)" for b
  by unfold_locales
    (auto simp: pop_off_upd_buf, auto simp: upd_buf_def b_lock_update_id comp_def intro!: arg_cong [where f = "\<lambda>x. _\<lparr>bufs := _[b := x]\<rparr>"] b_lock_update_cong)

section \<open>Invariant and view\<close>

text \<open>A buffer without its links.\<close>

definition core :: "buf \<Rightarrow> buf" where
  "core x = x\<lparr>b_prev := 0, b_next := 0\<rparr>"

definition buf_ok :: "u32 \<Rightarrow> u32 \<Rightarrow> bytes list \<Rightarrow> bool \<Rightarrow> nat \<Rightarrow> buf \<Rightarrow> bool" where
  "buf_ok dev pid dsk held pin x \<longleftrightarrow>
     lock_free (sl_lk (b_lock x)) \<and> sl_locked (b_lock x) = held \<and> (held \<longrightarrow> sl_pid (b_lock x) = pid \<and> b_valid x) \<and>
     b_refcnt x = of_nat ((if held then 1 else 0) + pin) \<and> pin < 2 ^ 31 \<and> (0 < pin \<longrightarrow> b_valid x) \<and>
     (b_valid x \<longrightarrow> b_dev x = dev \<and> unat (b_blockno x) < length dsk \<and> length (b_data x) = BSIZE \<and>
        (\<not> held \<longrightarrow> pin = 0 \<longrightarrow> b_data x = dsk ! unat (b_blockno x)))"

definition cache_inv :: "'a bio_st_scheme \<Rightarrow> u32 \<Rightarrow> nat \<Rightarrow> nat set \<Rightarrow> (nat \<Rightarrow> nat) \<Rightarrow> bool" where
  "cache_inv s dev p H pins \<longleftrightarrow>
     calm s \<and> cpu_proc (mycpu s) = Some p \<and> p < NPROC \<and> free_plocks (procs s) \<and> dev \<noteq> 0 \<and>
     lock_free (bcache_lock s) \<and> (\<exists>ls. lru (bufs s) ls) \<and> H \<subseteq> {0..<NBUF} \<and>
     (\<forall>b<NBUF. buf_ok dev (p_pid (procs s ! p)) (disk s) (b \<in> H) (pins b) (bufs s ! b)) \<and>
     (\<forall>a<NBUF. \<forall>b<NBUF. b_dev (bufs s ! a) = dev \<longrightarrow> b_dev (bufs s ! b) = dev \<longrightarrow>
        b_blockno (bufs s ! a) = b_blockno (bufs s ! b) \<longrightarrow> a = b) \<and>
     (\<forall>n<length (disk s). length (disk s ! n) = BSIZE)"

definition holds_block :: "u32 \<Rightarrow> u32 \<Rightarrow> buf \<Rightarrow> bool" where
  "holds_block dev n x \<longleftrightarrow> b_dev x = dev \<and> b_blockno x = n \<and> b_valid x"

definition view :: "'a bio_st_scheme \<Rightarrow> u32 \<Rightarrow> u32 \<Rightarrow> bytes" where
  "view s dev n = (case find (\<lambda>b. holds_block dev n (bufs s ! b)) [0..<NBUF] of
     Some b \<Rightarrow> b_data (bufs s ! b) | None \<Rightarrow> disk s ! unat n)"

text \<open>Everything that the cache does not touch; processes may be woken.\<close>

definition proc_core :: "proc \<Rightarrow> proc" where
  "proc_core q = q\<lparr>p_state := UNUSED\<rparr>"

definition bio_rest :: "'a bio_st_scheme \<Rightarrow> 'a bio_st_scheme" where
  "bio_rest s = s\<lparr>procs := map proc_core (procs s), bufs := [], disk := [], disk_writes := []\<rparr>"

lemma proc_core_wake1 [simp]: "proc_core (wake1 ch me i q) = proc_core q"
  by (simp add: proc_core_def wake1_def)

lemma map_proc_core_woken [simp]: "length ps = NPROC \<Longrightarrow> map proc_core (woken ch me ps) = map proc_core ps"
  by (rule nth_equalityI) (simp_all add: nth_woken)

lemma core_simps [simp]:
  "b_valid (core x) = b_valid x" "b_dev (core x) = b_dev x" "b_blockno (core x) = b_blockno x"
  "b_lock (core x) = b_lock x" "b_refcnt (core x) = b_refcnt x" "b_data (core x) = b_data x" "b_disk (core x) = b_disk x"
  by (simp_all add: core_def)

lemma core_eq:
  "core x = core y \<longleftrightarrow> b_valid x = b_valid y \<and> b_disk x = b_disk y \<and> b_dev x = b_dev y \<and> b_blockno x = b_blockno y \<and>
    b_lock x = b_lock y \<and> b_refcnt x = b_refcnt y \<and> b_data x = b_data y"
  by (cases x; cases y) (auto simp: core_def)

lemma core_links [simp]: "core (x\<lparr>b_prev := v\<rparr>) = core x" "core (x\<lparr>b_next := v\<rparr>) = core x"
  by (simp_all add: core_def)

lemma core_nth_update: "core y = core (bs ! j) \<Longrightarrow> core (bs[j := y] ! i) = core (bs ! i)"
  by (cases "i = j"; cases "j < length bs") (auto simp: list_update_beyond)

lemma core_update:
  "core (bs[j := (bs ! j)\<lparr>b_prev := v\<rparr>] ! i) = core (bs ! i)" "core (bs[j := (bs ! j)\<lparr>b_next := v\<rparr>] ! i) = core (bs ! i)"
  by (rule core_nth_update, simp add: core_def)+

lemma core_front_bufs [simp]: "core (front_bufs b bs ! i) = core (bs ! i)"
  unfolding front_bufs_def Let_def by (simp only: core_update)

lemma buf_ok_core: "core x = core y \<Longrightarrow> buf_ok dev pid dsk held pin x = buf_ok dev pid dsk held pin y"
  by (simp add: buf_ok_def core_eq)

text \<open>What a buffer shows: the fields the view of the disk depends on.\<close>

definition shows_same :: "buf \<Rightarrow> buf \<Rightarrow> bool" where
  "shows_same x y \<longleftrightarrow> b_valid x = b_valid y \<and> b_dev x = b_dev y \<and> b_blockno x = b_blockno y \<and> b_data x = b_data y"

lemma view_cong:
  assumes "\<And>b. b < NBUF \<Longrightarrow> shows_same (bufs t ! b) (bufs s ! b)" "disk t = disk s"
  shows "view t dev n = view s dev n"
proof -
  have "find (\<lambda>b. holds_block dev n (bufs t ! b)) [0..<NBUF] = find (\<lambda>b. holds_block dev n (bufs s ! b)) [0..<NBUF]"
    by (rule find_cong) (use assms(1) in \<open>auto simp: holds_block_def shows_same_def\<close>)
  moreover have "b < NBUF" if "find P [0..<NBUF] = Some b" for P b using that by (auto simp: find_Some_iff)
  ultimately show ?thesis using assms by (auto simp: view_def shows_same_def split: option.splits)
qed

section \<open>Getting a buffer\<close>

definition got :: "u32 \<Rightarrow> u32 \<Rightarrow> u32 \<Rightarrow> buf \<Rightarrow> buf \<Rightarrow> bool" where
  "got dev n pid x y \<longleftrightarrow>
     b_dev y = dev \<and> b_blockno y = n \<and> b_lock y = (b_lock x)\<lparr>sl_locked := True, sl_pid := pid\<rparr> \<and>
     b_refcnt y = b_refcnt x + 1 \<and> b_data y = b_data x \<and> b_prev y = b_prev x \<and> b_next y = b_next x \<and>
     (if b_dev x = dev \<and> b_blockno x = n then b_valid y = b_valid x else \<not> b_valid y \<and> b_refcnt x = 0)"

lemma cache_invD:
  assumes "cache_inv s dev p H pins"
  shows "calm s" "cpu_proc (mycpu s) = Some p" "p < NPROC" "free_plocks (procs s)" "lock_free (bcache_lock s)"
    "length (bufs s) = Suc NBUF" "dev \<noteq> 0" "H \<subseteq> {0..<NBUF}" "length (procs s) = NPROC"
    "\<And>b. b < NBUF \<Longrightarrow> buf_ok dev (p_pid (procs s ! p)) (disk s) (b \<in> H) (pins b) (bufs s ! b)"
    "\<And>a b. a < NBUF \<Longrightarrow> b < NBUF \<Longrightarrow> b_dev (bufs s ! a) = dev \<Longrightarrow> b_dev (bufs s ! b) = dev \<Longrightarrow>
       b_blockno (bufs s ! a) = b_blockno (bufs s ! b) \<Longrightarrow> a = b"
    "\<And>n. n < length (disk s) \<Longrightarrow> length (disk s ! n) = BSIZE"
  using assms by (auto simp: cache_inv_def lru_def free_plocks_def)

lemma find_Some_D: "find P xs = Some b \<Longrightarrow> b \<in> set xs \<and> P b"
  by (auto simp: find_Some_iff)

lemma bget_spec:
  assumes inv: "cache_inv s dev p H pins" and unheld: "\<forall>b\<in>H. b_blockno (bufs s ! b) \<noteq> n"
    and room: "(\<exists>b<NBUF. b \<notin> H \<and> pins b = 0) \<or> (\<exists>b<NBUF. holds_block dev n (bufs s ! b))"
  shows "\<exists>b y. b < NBUF \<and> b \<notin> H \<and> bget dev n s = Ok (b, s\<lparr>bufs := (bufs s)[b := y]\<rparr>) \<and>
    got dev n (p_pid (procs s ! p)) (bufs s ! b) y \<and>
    (b_dev (bufs s ! b) = dev \<and> b_blockno (bufs s ! b) = n \<or>
      (\<forall>a<NBUF. \<not> (b_dev (bufs s ! a) = dev \<and> b_blockno (bufs s ! a) = n)))"
proof -
  note D = cache_invD [OF inv]
  obtain ls where lru: "lru (bufs s) ls" using inv by (auto simp: cache_inv_def)
  have st: "set ls = {0..<NBUF}" using lru by (simp add: lru_def)
  note cached = bget_cached_lru [OF lru, of dev n] and unused = bget_unused_lru [OF lru]
  let ?P = "\<lambda>b. b_dev (bufs s ! b) = dev \<and> b_blockno (bufs s ! b) = n"
  let ?pid = "p_pid (procs s ! p)"
  have free: "lock_free (sl_lk (b_lock (bufs s ! b)))" "sl_locked (b_lock (bufs s ! b)) = (b \<in> H)" if "b < NBUF" for b
    using D(10) [OF that] by (auto simp: buf_ok_def)
  show ?thesis
  proof (cases "find ?P ls")
    case (Some b)
    then have b: "b < NBUF" "?P b" using st find_Some_D [OF Some] by auto
    then have bH: "b \<notin> H" using unheld by auto
    let ?y = "b_lock_update (\<lambda>l. l\<lparr>sl_locked := True, sl_pid := ?pid\<rparr>)
      ((bufs s ! b)\<lparr>b_refcnt := b_refcnt (bufs s ! b) + 1\<rparr>)"
    have "bget dev n s = Ok (b, s\<lparr>bufs := (bufs s)[b := ?y]\<rparr>)"
      using D(1-6) b(1) bH free [OF b(1)]
      by (simp add: bget_def cached Some Let_def upd_buf_def release_in_held [where l = "bcache_lock s"]
          block.acquiresleep_free [where p = p])
    moreover have "got dev n ?pid (bufs s ! b) ?y" using b by (simp add: got_def)
    ultimately show ?thesis using b bH by blast
  next
    case None
    then have none: "\<forall>a<NBUF. \<not> ?P a" using st by (auto simp: find_None_iff)
    obtain c where c: "c < NBUF" "c \<notin> H" "pins c = 0" using room none by (auto simp: holds_block_def)
    then have "b_refcnt (bufs s ! c) = 0" using D(10) [of c] by (simp add: buf_ok_def)
    then obtain b where f: "find (\<lambda>b. b_refcnt (bufs s ! b) = 0) (rev ls) = Some b"
      using c st by (cases "find (\<lambda>b. b_refcnt (bufs s ! b) = 0) (rev ls)") (auto simp: find_None_iff)
    then have b: "b < NBUF" "b_refcnt (bufs s ! b) = 0" using st find_Some_D [OF f] by auto
    have bH: "b \<notin> H"
    proof
      assume "b \<in> H"
      then have "of_nat (1 + pins b) = (0 :: u32)" "pins b < 2 ^ 31" using D(10) [OF b(1)] b(2) by (auto simp: buf_ok_def)
      then have "unat (of_nat (1 + pins b) :: u32) = 0" by simp
      with \<open>pins b < 2 ^ 31\<close> show False by (simp add: unat_of_nat take_bit_nat_eq_self del: of_nat_add of_nat_Suc)
    qed
    let ?y = "b_lock_update (\<lambda>l. l\<lparr>sl_locked := True, sl_pid := ?pid\<rparr>)
      ((bufs s ! b)\<lparr>b_dev := dev, b_blockno := n, b_valid := False, b_refcnt := 1\<rparr>)"
    have "bget dev n s = Ok (b, s\<lparr>bufs := (bufs s)[b := ?y]\<rparr>)"
      using D(1-6) b(1) bH free [OF b(1)]
      by (simp add: bget_def cached None unused f Let_def upd_buf_def release_in_held [where l = "bcache_lock s"]
          block.acquiresleep_free [where p = p])
    moreover have "got dev n ?pid (bufs s ! b) ?y" using b none by (auto simp: got_def)
    ultimately show ?thesis using b bH none by blast
  qed
qed

section \<open>Changing one buffer\<close>

lemma of_nat_pins: "k < 2 ^ 31 + 1 \<Longrightarrow> (of_nat k :: u32) = 0 \<longleftrightarrow> k = 0"
  by (simp add: word_unat_eq_iff unat_of_nat take_bit_nat_eq_self)

lemma lru_update:
  "lru bs ls \<Longrightarrow> b_prev y = b_prev (bs ! b) \<Longrightarrow> b_next y = b_next (bs ! b) \<Longrightarrow> lru (bs[b := y]) ls"
proof (cases "b < length bs")
  case True
  assume "lru bs ls" "b_prev y = b_prev (bs ! b)" "b_next y = b_next (bs ! b)"
  then show ?thesis using True by (elim lru_cong) (auto simp: nth_list_update)
qed (simp add: list_update_beyond)

lemma cache_inv_update:
  assumes inv: "cache_inv s dev p H pins" and b: "b < NBUF"
    and y: "b_prev y = b_prev (bufs s ! b)" "b_next y = b_next (bufs s ! b)"
      "buf_ok dev (p_pid (procs s ! p)) (disk s) (b \<in> H') (pins' b) y"
      "\<And>a. a < NBUF \<Longrightarrow> a \<noteq> b \<Longrightarrow> b_dev y = dev \<Longrightarrow> b_dev (bufs s ! a) = dev \<Longrightarrow> b_blockno (bufs s ! a) \<noteq> b_blockno y"
    and others: "\<And>a. a \<noteq> b \<Longrightarrow> (a \<in> H') = (a \<in> H) \<and> pins' a = pins a"
  shows "cache_inv (s\<lparr>bufs := (bufs s)[b := y]\<rparr>) dev p H' pins'"
proof -
  note D = cache_invD [OF inv]
  obtain ls where "lru (bufs s) ls" using inv by (auto simp: cache_inv_def)
  then have "lru ((bufs s)[b := y]) ls" using y by (intro lru_update)
  moreover have "buf_ok dev (p_pid (procs s ! p)) (disk s) (a \<in> H') (pins' a) ((bufs s)[b := y] ! a)" if "a < NBUF" for a
    using D(6,10) that y(3) others [of a] by (cases "a = b") auto
  moreover have "a = c" if "a < NBUF" "c < NBUF" "b_dev ((bufs s)[b := y] ! a) = dev" "b_dev ((bufs s)[b := y] ! c) = dev"
    "b_blockno ((bufs s)[b := y] ! a) = b_blockno ((bufs s)[b := y] ! c)" for a c
    using that D(6,11) y(4) b by (cases "a = b"; cases "c = b") (auto dest: y(4))
  moreover have "H' \<subseteq> {0..<NBUF}" using D(8) others b by fastforce
  ultimately show ?thesis using D by (auto simp: cache_inv_def)
qed

lemma view_cached:
  assumes "cache_inv s dev p H pins" "b < NBUF" "holds_block dev n (bufs s ! b)"
  shows "view s dev n = b_data (bufs s ! b)"
proof -
  obtain c where c: "find (\<lambda>b. holds_block dev n (bufs s ! b)) [0..<NBUF] = Some c"
    using assms(2,3) by (cases "find (\<lambda>b. holds_block dev n (bufs s ! b)) [0..<NBUF]") (auto simp: find_None_iff)
  then have "c < NBUF" "holds_block dev n (bufs s ! c)" using find_Some_D [OF c] by auto
  then have "c = b" using cache_invD(11) [OF assms(1), of c b] assms by (auto simp: holds_block_def)
  then show ?thesis using c by (simp add: view_def)
qed

lemma view_uncached: "\<forall>b<NBUF. \<not> holds_block dev n (bufs s ! b) \<Longrightarrow> view s dev n = disk s ! unat n"
proof -
  assume "\<forall>b<NBUF. \<not> holds_block dev n (bufs s ! b)"
  then have "find (\<lambda>b. holds_block dev n (bufs s ! b)) [0..<NBUF] = None" by (auto simp: find_None_iff)
  then show ?thesis by (simp add: view_def)
qed

lemma view_disk:
  assumes inv: "cache_inv s dev p H pins" and n: "\<forall>b<NBUF. b_dev (bufs s ! b) = dev \<longrightarrow> b_blockno (bufs s ! b) = n \<longrightarrow> b \<notin> H \<and> pins b = 0"
  shows "view s dev n = disk s ! unat n"
proof (cases "\<exists>b<NBUF. holds_block dev n (bufs s ! b)")
  case True
  then obtain b where b: "b < NBUF" "holds_block dev n (bufs s ! b)" by blast
  then have "b \<notin> H" "pins b = 0" using n by (auto simp: holds_block_def)
  then show ?thesis using view_cached [OF inv b] cache_invD(10) [OF inv b(1)] b(2) by (auto simp: buf_ok_def holds_block_def)
next
  case False
  then show ?thesis by (intro view_uncached) blast
qed

lemma view_refill:
  assumes inv: "cache_inv s dev p H pins" and inv': "cache_inv (s\<lparr>bufs := (bufs s)[b := y]\<rparr>) dev p H' pins'" and b: "b < NBUF"
    and y: "b_valid y" "b_dev y = dev" "b_blockno y = n" "b_data y = view s dev n"
    and clean: "holds_block dev m (bufs s ! b) \<Longrightarrow> m \<noteq> n \<Longrightarrow> b_data (bufs s ! b) = disk s ! unat m"
  shows "view (s\<lparr>bufs := (bufs s)[b := y]\<rparr>) dev m = view s dev m"
proof -
  have len: "b < length (bufs s)" using b cache_invD(6) [OF inv] by simp
  consider "m = n" | a where "a < NBUF" "a \<noteq> b" "m \<noteq> n" "holds_block dev m (bufs s ! a)"
    | "m \<noteq> n" "\<forall>a<NBUF. a \<noteq> b \<longrightarrow> \<not> holds_block dev m (bufs s ! a)" by blast
  then show ?thesis
  proof cases
    case 1
    have "holds_block dev n ((bufs s)[b := y] ! b)" using y len by (simp add: holds_block_def)
    then show ?thesis using view_cached [OF inv' b, of n] 1 y(4) len by simp
  next
    case (2 a)
    then show ?thesis using view_cached [OF inv 2(1,4)] view_cached [OF inv' 2(1), of m] by simp
  next
    case 3
    have "view (s\<lparr>bufs := (bufs s)[b := y]\<rparr>) dev m = disk s ! unat m"
      by (subst view_uncached) (use 3 y len in \<open>auto simp: holds_block_def nth_list_update\<close>)
    moreover have "view s dev m = disk s ! unat m"
    proof (cases "holds_block dev m (bufs s ! b)")
      case True
      then show ?thesis using view_cached [OF inv b True] clean 3(1) by simp
    next
      case False
      then show ?thesis by (intro view_uncached) (use 3 in blast)
    qed
    ultimately show ?thesis by simp
  qed
qed

lemma bread_spec:
  assumes inv: "cache_inv s dev p H pins" and n: "unat n < length (disk s)"
    and unheld: "\<forall>b\<in>H. b_blockno (bufs s ! b) \<noteq> n" 
    and room: "(\<exists>b<NBUF. b \<notin> H \<and> pins b = 0) \<or> (\<exists>b<NBUF. holds_block dev n (bufs s ! b))"
  obtains b y where "b < NBUF" "b \<notin> H" "bread dev n s = Ok (b, s\<lparr>bufs := (bufs s)[b := y]\<rparr>)"
    "cache_inv (s\<lparr>bufs := (bufs s)[b := y]\<rparr>) dev p (insert b H) pins"
    "b_data y = view s dev n" "b_blockno y = n" "b_dev y = dev" "b_valid y"
    "\<And>m. view (s\<lparr>bufs := (bufs s)[b := y]\<rparr>) dev m = view s dev m"
    "pins b \<noteq> 0 \<Longrightarrow> b_blockno (bufs s ! b) = n"
proof -
  note D = cache_invD [OF inv]
  obtain b x where b: "b < NBUF" "b \<notin> H" "bget dev n s = Ok (b, s\<lparr>bufs := (bufs s)[b := x]\<rparr>)"
    and x: "got dev n (p_pid (procs s ! p)) (bufs s ! b) x"
    and which: "b_dev (bufs s ! b) = dev \<and> b_blockno (bufs s ! b) = n \<or>
      (\<forall>a<NBUF. \<not> (b_dev (bufs s ! a) = dev \<and> b_blockno (bufs s ! a) = n))"
    using bget_spec [OF inv unheld room] by blast
  have ok: "buf_ok dev (p_pid (procs s ! p)) (disk s) False (pins b) (bufs s ! b)" using D(10) [OF b(1)] b(2) by simp
  define y where "y = (if b_valid x then x else x\<lparr>b_data := disk s ! unat n, b_valid := True\<rparr>)"
  have dy: "b_data y = view s dev n"
  proof (cases "b_valid x")
    case True
    then have "holds_block dev n (bufs s ! b)" using x by (auto simp: got_def holds_block_def split: if_splits)
    then show ?thesis using view_cached [OF inv b(1)] True x by (simp add: y_def got_def)
  next
    case False
    have "a \<notin> H \<and> pins a = 0" if a: "a < NBUF" "b_dev (bufs s ! a) = dev" "b_blockno (bufs s ! a) = n" for a
    proof -
      have "a = b" using which a b(1) D(11) by auto
      moreover from this have "\<not> b_valid (bufs s ! b)" using False x a by (auto simp: got_def)
      ultimately show ?thesis using ok b(2) by (auto simp: buf_ok_def)
    qed
    then show ?thesis using view_disk [OF inv, of n] False x by (auto simp: y_def got_def)
  qed
  have rd: "bread dev n s = Ok (b, s\<lparr>bufs := (bufs s)[b := y]\<rparr>)"
    using b(1,3) D(6) n x by (simp add: bread_def disk_rw_def upd_buf_def y_def got_def Let_def)
  have yv: "b_valid y" "b_dev y = dev" "b_blockno y = n" using x by (auto simp: y_def got_def)
  have len: "length (view s dev n) = BSIZE"
  proof (cases "b_valid x")
    case True
    then have "b_valid (bufs s ! b)" using x by (auto simp: got_def split: if_splits)
    then show ?thesis using dy True x ok by (auto simp: y_def got_def buf_ok_def)
  next
    case False
    then show ?thesis using dy D(12) [OF n] by (simp add: y_def)
  qed
  have inv': "cache_inv (s\<lparr>bufs := (bufs s)[b := y]\<rparr>) dev p (insert b H) pins"
  proof (rule cache_inv_update [OF inv b(1)])
    show "buf_ok dev (p_pid (procs s ! p)) (disk s) (b \<in> insert b H) (pins b) y"
      using ok x yv n len dy by (auto simp: buf_ok_def got_def y_def)
    show "b_blockno (bufs s ! a) \<noteq> b_blockno y" if "a < NBUF" "a \<noteq> b" "b_dev y = dev" "b_dev (bufs s ! a) = dev" for a
      using which D(11) [of a b] that b(1) yv by auto
  qed (use x in \<open>auto simp: y_def got_def\<close>)
  have np: "b_blockno (bufs s ! b) = n" if "pins b \<noteq> 0"
  proof (rule ccontr)
    assume "b_blockno (bufs s ! b) \<noteq> n"
    then have "b_refcnt (bufs s ! b) = 0" using x by (auto simp: got_def)
    then show False using ok that of_nat_pins [of "pins b"] by (simp add: buf_ok_def)
  qed
  have vw: "view (s\<lparr>bufs := (bufs s)[b := y]\<rparr>) dev m = view s dev m" for m
    by (rule view_refill [OF inv inv' b(1) yv dy]) (use np ok in \<open>auto simp: buf_ok_def holds_block_def\<close>)
  show ?thesis using that [OF b(1,2) rd inv' dy yv(3,2,1) vw np] .
qed

section \<open>Using and releasing a buffer\<close>

lemma held_buf:
  assumes "cache_inv s dev p H pins" "b \<in> H"
  shows "b < NBUF" "b < length (bufs s)" "b_valid (bufs s ! b)" "b_dev (bufs s ! b) = dev"
    "unat (b_blockno (bufs s ! b)) < length (disk s)" "length (b_data (bufs s ! b)) = BSIZE"
    "lock_free (sl_lk (get_block b s))" "sl_locked (get_block b s)" "sl_pid (get_block b s) = p_pid (procs s ! p)"
    "view s dev (b_blockno (bufs s ! b)) = b_data (bufs s ! b)"
    "\<And>a. a < NBUF \<Longrightarrow> a \<noteq> b \<Longrightarrow> b_dev (bufs s ! a) = dev \<Longrightarrow> b_blockno (bufs s ! a) \<noteq> b_blockno (bufs s ! b)"
proof -
  note D = cache_invD [OF assms(1)]
  show b: "b < NBUF" using D(8) assms(2) by auto
  then show "b < length (bufs s)" using D(6) by simp
  have "buf_ok dev (p_pid (procs s ! p)) (disk s) True (pins b) (bufs s ! b)" using D(10) [OF b] assms(2) by simp
  then show v: "b_valid (bufs s ! b)" "b_dev (bufs s ! b) = dev" "unat (b_blockno (bufs s ! b)) < length (disk s)"
    "length (b_data (bufs s ! b)) = BSIZE" "lock_free (sl_lk (get_block b s))" "sl_locked (get_block b s)"
    "sl_pid (get_block b s) = p_pid (procs s ! p)" by (auto simp: buf_ok_def)
  show "view s dev (b_blockno (bufs s ! b)) = b_data (bufs s ! b)"
    using view_cached [OF assms(1) b] v by (simp add: holds_block_def)
  show "b_blockno (bufs s ! a) \<noteq> b_blockno (bufs s ! b)" if "a < NBUF" "a \<noteq> b" "b_dev (bufs s ! a) = dev" for a
    using D(11) [OF that(1) b that(3) v(2)] that(2) by blast
qed

lemma set_data_spec:
  assumes inv: "cache_inv s dev p H pins" and b: "b \<in> H" and d: "length d = BSIZE"
  shows "cache_inv (upd_buf b (\<lambda>x. x\<lparr>b_data := d\<rparr>) s) dev p H pins"
    "view (upd_buf b (\<lambda>x. x\<lparr>b_data := d\<rparr>) s) dev m = (if m = b_blockno (bufs s ! b) then d else view s dev m)"
proof -
  note B = held_buf [OF inv b] and D = cache_invD [OF inv]
  let ?t = "upd_buf b (\<lambda>x. x\<lparr>b_data := d\<rparr>) s"
  show inv': "cache_inv ?t dev p H pins" unfolding upd_buf_def
    by (rule cache_inv_update [OF inv B(1)]) (use D(10) [OF B(1)] B(11) b d B(1-9) in \<open>auto simp: buf_ok_def\<close>)
  show "view ?t dev m = (if m = b_blockno (bufs s ! b) then d else view s dev m)"
  proof (cases "m = b_blockno (bufs s ! b)")
    case True
    then show ?thesis using held_buf(10) [OF inv' b] B(2) by (simp add: upd_buf_def)
  next
    case False
    have "find (\<lambda>a. holds_block dev m (bufs ?t ! a)) [0..<NBUF] = find (\<lambda>a. holds_block dev m (bufs s ! a)) [0..<NBUF]"
      by (rule find_cong) (auto simp: holds_block_def upd_buf_def nth_list_update B(2))
    moreover have "a \<noteq> b" if "find (\<lambda>a. holds_block dev m (bufs s ! a)) [0..<NBUF] = Some a" for a
      using find_Some_D [OF that] False by (auto simp: holds_block_def)
    ultimately show ?thesis using False by (auto simp: view_def upd_buf_def split: option.splits)
  qed
qed

definition wrote :: "nat \<Rightarrow> bytes \<Rightarrow> 'a bio_st_scheme \<Rightarrow> 'a bio_st_scheme" where
  "wrote n d s = s\<lparr>disk := (disk s)[n := d], disk_writes := disk_writes s @ [(n, d)]\<rparr>"

lemma bwrite_spec:
  assumes inv: "cache_inv s dev p H pins" and b: "b \<in> H"
  defines "t \<equiv> wrote (unat (b_blockno (bufs s ! b))) (b_data (bufs s ! b)) s"
  shows "bwrite b s = Ok t" "cache_inv t dev p H pins" "view t dev m = view s dev m"
proof -
  note B = held_buf [OF inv b] and D = cache_invD [OF inv]
  let ?n = "unat (b_blockno (bufs s ! b))" and ?d = "b_data (bufs s ! b)"
  show "bwrite b s = Ok t"
    using D(1,2) B by (simp add: bwrite_def block.holdingsleep_eq [where p = p] disk_rw_def Let_def t_def wrote_def)
  have other: "b_blockno (bufs s ! a) \<noteq> b_blockno (bufs s ! b)" if "a < NBUF" "a \<noteq> b" "b_valid (bufs s ! a)" for a
    using B(11) [OF that(1,2)] D(10) [OF that(1)] that(3) by (auto simp: buf_ok_def)
  have "buf_ok dev (p_pid (procs s ! p)) ((disk s)[?n := ?d]) (a \<in> H) (pins a) (bufs s ! a)" if "a < NBUF" for a
    using D(10) [OF that] other [OF that] b by (cases "a = b") (auto simp: buf_ok_def word_unat_eq_iff)
  moreover have "length ((disk s)[?n := ?d] ! k) = BSIZE" if "k < length (disk s)" for k
    using D(12) [OF that] B(6) that by (cases "k = ?n") simp_all
  ultimately show inv': "cache_inv t dev p H pins" using inv by (auto simp: cache_inv_def t_def wrote_def)
  show "view t dev m = view s dev m"
  proof (cases "m = b_blockno (bufs s ! b)")
    case True
    then show ?thesis using held_buf(10) [OF inv' b] B(10) by (simp add: t_def wrote_def)
  next
    case False
    then show ?thesis by (auto simp: view_def t_def wrote_def word_unat_eq_iff split: option.splits)
  qed
qed

lemma bpin_spec:
  assumes inv: "cache_inv s dev p H pins" and b: "b \<in> H" and k: "Suc (pins b) < 2 ^ 31"
  defines "t \<equiv> upd_buf b (\<lambda>x. x\<lparr>b_refcnt := b_refcnt x + 1\<rparr>) s"
  shows "bpin b s = Ok t" "cache_inv t dev p H (pins(b := Suc (pins b)))" "view t dev m = view s dev m"
proof -
  note B = held_buf [OF inv b] and D = cache_invD [OF inv]
  show "bpin b s = Ok t"
    using D(1,5) by (simp add: bpin_def upd_buf_def t_def release_in_held [where l = "bcache_lock s"])
  show "cache_inv t dev p H (pins(b := Suc (pins b)))" unfolding upd_buf_def t_def
    by (rule cache_inv_update [OF inv B(1)]) (use D(10) [OF B(1)] B(11) b k in \<open>auto simp: buf_ok_def\<close>)
  show "view t dev m = view s dev m"
    by (rule view_cong) (auto simp: t_def upd_buf_def shows_same_def nth_list_update B(2))
qed

lemma bunpin_spec:
  assumes inv: "cache_inv s dev p H pins" and b: "b \<in> H" and k: "pins b = Suc k"
  defines "t \<equiv> upd_buf b (\<lambda>x. x\<lparr>b_refcnt := b_refcnt x - 1\<rparr>) s"
  shows "bunpin b s = Ok t" "cache_inv t dev p H (pins(b := k))" "view t dev m = view s dev m"
proof -
  note B = held_buf [OF inv b] and D = cache_invD [OF inv]
  show "bunpin b s = Ok t"
    using D(1,5) by (simp add: bunpin_def upd_buf_def t_def release_in_held [where l = "bcache_lock s"])
  show "cache_inv t dev p H (pins(b := k))" unfolding upd_buf_def t_def
    by (rule cache_inv_update [OF inv B(1)]) (use D(10) [OF B(1)] B(11) b k in \<open>auto simp: buf_ok_def\<close>)
  show "view t dev m = view s dev m"
    by (rule view_cong) (auto simp: t_def upd_buf_def shows_same_def nth_list_update B(2))
qed

text \<open>
  Releasing: a buffer that nothing pins must agree with the disk, since from then on the cache may drop it.
\<close>

lemma cache_inv_woken:
  assumes "cache_inv s dev p H pins"
  shows "cache_inv (s\<lparr>procs := woken ch me (procs s)\<rparr>) dev p H pins"
proof -
  have "p_pid (woken ch me (procs s) ! p) = p_pid (procs s ! p)"
    using cache_invD(3,9) [OF assms] by (simp add: nth_woken wake1_def)
  then show ?thesis using assms unfolding cache_inv_def by simp
qed

lemma cache_inv_front:
  assumes inv: "cache_inv s dev p H pins" and b: "b < NBUF"
  shows "cache_inv (s\<lparr>bufs := front_bufs b (bufs s)\<rparr>) dev p H pins"
proof -
  obtain ls where lru: "lru (bufs s) ls" using inv by (auto simp: cache_inv_def)
  then obtain xs ys where "ls = xs @ b # ys" using b split_list [of b ls] by (auto simp: lru_def)
  with lru have front: "\<exists>ls. lru (front_bufs b (bufs s)) ls" using lru_front by blast
  have c: "core (front_bufs b (bufs s) ! a) = core (bufs s ! a)" for a by simp
  then have "b_dev (front_bufs b (bufs s) ! a) = b_dev (bufs s ! a)"
    "b_blockno (front_bufs b (bufs s) ! a) = b_blockno (bufs s ! a)" for a unfolding core_eq by blast+
  then show ?thesis using inv front by (simp add: cache_inv_def buf_ok_core [OF c])
qed

definition released :: "nat \<Rightarrow> 'a bio_st_scheme \<Rightarrow> 'a bio_st_scheme \<Rightarrow> bool" where
  "released b s t \<longleftrightarrow> bio_rest t = bio_rest s \<and> disk t = disk s \<and> disk_writes t = disk_writes s \<and>
     (\<forall>a<NBUF. shows_same (bufs t ! a) (bufs s ! a) \<and> (a \<noteq> b \<longrightarrow> core (bufs t ! a) = core (bufs s ! a)))"

lemma brelse_spec:
  assumes inv: "cache_inv s dev p H pins" and b: "b \<in> H"
    and clean: "pins b = 0 \<Longrightarrow> b_data (bufs s ! b) = disk s ! unat (b_blockno (bufs s ! b))"
  obtains t where "brelse b s = Ok t" "cache_inv t dev p (H - {b}) pins" "released b s t"
    "\<And>m. view t dev m = view s dev m"
proof -
  note B = held_buf [OF inv b] and D = cache_invD [OF inv]
  obtain ls where lru: "lru (bufs s) ls" using inv by (auto simp: cache_inv_def)
  let ?u = "b_lock_update (\<lambda>l. l\<lparr>sl_locked := False, sl_pid := 0\<rparr>) (bufs s ! b)"
  let ?x = "?u\<lparr>b_refcnt := b_refcnt (bufs s ! b) - 1\<rparr>"
  let ?w = "s\<lparr>procs := woken (ChanBufLock b) (Some p) (procs s), bufs := (bufs s)[b := ?x]\<rparr>"
  let ?t = "if b_refcnt ?x = 0 then ?w\<lparr>bufs := front_bufs b (bufs ?w)\<rparr> else ?w"
  have h: "holdingsleep (get_block b) (upd_block b) s = Ok (True, s)"
    using D(1,2) B(1-9) by (simp add: block.holdingsleep_eq [where p = p])
  have "releasesleep (ChanBufLock b) (get_block b) (upd_block b) s =
      Ok ((upd_block b (\<lambda>l. l\<lparr>sl_locked := False, sl_pid := 0\<rparr>) s)\<lparr>procs := woken (ChanBufLock b) (Some p) (procs s)\<rparr>)"
    by (rule block.releasesleep_eq) (use D(1-4) B(1-9) in simp_all)
  then have r: "releasesleep (ChanBufLock b) (get_block b) (upd_block b) s =
      Ok (s\<lparr>procs := woken (ChanBufLock b) (Some p) (procs s), bufs := (bufs s)[b := ?u]\<rparr>)"
    by (simp add: upd_buf_def)
  have 1: "brelse b s = Ok ?t"
    using D(1,5) B(2) unfolding brelse_def h
    by (simp add: r Let_def release_in_held [where l = "bcache_lock s"] link_front_unlink upd_buf_def)
  have sh: "shows_same (bufs ?t ! a) (bufs s ! a)" "a \<noteq> b \<Longrightarrow> core (bufs ?t ! a) = core (bufs s ! a)" for a
  proof -
    have c: "core (bufs ?t ! a) = core ((bufs s)[b := ?x] ! a)" by simp
    then show "a \<noteq> b \<Longrightarrow> core (bufs ?t ! a) = core (bufs s ! a)" by simp
    show "shows_same (bufs ?t ! a) (bufs s ! a)"
      using c B(2) by (cases "a = b") (auto simp: shows_same_def core_eq)
  qed
  have inv1: "cache_inv (s\<lparr>procs := woken (ChanBufLock b) (Some p) (procs s)\<rparr>) dev p H pins"
    by (rule cache_inv_woken [OF inv])
  have "cache_inv (s\<lparr>procs := woken (ChanBufLock b) (Some p) (procs s)\<rparr>\<lparr>bufs := (bufs s)[b := ?x]\<rparr>) dev p (H - {b}) pins"
    using cache_inv_update [OF inv1 B(1), of ?x "H - {b}" pins] D(10) [OF B(1)] B(11) b clean by (auto simp: buf_ok_def)
  then have inv2: "cache_inv ?w dev p (H - {b}) pins" by simp
  have inv3: "cache_inv ?t dev p (H - {b}) pins"
    using inv2 cache_inv_front [OF inv2 B(1)] by (cases "b_refcnt (bufs s ! b) = 1") simp_all
  show ?thesis
  proof (rule that [OF 1 inv3])
    show "released b s ?t" using sh D(9) by (auto simp: released_def bio_rest_def)
    show "view ?t dev m = view s dev m" for m by (rule view_cong) (use sh in auto)
  qed
qed

section \<open>The empty cache\<close>

text \<open>\<open>struct buf\<close> in zeroed memory, which is how the kernel starts.\<close>

definition zero_buf :: buf where
  "zero_buf = \<lparr>b_valid = False, b_disk = False, b_dev = 0, b_blockno = 0,
     b_lock = \<lparr>sl_locked = False, sl_lk = \<lparr>locked = False, lname = [], lcpu = None\<rparr>, sl_name = [], sl_pid = 0\<rparr>,
     b_refcnt = 0, b_prev = 0, b_next = 0, b_data = replicate BSIZE 0\<rparr>"

lemma link_front_path:
  fixes s :: "'a bio_st_scheme" and b :: nat
  defines "bs \<equiv> bufs s" and "bs' \<equiv> bufs (link_front b s)"
  assumes len: "length bs = Suc NBUF" and b: "b < NBUF" and pt: "path (nxt bs) (prv bs) NBUF xs NBUF"
    and xs: "b \<notin> set xs" "distinct xs" "set xs \<subseteq> {0..<NBUF}"
  shows "length bs' = Suc NBUF" "path (nxt bs') (prv bs') NBUF (b # xs) NBUF" "core (bs' ! a) = core (bs ! a)"
proof -
  have n: "nxt bs NBUF \<le> NBUF" using path_next [OF pt] xs(3) by (cases xs) auto
  show "length bs' = Suc NBUF" by (simp add: bs'_def link_front_def upd_buf_def len [unfolded bs_def])
  have "path ((nxt bs)(b := nxt bs NBUF, NBUF := b)) ((prv bs)(b := NBUF, nxt bs NBUF := b)) NBUF (b # xs) NBUF"
    by (rule path_link_front [OF pt]) (use xs b in auto)
  moreover have "nxt bs' = (nxt bs)(b := nxt bs NBUF, NBUF := b)" "prv bs' = (prv bs)(b := NBUF, nxt bs NBUF := b)"
    using len b n by (auto simp: fun_eq_iff bs'_def bs_def link_front_def upd_buf_def nth_list_update)
  ultimately show "path (nxt bs') (prv bs') NBUF (b # xs) NBUF" by simp
  show "core (bs' ! a) = core (bs ! a)"
    using len b by (simp add: bs'_def bs_def link_front_def upd_buf_def Let_def core_nth_update)
qed

lemma link_front_bufs: "(link_front b s)\<lparr>bufs := bs\<rparr> = s\<lparr>bufs := bs\<rparr>"
  by (simp add: link_front_def upd_buf_def Let_def)

lemma binit_loop_path:
  assumes "length (bufs s) = Suc NBUF" "b + n = NBUF" "path (nxt (bufs s)) (prv (bufs s)) NBUF (rev [0..<b]) NBUF"
  defines "t \<equiv> binit_loop n b s"
  shows "t = s\<lparr>bufs := bufs t\<rparr> \<and> lru (bufs t) (rev [0..<NBUF]) \<and>
    (\<forall>a<NBUF. core (bufs t ! a) = core (if b \<le> a then (bufs s ! a)\<lparr>b_lock := initsleeplock ''buffer''\<rparr> else bufs s ! a))"
  using assms(1-3) unfolding t_def
proof (induction n arbitrary: b s)
  case 0
  then show ?case by (simp add: lru_def)
next
  case (Suc n)
  let ?s = "upd_buf b (\<lambda>x. x\<lparr>b_lock := initsleeplock ''buffer''\<rparr>) s"
  have b: "b < NBUF" "b < length (bufs s)" using Suc.prems(1,2) by simp_all
  have "path (nxt (bufs ?s)) (prv (bufs ?s)) NBUF (rev [0..<b]) NBUF = path (nxt (bufs s)) (prv (bufs s)) NBUF (rev [0..<b]) NBUF"
    by (rule path_cong) (auto simp: upd_buf_def nth_list_update b)
  then have pt: "path (nxt (bufs ?s)) (prv (bufs ?s)) NBUF (rev [0..<b]) NBUF" using Suc.prems(3) by simp
  have len: "length (bufs ?s) = Suc NBUF" using Suc.prems(1) by (simp add: upd_buf_def)
  have "set (rev [0..<b]) \<subseteq> {0..<NBUF}" using b(1) by auto
  note L = link_front_path [OF len b(1) pt _ _ this]
  let ?u = "link_front b ?s" and ?t = "binit_loop n (Suc b) (link_front b ?s)"
  have I: "?t = ?u\<lparr>bufs := bufs ?t\<rparr> \<and> lru (bufs ?t) (rev [0..<NBUF]) \<and> (\<forall>a<NBUF. core (bufs ?t ! a) =
       core (if Suc b \<le> a then (bufs ?u ! a)\<lparr>b_lock := initsleeplock ''buffer''\<rparr> else bufs ?u ! a))"
    by (rule Suc.IH) (use L Suc.prems(2) in simp_all)
  have "?u\<lparr>bufs := bs\<rparr> = s\<lparr>bufs := bs\<rparr>" for bs by (simp add: link_front_bufs) (simp add: upd_buf_def)
  then have 1: "?t = s\<lparr>bufs := bufs ?t\<rparr>" using I by metis
  have u: "core (bufs ?u ! a) = core (if a = b then (bufs s ! a)\<lparr>b_lock := initsleeplock ''buffer''\<rparr> else bufs s ! a)" for a
    using L(3) [of a] b by (simp add: upd_buf_def nth_list_update)
  then have "core ((bufs ?u ! a)\<lparr>b_lock := l\<rparr>) = core ((bufs s ! a)\<lparr>b_lock := l\<rparr>)" for a l
    unfolding core_eq by (simp split: if_splits)
  then have 2: "core (bufs ?t ! a) = core (if b \<le> a then (bufs s ! a)\<lparr>b_lock := initsleeplock ''buffer''\<rparr> else bufs s ! a)"
    if "a < NBUF" for a using I u [of a] that by (cases "a = b") auto
  show ?case unfolding binit_loop.simps Let_def using 1 2 I by blast
qed

lemma binit_spec:
  assumes "bufs s = replicate (Suc NBUF) zero_buf"
  shows "binit s = s\<lparr>bcache_lock := initlock ''bcache'', bufs := bufs (binit s)\<rparr>"
    "lru (bufs (binit s)) (rev [0..<NBUF])"
    "a < NBUF \<Longrightarrow> core (bufs (binit s) ! a) = core (zero_buf\<lparr>b_lock := initsleeplock ''buffer''\<rparr>)"
proof -
  let ?s = "upd_buf NBUF (\<lambda>x. x\<lparr>b_prev := NBUF, b_next := NBUF\<rparr>) (s\<lparr>bcache_lock := initlock ''bcache''\<rparr>)"
  have "length (bufs ?s) = Suc NBUF" "path (nxt (bufs ?s)) (prv (bufs ?s)) NBUF (rev [0..<0]) NBUF"
    using assms by (simp_all add: upd_buf_def del: replicate_Suc)
  note L = binit_loop_path [OF this(1) _ this(2), of NBUF]
  have eq: "binit s = binit_loop NBUF 0 ?s" by (simp add: binit_def Let_def)
  show "binit s = s\<lparr>bcache_lock := initlock ''bcache'', bufs := bufs (binit s)\<rparr>" using L by (simp add: eq upd_buf_def)
  show "lru (bufs (binit s)) (rev [0..<NBUF])" using L by (simp add: eq)
  show "core (bufs (binit s) ! a) = core (zero_buf\<lparr>b_lock := initsleeplock ''buffer''\<rparr>)" if "a < NBUF"
    using L that assms by (simp add: eq upd_buf_def nth_replicate del: replicate_Suc)
qed

lemma fresh_cache_inv:
  assumes "bufs s = replicate (Suc NBUF) zero_buf"
    and t: "bufs t = bufs (binit s)" "calm t" "cpu_proc (mycpu t) = Some p" "p < NPROC" "free_plocks (procs t)"
      "lock_free (bcache_lock t)" "\<forall>n<length (disk t). length (disk t ! n) = BSIZE" and dev: "dev \<noteq> 0"
  shows "cache_inv t dev p {} (\<lambda>_. 0)" "view t dev n = disk t ! unat n"
proof -
  note B = binit_spec [OF assms(1)]
  have b: "b_valid (bufs t ! a) = False" "b_dev (bufs t ! a) = 0" "b_refcnt (bufs t ! a) = 0"
    "b_lock (bufs t ! a) = initsleeplock ''buffer''" if "a < NBUF" for a
    using B(3) [OF that] by (simp_all add: t core_eq zero_buf_def)
  show "cache_inv t dev p {} (\<lambda>_. 0)"
    using t dev B(2) b by (auto simp: cache_inv_def buf_ok_def initsleeplock_def)
  show "view t dev n = disk t ! unat n" by (rule view_uncached) (auto simp: holds_block_def b)
qed

text \<open>A concrete state: process 0 runs on hart 0, all locks are free, and the cache is empty.\<close>

definition idle_proc :: proc where
  "idle_proc = \<lparr>p_lock = initlock ''proc'', p_state = UNUSED, p_chan = None, p_killed = 0, p_xstate = 0, p_pid = 0,
     p_parent = None, p_kstack = 0, p_sz = 0, p_pagetable = 0, p_trapframe = 0,
     p_context = \<lparr>ctx_ra = 0, ctx_sp = 0, ctx_s = []\<rparr>, p_ofile = replicate 16 None, p_cwd = None, p_name = [],
     p_trace_mask = 0\<rparr>"

definition boot_st :: "bytes list \<Rightarrow> 'a \<Rightarrow> 'a bio_st_scheme" where
  "boot_st d x = \<lparr>tp = 0, cpus = (\<lambda>_. \<lparr>cpu_proc = Some 0, noff = 0, intena = True\<rparr>), sie = (\<lambda>_. True),
     kend = 0, kmem_lock = initlock ''kmem'', freelist = 0, phys = (\<lambda>_. 0),
     etext = 0, trampoline = 0, kernel_pagetable = 0, satp = (\<lambda>_. 0),
     procs = replicate NPROC (idle_proc\<lparr>p_pid := 1, p_state := RUNNING\<rparr>), initproc = Some 0, nextpid = 2,
     pid_lock = initlock ''nextpid'', wait_lock = initlock ''wait_lock'', forkret_pc = 0,
     bcache_lock = initlock ''bcache'', bufs = replicate (Suc NBUF) zero_buf, disk = d, disk_writes = [], \<dots> = x\<rparr>"

lemma boot_hart [simp]: "calm (boot_st d x)" "cpu_proc (mycpu (boot_st d x)) = Some 0"
  by (simp_all add: boot_st_def calm_iff mycpu_def)

lemma boot_procs [simp]: "free_plocks (procs (boot_st d x))" "0 < NPROC"
  by (simp_all add: boot_st_def free_plocks_def idle_proc_def) (simp add: NPROC_def)

lemma boot_bufs: "bufs (boot_st d x) = replicate (Suc NBUF) zero_buf"
  by (simp add: boot_st_def del: replicate_Suc)

lemma boot_disk [simp]: "disk (boot_st d x) = d" "disk_writes (boot_st d x) = []"
  by (simp_all add: boot_st_def)

lemma binit_fields:
  assumes "bufs s = replicate (Suc NBUF) zero_buf"
  shows "calm (binit s) = calm s" "mycpu (binit s) = mycpu s" "procs (binit s) = procs s" "disk (binit s) = disk s"
    "lock_free (bcache_lock (binit s))"
proof -
  obtain bs where "binit s = s\<lparr>bcache_lock := initlock ''bcache'', bufs := bs\<rparr>" using binit_spec(1) [OF assms] by blast
  then show "calm (binit s) = calm s" "mycpu (binit s) = mycpu s" "procs (binit s) = procs s" "disk (binit s) = disk s"
    "lock_free (bcache_lock (binit s))" by simp_all
qed

lemma cache_inv_boot:
  "\<forall>n<length d. length (d ! n) = BSIZE \<Longrightarrow> cache_inv (binit (boot_st d x)) 1 0 {} (\<lambda>_. 0)"
  "\<forall>n<length d. length (d ! n) = BSIZE \<Longrightarrow> view (binit (boot_st d x)) 1 n = d ! unat n"
  using fresh_cache_inv [OF boot_bufs, of "binit (boot_st d x)" d x 0 1] by (simp_all add: binit_fields [OF boot_bufs])

section \<open>The cache as a disk\<close>

text \<open>
  C22: \<open>binit\<close> makes an empty cache: it links all buffers into the list of recently used buffers, the last
  buffer of the array at the front, and any later state in which a process runs, all locks are free and the
  buffers are still those of \<open>binit\<close> satisfies the invariant of the cache, in which every cached block is unique
  and what a reader sees is the disk.
\<close>

theorem binit_establishes:
  assumes "bufs s = replicate (Suc NBUF) zero_buf"
    and "bufs t = bufs (binit s)" "calm t" "cpu_proc (mycpu t) = Some p" "p < NPROC" "free_plocks (procs t)"
      "lock_free (bcache_lock t)" "\<forall>n<length (disk t). length (disk t ! n) = BSIZE" and "dev \<noteq> 0"
  shows "cache_inv t dev p {} (\<lambda>_. 0) \<and> lru (bufs t) (rev [0..<NBUF]) \<and> (\<forall>n. view t dev n = disk t ! unat n)"
  using fresh_cache_inv [OF assms] binit_spec(2) [OF assms(1)] assms(2) by simp

theorem binit_establishes_witness:
  "cache_inv (binit (boot_st [replicate BSIZE 0] ())) 1 0 {} (\<lambda>_. 0) \<and>
   lru (bufs (binit (boot_st [replicate BSIZE 0] ()))) (rev [0..<NBUF]) \<and>
   (\<forall>n. view (binit (boot_st [replicate BSIZE 0] ())) 1 n = disk (binit (boot_st [replicate BSIZE 0] ())) ! unat n)"
  by (rule binit_establishes [OF boot_bufs]) (simp_all add: binit_fields [OF boot_bufs])

text \<open>
  C7: \<open>bread\<close> returns a locked buffer that holds the current content of the block: what was last stored in a
  cached copy, else the block on the disk. It succeeds whenever a buffer is free or the block is cached, keeps
  the invariant, with the buffer now held, and changes neither the disk nor the content of any block.
\<close>

theorem bread_current:
  assumes "cache_inv s dev p H pins" "unat n < length (disk s)" "\<forall>b\<in>H. b_blockno (bufs s ! b) \<noteq> n"
    "(\<exists>b<NBUF. b \<notin> H \<and> pins b = 0) \<or> (\<exists>b<NBUF. holds_block dev n (bufs s ! b))"
  shows "\<exists>b t. bread dev n s = Ok (b, t) \<and> b \<notin> H \<and> cache_inv t dev p (insert b H) pins \<and>
    b_blockno (bufs t ! b) = n \<and> b_data (bufs t ! b) = view s dev n \<and>
    (\<forall>a\<in>H. bufs t ! a = bufs s ! a) \<and> disk t = disk s \<and> disk_writes t = disk_writes s \<and> (\<forall>m. view t dev m = view s dev m)"
proof -
  obtain b y where r: "b < NBUF" "b \<notin> H" "bread dev n s = Ok (b, s\<lparr>bufs := (bufs s)[b := y]\<rparr>)"
    "cache_inv (s\<lparr>bufs := (bufs s)[b := y]\<rparr>) dev p (insert b H) pins" "b_data y = view s dev n" "b_blockno y = n"
    "\<And>m. view (s\<lparr>bufs := (bufs s)[b := y]\<rparr>) dev m = view s dev m"
    by (rule bread_spec [OF assms]) blast
  moreover have "b < length (bufs s)" using r(1) cache_invD(6) [OF assms(1)] by simp
  ultimately show ?thesis by (intro exI [of _ b] exI [of _ "s\<lparr>bufs := (bufs s)[b := y]\<rparr>"]) (auto simp: nth_list_update)
qed

theorem bread_current_witness:
  "\<exists>b t. bread 1 0 (binit (boot_st [replicate BSIZE 7] ())) = Ok (b, t) \<and> b_data (bufs t ! b) = replicate BSIZE 7"
proof -
  have "\<exists>b<NBUF. b \<notin> {} \<and> (0::nat) = 0" by (intro exI [of _ 0]) (simp add: NBUF_def)
  then show ?thesis
    using bread_current [OF cache_inv_boot(1) [of "[replicate BSIZE 7]" "()"], of 0]
    by (auto simp: binit_fields [OF boot_bufs] cache_inv_boot)
qed

text \<open>How the clients of the cache change a block.\<close>

definition store_block :: "u32 \<Rightarrow> u32 \<Rightarrow> bytes \<Rightarrow> 'a bio_st_scheme \<Rightarrow> 'a bio_st_scheme outcome" where
  "store_block dev n d s =
     bnd (bread dev n s) (\<lambda>(b, s). bnd (bwrite b (upd_buf b (\<lambda>x. x\<lparr>b_data := d\<rparr>) s)) (brelse b))"

text \<open>
  C21: Storing a block: reading it, changing the data in the buffer, writing the buffer and releasing it
  succeeds, makes exactly one write to the disk, and afterwards the block on the disk and every later
  \<open>bread\<close> have the new content while the other blocks are unchanged.
\<close>

theorem store_block_effect:
  assumes "cache_inv s dev p H pins" "unat n < length (disk s)" "\<forall>b\<in>H. b_blockno (bufs s ! b) \<noteq> n"
    "(\<exists>b<NBUF. b \<notin> H \<and> pins b = 0) \<or> (\<exists>b<NBUF. holds_block dev n (bufs s ! b))" "length d = BSIZE"
  shows "\<exists>t. store_block dev n d s = Ok t \<and> cache_inv t dev p H pins \<and> disk t = (disk s)[unat n := d] \<and>
    disk_writes t = disk_writes s @ [(unat n, d)] \<and> (\<forall>m. view t dev m = (if m = n then d else view s dev m))"
proof -
  obtain b y where r: "b < NBUF" "b \<notin> H" "bread dev n s = Ok (b, s\<lparr>bufs := (bufs s)[b := y]\<rparr>)"
    "cache_inv (s\<lparr>bufs := (bufs s)[b := y]\<rparr>) dev p (insert b H) pins" "b_blockno y = n"
    "\<And>m. view (s\<lparr>bufs := (bufs s)[b := y]\<rparr>) dev m = view s dev m"
    by (rule bread_spec [OF assms(1-4)]) blast
  have len: "b < length (bufs s)" using r(1) cache_invD(6) [OF assms(1)] by simp
  let ?t = "s\<lparr>bufs := (bufs s)[b := y]\<rparr>"
  let ?u = "upd_buf b (\<lambda>x. x\<lparr>b_data := d\<rparr>) ?t"
  note S = set_data_spec [OF r(4) insertI1 assms(5)]
  have u: "b_blockno (bufs ?u ! b) = n" "b_data (bufs ?u ! b) = d" "disk ?u = disk s" "disk_writes ?u = disk_writes s"
    using len r(5) by (simp_all add: upd_buf_def)
  note W = bwrite_spec [OF S(1) insertI1, unfolded u]
  obtain v where v: "brelse b (wrote (unat n) d ?u) = Ok v" "cache_inv v dev p (insert b H - {b}) pins"
    "released b (wrote (unat n) d ?u) v" "\<And>m. view v dev m = view (wrote (unat n) d ?u) dev m"
    by (rule brelse_spec [OF W(2) insertI1]) (use u assms(2) in \<open>auto simp: wrote_def\<close>)
  have "store_block dev n d s = Ok v" by (simp add: store_block_def r(3) W(1) v(1))
  moreover have "insert b H - {b} = H" using r(2) by auto
  moreover have "disk v = (disk s)[unat n := d]" "disk_writes v = disk_writes s @ [(unat n, d)]"
    using v(3) u by (auto simp: released_def wrote_def)
  moreover have "view v dev m = (if m = n then d else view s dev m)" for m
    using v(4) W(3) S(2) r(5,6) len by simp
  ultimately show ?thesis using v(2) by auto
qed

theorem store_block_effect_witness:
  "\<exists>t. store_block 1 1 (replicate BSIZE 9) (binit (boot_st [replicate BSIZE 7, replicate BSIZE 8] ())) = Ok t \<and>
     disk t = [replicate BSIZE 7, replicate BSIZE 9] \<and> view t 1 1 = replicate BSIZE 9 \<and> view t 1 0 = replicate BSIZE 7"
proof -
  let ?d = "[replicate BSIZE 7, replicate BSIZE 8] :: bytes list"
  have "\<forall>n<length ?d. length (?d ! n) = BSIZE" by (auto simp: nth_Cons split: nat.splits)
  moreover have "\<exists>b<NBUF. b \<notin> {} \<and> (0::nat) = 0" by (intro exI [of _ 0]) (simp add: NBUF_def)
  ultimately show ?thesis
    using store_block_effect [OF cache_inv_boot(1) [of ?d "()"], of 1 "replicate BSIZE 9"] cache_inv_boot(2) [of ?d "()"]
    by (auto simp: binit_fields [OF boot_bufs])
qed

end
