(* ===== verification/Crash.thy ===== *)
theory Crash
  imports Log Bcache
begin

text \<open>
  The write-ahead log: what a commit writes to the disk, in which order, and that recovery after a crash at
  any point of it leaves either none or all of the transaction on the disk.
\<close>

section \<open>The pinned buffers of a transaction\<close>

text \<open>
  \<open>E\<close> is the set of blocks of the transaction, and \<open>loc e\<close> the buffer that holds block \<open>e\<close>: \<open>log_write\<close> has
  pinned it, so it stays there until the block is installed.
\<close>

definition pins_of :: "(u32 \<Rightarrow> nat) \<Rightarrow> u32 set \<Rightarrow> nat \<Rightarrow> nat" where
  "pins_of loc E b = (if b \<in> loc ` E then 1 else 0)"

definition located :: "'a bio_st_scheme \<Rightarrow> u32 \<Rightarrow> (u32 \<Rightarrow> nat) \<Rightarrow> u32 set \<Rightarrow> bool" where
  "located s dev loc E \<longleftrightarrow> (\<forall>e\<in>E. loc e < NBUF \<and> holds_block dev e (bufs s ! loc e))"

definition quiet :: "'a bio_st_scheme \<Rightarrow> u32 \<Rightarrow> nat \<Rightarrow> (u32 \<Rightarrow> nat) \<Rightarrow> u32 set \<Rightarrow> bool" where
  "quiet s dev p loc E \<longleftrightarrow> finite E \<and> cache_inv s dev p {} (pins_of loc E) \<and> located s dev loc E"

lemma located_same:
  "located s dev loc E \<Longrightarrow> (\<And>a. a < NBUF \<Longrightarrow> shows_same (bufs t ! a) (bufs s ! a)) \<Longrightarrow> located t dev loc E"
  by (simp add: located_def holds_block_def shows_same_def)

lemma located_refill:
  assumes "located s dev loc E" "pins_of loc E b \<noteq> 0 \<Longrightarrow> b_blockno (bufs s ! b) = n" "b_valid y" "b_dev y = dev" "b_blockno y = n"
    "b < length (bufs s)"
  shows "located (s\<lparr>bufs := (bufs s)[b := y]\<rparr>) dev loc E"
proof -
  have "holds_block dev e ((bufs s)[b := y] ! loc e)" if "e \<in> E" for e
  proof (cases "loc e = b")
    case True
    then have "b_blockno (bufs s ! b) = n" using assms(2) that by (auto simp: pins_of_def)
    then show ?thesis using True assms that by (auto simp: located_def holds_block_def)
  next
    case False
    then show ?thesis using assms(1) that by (simp add: located_def)
  qed
  then show ?thesis using assms(1) by (simp add: located_def)
qed

lemma located_unpinned: "located s dev loc E \<Longrightarrow> b_blockno (bufs s ! b) = n \<Longrightarrow> n \<notin> E \<Longrightarrow> pins_of loc E b = 0"
  by (auto simp: located_def pins_of_def holds_block_def)

lemma located_pinned:
  assumes "cache_inv s dev p H pins" "located s dev loc E" "b < NBUF" "b_dev (bufs s ! b) = dev" "b_blockno (bufs s ! b) = e" "e \<in> E"
  shows "b = loc e"
  using assms(2-) cache_invD(11) [OF assms(1), of b "loc e"] by (auto simp: located_def holds_block_def)

lemma pins_room:
  assumes "finite E" "finite H" "card E + card H < NBUF"
  shows "\<exists>b<NBUF. b \<notin> H \<and> pins_of loc E b = 0"
proof (rule ccontr)
  assume "\<not> ?thesis"
  then have "{0..<NBUF} \<subseteq> loc ` E \<union> H" by (auto simp: pins_of_def split: if_splits)
  then have "NBUF \<le> card (loc ` E \<union> H)" using card_mono [of "loc ` E \<union> H" "{0..<NBUF}"] assms by simp
  also have "\<dots> \<le> card E + card H" using card_Un_le [of "loc ` E" H] card_image_le [OF assms(1), of loc] by simp
  finally show False using assms(3) by simp
qed

text \<open>Of a block outside the transaction a reader sees what is on the disk.\<close>

lemma view_unpinned:
  assumes "quiet s dev p loc E" "k \<notin> E"
  shows "view s dev k = disk s ! unat k"
proof (rule view_disk)
  show "cache_inv s dev p {} (pins_of loc E)" using assms(1) by (simp add: quiet_def)
  have "located s dev loc E" using assms(1) by (simp add: quiet_def)
  then show "\<forall>b<NBUF. b_dev (bufs s ! b) = dev \<longrightarrow> b_blockno (bufs s ! b) = k \<longrightarrow> b \<notin> {} \<and> pins_of loc E b = 0"
    using located_unpinned [OF _ _ assms(2)] by blast
qed

section \<open>Copying a block\<close>

text \<open>The two blocks are read one after the other; the second may need a free buffer unless it is pinned.\<close>

lemma bread2:
  assumes q: "quiet s dev p loc E" and mn: "m \<noteq> n" "unat m < length (disk s)" "unat n < length (disk s)"
    and room: "card E + 1 < NBUF \<or> card E < NBUF \<and> (m \<in> E \<or> n \<in> E)"
  obtains a c s1 s2 where "bread dev m s = Ok (a, s1)" "bread dev n s1 = Ok (c, s2)"
    "cache_inv s2 dev p {a, c} (pins_of loc E)" "located s2 dev loc E" "a \<noteq> c"
    "b_blockno (bufs s2 ! a) = m" "b_blockno (bufs s2 ! c) = n" "b_data (bufs s2 ! a) = view s dev m"
    "b_data (bufs s2 ! c) = view s dev n" "bio_rest s1 = bio_rest s" "bio_rest s2 = bio_rest s"
    "disk s2 = disk s" "disk_writes s2 = disk_writes s" "\<And>k. view s2 dev k = view s dev k"
proof -
  have inv: "cache_inv s dev p {} (pins_of loc E)" and loc: "located s dev loc E" and fin: "finite E" using q by (auto simp: quiet_def)
  have "\<exists>b<NBUF. b \<notin> {} \<and> pins_of loc E b = 0" using pins_room [OF fin, of "{}"] room by auto
  then have room1: "(\<exists>b<NBUF. b \<notin> {} \<and> pins_of loc E b = 0) \<or> (\<exists>b<NBUF. holds_block dev m (bufs s ! b))" by blast
  obtain a y where A: "a < NBUF" "bread dev m s = Ok (a, s\<lparr>bufs := (bufs s)[a := y]\<rparr>)"
    "cache_inv (s\<lparr>bufs := (bufs s)[a := y]\<rparr>) dev p (insert a {}) (pins_of loc E)"
    "b_data y = view s dev m" "b_blockno y = m" "b_dev y = dev" "b_valid y"
    "\<And>k. view (s\<lparr>bufs := (bufs s)[a := y]\<rparr>) dev k = view s dev k" "pins_of loc E a \<noteq> 0 \<Longrightarrow> b_blockno (bufs s ! a) = m"
    by (rule bread_spec [OF inv mn(2) _ room1, simplified]) blast
  let ?s1 = "s\<lparr>bufs := (bufs s)[a := y]\<rparr>"
  have len: "length (bufs s) = Suc NBUF" using cache_invD(6) [OF inv] .
  have loc1: "located ?s1 dev loc E" by (rule located_refill [OF loc A(9)]) (use A len in auto)
  have room2: "(\<exists>b<NBUF. b \<notin> insert a {} \<and> pins_of loc E b = 0) \<or> (\<exists>b<NBUF. holds_block dev n (bufs ?s1 ! b))"
  proof -
    consider "card E + 1 < NBUF" | "card E < NBUF" "m \<in> E" | "n \<in> E" using room by blast
    then show ?thesis
    proof cases
      case 1
      then show ?thesis using pins_room [OF fin, of "{a}" loc] by auto
    next
      case 2
      have "a = loc m" by (rule located_pinned [OF A(3) loc1 A(1)]) (use A len 2 in auto)
      moreover obtain b where "b < NBUF" "pins_of loc E b = 0" using pins_room [OF fin, of "{}" loc] 2 by auto
      ultimately show ?thesis using 2 by (intro disjI1 exI [of _ b]) (auto simp: pins_of_def)
    next
      case 3
      then show ?thesis using loc1 by (intro disjI2 exI [of _ "loc n"]) (auto simp: located_def)
    qed
  qed
  have "\<forall>b\<in>insert a {}. b_blockno (bufs ?s1 ! b) \<noteq> n" "unat n < length (disk ?s1)" using A len mn by auto
  note R2 = bread_spec [OF A(3) this(2,1) room2]
  obtain c z where C: "c < NBUF" "c \<notin> insert a {}" "bread dev n ?s1 = Ok (c, ?s1\<lparr>bufs := (bufs ?s1)[c := z]\<rparr>)"
    "cache_inv (?s1\<lparr>bufs := (bufs ?s1)[c := z]\<rparr>) dev p (insert c (insert a {})) (pins_of loc E)"
    "b_data z = view ?s1 dev n" "b_blockno z = n" "b_dev z = dev" "b_valid z"
    "\<And>k. view (?s1\<lparr>bufs := (bufs ?s1)[c := z]\<rparr>) dev k = view ?s1 dev k" "pins_of loc E c \<noteq> 0 \<Longrightarrow> b_blockno (bufs ?s1 ! c) = n"
    by (rule R2) blast
  have "located (?s1\<lparr>bufs := (bufs ?s1)[c := z]\<rparr>) dev loc E" by (rule located_refill [OF loc1 C(10)]) (use C len in auto)
  then show ?thesis
    by (rule that [OF A(2) C(3), rotated]) (use A(1,4-8) C(1,2,4-9) len in \<open>simp_all add: insert_commute bio_rest_def\<close>)
qed

text \<open>Changing the data of a held buffer and writing it to the disk.\<close>

definition overwrite :: "nat \<Rightarrow> bytes \<Rightarrow> 'a bio_st_scheme \<Rightarrow> 'a bio_st_scheme" where
  "overwrite a d s = wrote (unat (b_blockno (bufs s ! a))) d (upd_buf a (\<lambda>x. x\<lparr>b_data := d\<rparr>) s)"

lemma overwrite_spec:
  assumes inv: "cache_inv s dev p H pins" and a: "a \<in> H" and d: "length d = BSIZE"
  shows "bwrite a (upd_buf a (\<lambda>x. x\<lparr>b_data := d\<rparr>) s) = Ok (overwrite a d s)" "cache_inv (overwrite a d s) dev p H pins"
    "view (overwrite a d s) dev k = (if k = b_blockno (bufs s ! a) then d else view s dev k)"
    "disk (overwrite a d s) = (disk s)[unat (b_blockno (bufs s ! a)) := d]"
    "disk_writes (overwrite a d s) = disk_writes s @ [(unat (b_blockno (bufs s ! a)), d)]"
    "bufs (overwrite a d s) ! c = (if c = a then (bufs s ! a)\<lparr>b_data := d\<rparr> else bufs s ! c)"
    "bio_rest (overwrite a d s) = bio_rest s"
    "located s dev loc E \<Longrightarrow> located (overwrite a d s) dev loc E"
proof -
  have len: "a < length (bufs s)" using held_buf(2) [OF inv a] .
  note S = set_data_spec [OF inv a d]
  let ?u = "upd_buf a (\<lambda>x. x\<lparr>b_data := d\<rparr>) s"
  have u: "b_blockno (bufs ?u ! a) = b_blockno (bufs s ! a)" "b_data (bufs ?u ! a) = d" using len by (simp_all add: upd_buf_def)
  note W = bwrite_spec [OF S(1) a, unfolded u, folded overwrite_def]
  show "bwrite a ?u = Ok (overwrite a d s)" "cache_inv (overwrite a d s) dev p H pins"
    "view (overwrite a d s) dev k = (if k = b_blockno (bufs s ! a) then d else view s dev k)" using W S(2) by simp_all
  show "disk (overwrite a d s) = (disk s)[unat (b_blockno (bufs s ! a)) := d]"
    "disk_writes (overwrite a d s) = disk_writes s @ [(unat (b_blockno (bufs s ! a)), d)]"
    "bio_rest (overwrite a d s) = bio_rest s"
    by (simp_all add: overwrite_def wrote_def upd_buf_def bio_rest_def)
  show b: "bufs (overwrite a d s) ! c = (if c = a then (bufs s ! a)\<lparr>b_data := d\<rparr> else bufs s ! c)" for c
    using len by (simp add: overwrite_def wrote_def upd_buf_def nth_list_update)
  show "located s dev loc E \<Longrightarrow> located (overwrite a d s) dev loc E"
    by (auto simp: located_def holds_block_def b)
qed

lemma brelse_step:
  assumes "cache_inv s dev p H pins" "located s dev loc E" "b \<in> H"
    "pins b = 0 \<Longrightarrow> b_data (bufs s ! b) = disk s ! unat (b_blockno (bufs s ! b))"
  obtains t where "brelse b s = Ok t" "cache_inv t dev p (H - {b}) pins" "located t dev loc E" "bio_rest t = bio_rest s"
    "disk t = disk s" "disk_writes t = disk_writes s" "\<And>k. view t dev k = view s dev k"
    "\<And>a. a < NBUF \<Longrightarrow> shows_same (bufs t ! a) (bufs s ! a)"
proof -
  obtain t where T: "brelse b s = Ok t" "cache_inv t dev p (H - {b}) pins" "released b s t" "\<And>k. view t dev k = view s dev k"
    by (rule brelse_spec [OF assms(1,3,4)]) blast+
  have sh: "shows_same (bufs t ! a) (bufs s ! a)" if "a < NBUF" for a using T(3) that by (simp add: released_def)
  show ?thesis
    by (rule that [OF T(1,2) located_same [OF assms(2) sh]]) (use T(3,4) in \<open>auto simp: released_def\<close>)
qed

text \<open>One step of \<open>write_log\<close>: block \<open>e\<close> of the transaction goes to block \<open>m\<close> of the log.\<close>

lemma write_log_step:
  assumes q: "quiet s dev p loc E" and m: "m \<notin> E" "unat m < length (disk s)" and e: "e \<in> E" "unat e < length (disk s)"
    and room: "card E < NBUF"
  obtains a c s1 s2 s3 t where "bread dev m s = Ok (a, s1)" "bread dev e s1 = Ok (c, s2)" "bio_rest s1 = bio_rest s"
    "bwrite a (upd_buf a (\<lambda>x. x\<lparr>b_data := b_data (bufs s2 ! c)\<rparr>) s2) = Ok (overwrite a (b_data (bufs s2 ! c)) s2)"
    "brelse c (overwrite a (b_data (bufs s2 ! c)) s2) = Ok s3" "brelse a s3 = Ok t"
    "quiet t dev p loc E" "bio_rest t = bio_rest s" "disk t = (disk s)[unat m := view s dev e]"
    "disk_writes t = disk_writes s @ [(unat m, view s dev e)]"
    "\<And>k. view t dev k = (if k = m then view s dev e else view s dev k)"
proof -
  have fin: "finite E" using q by (simp add: quiet_def)
  have "m \<noteq> e" "card E + 1 < NBUF \<or> card E < NBUF \<and> (m \<in> E \<or> e \<in> E)" using m e room by auto
  then obtain a c s1 s2 where R: "bread dev m s = Ok (a, s1)" "bread dev e s1 = Ok (c, s2)"
    "cache_inv s2 dev p {a, c} (pins_of loc E)" "located s2 dev loc E" "a \<noteq> c"
    "b_blockno (bufs s2 ! a) = m" "b_blockno (bufs s2 ! c) = e" "b_data (bufs s2 ! c) = view s dev e"
    "bio_rest s1 = bio_rest s" "bio_rest s2 = bio_rest s"
    "disk s2 = disk s" "disk_writes s2 = disk_writes s" "\<And>k. view s2 dev k = view s dev k"
    using m(2) e(2) by (elim bread2 [OF q]) blast+
  have d: "length (view s dev e) = BSIZE" using held_buf(6) [OF R(3), of c] R(8) by simp
  note O = overwrite_spec [OF R(3) insertI1 d, unfolded R(6)]
  have pc: "pins_of loc E c \<noteq> 0" using located_pinned [OF R(3,4) _ _ R(7) e(1)] held_buf(1,4) [OF R(3), of c] e(1) by (auto simp: pins_of_def)
  have pa: "pins_of loc E a = 0" using located_unpinned [OF R(4,6) m(1)] .
  have al: "a < NBUF" using held_buf(1) [OF R(3), of a] by simp
  obtain s3 where C: "brelse c (overwrite a (view s dev e) s2) = Ok s3" "cache_inv s3 dev p ({a, c} - {c}) (pins_of loc E)"
    "located s3 dev loc E" "bio_rest s3 = bio_rest s" "disk s3 = (disk s)[unat m := view s dev e]"
    "disk_writes s3 = disk_writes s @ [(unat m, view s dev e)]" "\<And>k. view s3 dev k = (if k = m then view s dev e else view s dev k)"
    "b_data (bufs s3 ! a) = view s dev e" "b_blockno (bufs s3 ! a) = m"
    by (rule brelse_step [OF O(2) O(8) [OF R(4)], of c])
      (use pc al O R(5,6,10-13) in \<open>auto simp: shows_same_def\<close>)
  obtain t where T: "brelse a s3 = Ok t" "cache_inv t dev p ({a, c} - {c} - {a}) (pins_of loc E)"
    "located t dev loc E" "bio_rest t = bio_rest s3" "disk t = disk s3" "disk_writes t = disk_writes s3"
    "\<And>k. view t dev k = view s3 dev k"
    by (rule brelse_step [OF C(2,3), of a]) (use R(5) C(5,8,9) m(2) in auto)
  have e0: "{a, c} - {c} - {a} = {}" by auto
  have "quiet t dev p loc E" using T(2,3) fin unfolding e0 by (simp add: quiet_def)
  then show ?thesis
    by (rule that [OF R(1,2,9), rotated 3]) (use T C(1,4-7) O(1) R(8) in auto)
qed

text \<open>
  One step of \<open>install_trans\<close>: block \<open>m\<close> of the log goes to its home block \<open>e\<close>, which is unpinned unless this is
  a recovery.
\<close>

lemma located_inj: "located s dev loc E \<Longrightarrow> inj_on loc E"
  by (rule inj_on_inverseI [where g = "\<lambda>b. b_blockno (bufs s ! b)"]) (simp add: located_def holds_block_def)

lemma pins_of_remove:
  assumes "located s dev loc E" "e \<in> E"
  shows "(pins_of loc E)(loc e := 0) = pins_of loc (E - {e})"
proof -
  have "loc ` (E - {e}) = loc ` E - {loc e}"
    using inj_on_image_set_diff [OF located_inj [OF assms(1)], of E "{e}"] assms(2) by auto
  then show ?thesis by (simp add: pins_of_def fun_eq_iff)
qed

lemma located_subset: "located s dev loc E \<Longrightarrow> F \<subseteq> E \<Longrightarrow> located s dev loc F"
  unfolding located_def by blast

lemma install_unpin:
  assumes inv: "cache_inv s dev p H (pins_of loc E)" and loc: "located s dev loc E" and c: "c \<in> H" "b_blockno (bufs s ! c) = e"
    and rec: "if recovering then e \<notin> E else e \<in> E"
  obtains t where "(if \<not> recovering then bunpin c s else Ok s) = Ok t" "cache_inv t dev p H (pins_of loc (E - {e}))"
    "located t dev loc (E - {e})" "bio_rest t = bio_rest s" "disk t = disk s" "disk_writes t = disk_writes s"
    "\<And>k. view t dev k = view s dev k" "\<And>b. shows_same (bufs t ! b) (bufs s ! b)"
proof (cases recovering)
  case True
  then have "E - {e} = E" using rec by auto
  then show ?thesis using True inv loc by (intro that [of s]) (simp_all add: shows_same_def)
next
  case False
  then have e: "e \<in> E" using rec by simp
  note B = held_buf [OF inv c(1)]
  have cl: "c = loc e" by (rule located_pinned [OF inv loc B(1,4) c(2) e])
  have "pins_of loc E c = Suc 0" using cl e by (simp add: pins_of_def)
  note U = bunpin_spec [OF inv c(1) this, unfolded cl pins_of_remove [OF loc e]]
  let ?t = "upd_buf (loc e) (\<lambda>x. x\<lparr>b_refcnt := b_refcnt x - 1\<rparr>) s"
  have sh: "shows_same (bufs ?t ! b) (bufs s ! b)" for b
    using B(2) cl by (simp add: upd_buf_def nth_list_update shows_same_def)
  have "located ?t dev loc (E - {e})" using located_subset [OF located_same [OF loc sh]] by blast
  moreover have "bio_rest ?t = bio_rest s" "disk ?t = disk s" "disk_writes ?t = disk_writes s" by (simp_all add: upd_buf_def bio_rest_def)
  ultimately show ?thesis using that [of ?t] False U sh cl by simp
qed

lemma install_step:
  assumes q: "quiet s dev p loc E" and m: "m \<notin> E" "m \<noteq> e" "unat m < length (disk s)" and e: "unat e < length (disk s)"
    and rec: "if recovering then e \<notin> E else e \<in> E" and room: "card E + 1 < NBUF \<or> card E < NBUF \<and> e \<in> E"
  obtains a c s1 s2 s3 s4 t where "bread dev m s = Ok (a, s1)" "bread dev e s1 = Ok (c, s2)" "bio_rest s1 = bio_rest s"
    "bwrite c (upd_buf c (\<lambda>x. x\<lparr>b_data := b_data (bufs s2 ! a)\<rparr>) s2) = Ok (overwrite c (b_data (bufs s2 ! a)) s2)"
    "(if \<not> recovering then bunpin c (overwrite c (b_data (bufs s2 ! a)) s2) else Ok (overwrite c (b_data (bufs s2 ! a)) s2)) = Ok s3"
    "brelse a s3 = Ok s4" "brelse c s4 = Ok t"
    "quiet t dev p loc (E - {e})" "bio_rest t = bio_rest s" "disk t = (disk s)[unat e := view s dev m]"
    "disk_writes t = disk_writes s @ [(unat e, view s dev m)]"
    "\<And>k. view t dev k = (if k = e then view s dev m else view s dev k)"
proof -
  have fin: "finite E" using q by (simp add: quiet_def)
  have "card E + 1 < NBUF \<or> card E < NBUF \<and> (m \<in> E \<or> e \<in> E)" using room by auto
  with m(2) obtain a c s1 s2 where R: "bread dev m s = Ok (a, s1)" "bread dev e s1 = Ok (c, s2)"
    "cache_inv s2 dev p {a, c} (pins_of loc E)" "located s2 dev loc E" "a \<noteq> c"
    "b_blockno (bufs s2 ! a) = m" "b_blockno (bufs s2 ! c) = e" "b_data (bufs s2 ! a) = view s dev m"
    "bio_rest s1 = bio_rest s" "bio_rest s2 = bio_rest s"
    "disk s2 = disk s" "disk_writes s2 = disk_writes s" "\<And>k. view s2 dev k = view s dev k"
    using m(3) e by (elim bread2 [OF q]) blast+
  have d: "length (view s dev m) = BSIZE" using held_buf(6) [OF R(3), of a] R(8) by simp
  have ac: "a \<in> {a, c}" "c \<in> {a, c}" "a < NBUF" "c < NBUF" using held_buf(1) [OF R(3)] by auto
  note O = overwrite_spec [OF R(3) ac(2) d, unfolded R(7)]
  let ?o = "overwrite c (view s dev m) s2"
  have oc: "b_blockno (bufs ?o ! c) = e" using O(6) R(7) by simp
  obtain s3 where U: "(if \<not> recovering then bunpin c ?o else Ok ?o) = Ok s3" "cache_inv s3 dev p {a, c} (pins_of loc (E - {e}))"
    "located s3 dev loc (E - {e})" "bio_rest s3 = bio_rest s" "disk s3 = (disk s)[unat e := view s dev m]"
    "disk_writes s3 = disk_writes s @ [(unat e, view s dev m)]"
    "\<And>k. view s3 dev k = (if k = e then view s dev m else view s dev k)" "\<And>b. shows_same (bufs s3 ! b) (bufs ?o ! b)"
    by (rule install_unpin [OF O(2) O(8) [OF R(4)] ac(2) oc rec]) (use O R(10-13) in auto)
  have ma: "view s dev m = disk s ! unat m" by (rule view_unpinned [OF q m(1)])
  have ne: "unat e \<noteq> unat m" using m(2) by (simp add: word_unat_eq_iff)
  have s3: "b_data (bufs s3 ! a) = view s dev m" "b_blockno (bufs s3 ! a) = m" "b_data (bufs s3 ! c) = view s dev m"
    "b_blockno (bufs s3 ! c) = e" using U(8) O(6) R(5-8) by (auto simp: shows_same_def)
  obtain s4 where A: "brelse a s3 = Ok s4" "cache_inv s4 dev p ({a, c} - {a}) (pins_of loc (E - {e}))"
    "located s4 dev loc (E - {e})" "bio_rest s4 = bio_rest s3" "disk s4 = disk s3" "disk_writes s4 = disk_writes s3"
    "\<And>k. view s4 dev k = view s3 dev k" "b_data (bufs s4 ! c) = view s dev m" "b_blockno (bufs s4 ! c) = e"
    by (rule brelse_step [OF U(2,3) ac(1)]) (use ac s3 U(5) ma ne in \<open>auto simp: shows_same_def\<close>)
  obtain t where T: "brelse c s4 = Ok t" "cache_inv t dev p ({a, c} - {a} - {c}) (pins_of loc (E - {e}))"
    "located t dev loc (E - {e})" "bio_rest t = bio_rest s4" "disk t = disk s4" "disk_writes t = disk_writes s4"
    "\<And>k. view t dev k = view s4 dev k"
    by (rule brelse_step [OF A(2,3), of c]) (use R(5) A(5,8,9) U(5) e in auto)
  have e0: "{a, c} - {a} - {c} = {}" by auto
  have "quiet t dev p loc (E - {e})" using T(2,3) fin unfolding e0 by (simp add: quiet_def)
  then show ?thesis
    by (rule that [OF R(1,2,9), unfolded R(8), OF O(1) U(1) A(1) T(1)]) (simp_all add: T(4-7) A(4-7) U(4-7))
qed

section \<open>The loops of a commit\<close>

lemma bio_rest_log: "bio_rest t = bio_rest s \<Longrightarrow> log t = log s"
proof -
  assume "bio_rest t = bio_rest s"
  then have "log (bio_rest t) = log (bio_rest s)" by simp
  then show ?thesis by (simp add: bio_rest_def)
qed

definition apply_writes :: "(nat \<times> bytes) list \<Rightarrow> bytes list \<Rightarrow> bytes list" where
  "apply_writes ws D = fold (\<lambda>(n, d) D. D[n := d]) ws D"

lemma apply_writes_simps [simp]:
  "apply_writes [] D = D" "apply_writes ((n, d) # ws) D = apply_writes ws (D[n := d])"
  "apply_writes (us @ ws) D = apply_writes ws (apply_writes us D)"
  by (simp_all add: apply_writes_def)

lemma length_apply_writes [simp]: "length (apply_writes ws D) = length D"
  by (induction ws arbitrary: D) auto

lemma apply_writes_other: "k \<notin> fst ` set ws \<Longrightarrow> apply_writes ws D ! k = D ! k"
  by (induction ws arbitrary: D) auto

lemma apply_writes_in:
  "(k, d) \<in> set ws \<Longrightarrow> distinct (map fst ws) \<Longrightarrow> k < length D \<Longrightarrow> apply_writes ws D ! k = d"
proof (induction ws arbitrary: D)
  case (Cons w ws)
  show ?case
  proof (cases "w = (k, d)")
    case True
    then have "k \<notin> fst ` set ws" using Cons.prems(2) by auto
    then show ?thesis using True Cons.prems(3) by (simp add: apply_writes_other)
  next
    case False
    then have "(k, d) \<in> set ws" using Cons.prems(1) by simp
    then show ?thesis using Cons.IH [of "D[fst w := snd w]"] Cons.prems by (cases w) simp
  qed
qed simp

text \<open>
  The number of log block \<open>i\<close>, and the layout of the disk that the log needs. The log is the \<open>sz\<close> blocks from
  \<open>start\<close> on, \<open>sb.nlog\<close> and \<open>sb.logstart\<close> of the superblock: the header and \<open>sz - 1\<close> blocks for the transaction. On the
  disks of mkfs these are blocks 2 to 31, and block 32 is the first of the inodes.
\<close>

definition logno :: "u32 \<Rightarrow> nat \<Rightarrow> u32" where
  "logno start i = start + of_nat i + 1"

definition in_log :: "u32 \<Rightarrow> nat \<Rightarrow> nat \<Rightarrow> bool" where
  "in_log start sz k \<longleftrightarrow> unat start \<le> k \<and> k < unat start + sz"

definition log_fits :: "u32 \<Rightarrow> nat \<Rightarrow> bytes list \<Rightarrow> bool" where
  "log_fits start sz D \<longleftrightarrow> 0 < sz \<and> unat start + sz \<le> length D \<and> length D \<le> 2 ^ 32"

lemma unat_logno:
  assumes "log_fits start sz D" "Suc i < sz"
  shows "unat (logno start i) = unat start + i + 1"
proof -
  have b: "unat start + Suc i < 2 ^ 32" using assms by (simp add: log_fits_def)
  then have "unat (start + of_nat i) = unat start + i" using unat_add_of_nat [of start i] by simp
  moreover have "unat (start + of_nat i + 1) = unat (start + of_nat i) + 1"
    using unat_add_of_nat [of "start + of_nat i" 1] calculation b by simp
  ultimately show ?thesis by (simp add: logno_def)
qed

lemma logno_in_log: "log_fits start sz D \<Longrightarrow> Suc i < sz \<Longrightarrow> in_log start sz (unat (logno start i))"
  by (simp add: unat_logno in_log_def)

lemma log_fitsD:
  assumes "log_fits start sz D"
  shows "0 < sz" "unat start < length D" "in_log start sz (unat start)"
  using assms by (simp_all add: log_fits_def in_log_def)

text \<open>The size of the log on the disk, with its header.\<close>

abbreviation logsz :: "'a log_st_scheme \<Rightarrow> nat" where
  "logsz s \<equiv> nat (lg_size (log s))"

lemma write_log_loop_spec:
  assumes q: "quiet s dev p loc E" and fits: "log_fits start sz (disk s)" and room: "card E < NBUF"
    and lg: "lg_dev (log s) = dev" "lg_start (log s) = start" "lh_block (log s) = es"
    and es: "\<forall>i<tail + n. es ! i \<in> E" and E: "\<forall>e\<in>E. unat e < length (disk s) \<and> \<not> in_log start sz (unat e)" and n: "tail + n < sz"
  shows "\<exists>t. write_log_loop n tail s = Ok t \<and> quiet t dev p loc E \<and> bio_rest t = bio_rest s \<and>
    disk t = apply_writes (map (\<lambda>i. (unat start + i + 1, view s dev (es ! i))) [tail..<tail + n]) (disk s) \<and>
    disk_writes t = disk_writes s @ map (\<lambda>i. (unat start + i + 1, view s dev (es ! i))) [tail..<tail + n] \<and>
    (\<forall>k. \<not> in_log start sz (unat k) \<longrightarrow> view t dev k = view s dev k)"
  using q fits lg es E n
proof (induction n arbitrary: s tail)
  case 0
  then show ?case by auto
next
  case (Suc n)
  let ?m = "logno start tail" and ?e = "es ! tail"
  have tl: "Suc tail < sz" using Suc.prems(8) by simp
  have um: "unat ?m = unat start + tail + 1" by (rule unat_logno [OF Suc.prems(2) tl])
  have m: "?m \<notin> E" "unat ?m < length (disk s)"
    using logno_in_log [OF Suc.prems(2) tl] Suc.prems(7) um Suc.prems(2) tl by (auto simp: log_fits_def)
  have e: "?e \<in> E" "unat ?e < length (disk s)" using Suc.prems(6,7) by auto
  obtain a c s1 s2 s3 t where st: "bread dev ?m s = Ok (a, s1)" "bread dev ?e s1 = Ok (c, s2)" "bio_rest s1 = bio_rest s"
    "bwrite a (upd_buf a (\<lambda>x. x\<lparr>b_data := b_data (bufs s2 ! c)\<rparr>) s2) = Ok (overwrite a (b_data (bufs s2 ! c)) s2)"
    "brelse c (overwrite a (b_data (bufs s2 ! c)) s2) = Ok s3" "brelse a s3 = Ok t"
    and t: "quiet t dev p loc E" "bio_rest t = bio_rest s" "disk t = (disk s)[unat ?m := view s dev ?e]"
    "disk_writes t = disk_writes s @ [(unat ?m, view s dev ?e)]"
    "\<And>k. view t dev k = (if k = ?m then view s dev ?e else view s dev k)"
    by (rule write_log_step [OF Suc.prems(1) m e room]) blast
  have eq: "write_log_loop (Suc n) tail s = write_log_loop n (Suc tail) t"
    using st bio_rest_log [OF st(3)] Suc.prems(3-5) by (simp add: logno_def Let_def)
  have lt: "log t = log s" by (rule bio_rest_log [OF t(2)])
  have vw: "view t dev (es ! i) = view s dev (es ! i)" if "i < tail + Suc n" for i
    using t(5) m(1) Suc.prems(6) that by auto
  have up: "[tail..<tail + Suc n] = tail # [Suc tail..<Suc tail + n]" by (simp add: upt_conv_Cons del: upt_Suc)
  have mp: "map (\<lambda>i. (unat start + i + 1, view t dev (es ! i))) [Suc tail..<Suc tail + n] =
      map (\<lambda>i. (unat start + i + 1, view s dev (es ! i))) [Suc tail..<Suc tail + n]" by (intro map_cong) (auto simp: vw)
  have "\<exists>u. write_log_loop n (Suc tail) t = Ok u \<and> quiet u dev p loc E \<and> bio_rest u = bio_rest t \<and>
    disk u = apply_writes (map (\<lambda>i. (unat start + i + 1, view t dev (es ! i))) [Suc tail..<Suc tail + n]) (disk t) \<and>
    disk_writes u = disk_writes t @ map (\<lambda>i. (unat start + i + 1, view t dev (es ! i))) [Suc tail..<Suc tail + n] \<and>
    (\<forall>k. \<not> in_log start sz (unat k) \<longrightarrow> view u dev k = view t dev k)"
    by (rule Suc.IH) (use t lt Suc.prems in \<open>simp_all add: log_fits_def\<close>)
  moreover have "view t dev k = view s dev k" if "\<not> in_log start sz (unat k)" for k
    using t(5) logno_in_log [OF Suc.prems(2) tl] that by auto
  ultimately show ?case unfolding eq up mp list.map apply_writes_simps t(2,3,4) um by simp
qed

text \<open>The blocks that are pinned while \<open>install_trans\<close> works on entry \<open>tail\<close>.\<close>

definition left :: "bool \<Rightarrow> nat \<Rightarrow> u32 list \<Rightarrow> u32 set" where
  "left recovering tail L = (if recovering then {} else set (drop tail L))"

lemma left_step:
  assumes "tail < length L" "\<not> recovering \<Longrightarrow> distinct L"
  shows "left recovering tail L - {L ! tail} = left recovering (Suc tail) L"
    "if recovering then L ! tail \<notin> left recovering tail L else L ! tail \<in> left recovering tail L"
proof -
  have d: "drop tail L = L ! tail # drop (Suc tail) L" using assms(1) by (simp add: Cons_nth_drop_Suc)
  have "L ! tail \<notin> set (drop (Suc tail) L)" if "\<not> recovering"
    using distinct_drop [OF assms(2) [OF that], of tail] d by simp
  then show "left recovering tail L - {L ! tail} = left recovering (Suc tail) L" by (simp add: left_def d)
  show "if recovering then L ! tail \<notin> left recovering tail L else L ! tail \<in> left recovering tail L"
    by (simp add: left_def d)
qed

lemma left_card: "length L < NBUF \<Longrightarrow> card (left recovering tail L) < NBUF"
  using card_length [of "drop tail L"] by (cases recovering) (simp_all add: left_def)

lemma install_loop_spec:
  assumes q: "quiet s dev p loc (left recovering tail L)" and fits: "log_fits start sz (disk s)"
    and lg: "lg_dev (log s) = dev" "lg_start (log s) = start" "take (length L) (lh_block (log s)) = L"
    and L: "\<not> recovering \<Longrightarrow> distinct L \<and> length L < NBUF" "length L < sz" "tail + n = length L"
    and E: "\<forall>e\<in>set L. unat e < length (disk s) \<and> \<not> in_log start sz (unat e)"
  shows "\<exists>t. install_trans_loop n tail recovering s = Ok t \<and> quiet t dev p loc {} \<and> bio_rest t = bio_rest s \<and>
    disk t = apply_writes (map (\<lambda>i. (unat (L ! i), view s dev (logno start i))) [tail..<length L]) (disk s) \<and>
    disk_writes t = disk_writes s @ map (\<lambda>i. (unat (L ! i), view s dev (logno start i))) [tail..<length L] \<and>
    (\<forall>k. k \<notin> set (drop tail L) \<longrightarrow> view t dev k = view s dev k)"
  using q fits lg L(3) E
proof (induction n arbitrary: s tail)
  case 0
  then show ?case by (cases recovering) (auto simp: left_def)
next
  case (Suc n)
  let ?m = "logno start tail" and ?e = "L ! tail" and ?E = "left recovering tail L"
  have tl: "tail < length L" "Suc tail < sz" using Suc.prems(6) L(2) by simp_all
  have um: "unat ?m = unat start + tail + 1" by (rule unat_logno [OF Suc.prems(2) tl(2)])
  have ei: "?e \<in> set L" using tl by simp
  then have e: "unat ?e < length (disk s)" "\<not> in_log start sz (unat ?e)" using Suc.prems(7) by auto
  have mL: "?m \<notin> set L" using logno_in_log [OF Suc.prems(2) tl(2)] Suc.prems(7) by auto
  then have m: "?m \<notin> ?E" "?m \<noteq> ?e" "unat ?m < length (disk s)"
    using um Suc.prems(2) tl ei by (auto simp: left_def log_fits_def dest: in_set_dropD)
  note S = left_step [OF tl(1), of recovering]
  have room: "card ?E + 1 < NBUF \<or> card ?E < NBUF \<and> ?e \<in> ?E"
    using S(2) L(1) left_card [of L recovering tail] by (cases recovering) (auto simp: left_def NBUF_def)
  have rec: "if recovering then ?e \<notin> ?E else ?e \<in> ?E" using S(2) L(1) by blast
  obtain a c s1 s2 s3 s4 t where st: "bread dev ?m s = Ok (a, s1)" "bread dev ?e s1 = Ok (c, s2)" "bio_rest s1 = bio_rest s"
    "bwrite c (upd_buf c (\<lambda>x. x\<lparr>b_data := b_data (bufs s2 ! a)\<rparr>) s2) = Ok (overwrite c (b_data (bufs s2 ! a)) s2)"
    "(if \<not> recovering then bunpin c (overwrite c (b_data (bufs s2 ! a)) s2) else Ok (overwrite c (b_data (bufs s2 ! a)) s2)) = Ok s3"
    "brelse a s3 = Ok s4" "brelse c s4 = Ok t"
    and t: "quiet t dev p loc (?E - {?e})" "bio_rest t = bio_rest s" "disk t = (disk s)[unat ?e := view s dev ?m]"
    "disk_writes t = disk_writes s @ [(unat ?e, view s dev ?m)]"
    "\<And>k. view t dev k = (if k = ?e then view s dev ?m else view s dev k)"
    by (rule install_step [OF Suc.prems(1) m e(1) rec room]) blast
  have lb: "lh_block (log s) ! tail = ?e" using Suc.prems(5) tl(1) by (metis nth_take)
  have eq: "install_trans_loop (Suc n) tail recovering s = install_trans_loop n (Suc tail) recovering t"
    using st bio_rest_log [OF st(3)] Suc.prems(3,4) lb by (simp add: logno_def Let_def)
  have lt: "log t = log s" by (rule bio_rest_log [OF t(2)])
  have vw: "view t dev (logno start i) = view s dev (logno start i)" if "Suc i < sz" for i
    using t(5) e(2) logno_in_log [OF Suc.prems(2) that] by auto
  have up: "[tail..<length L] = tail # [Suc tail..<length L]" using tl(1) by (simp add: upt_conv_Cons)
  have mp: "map (\<lambda>i. (unat (L ! i), view t dev (logno start i))) [Suc tail..<length L] =
      map (\<lambda>i. (unat (L ! i), view s dev (logno start i))) [Suc tail..<length L]" using L(2) by (intro map_cong) (auto simp: vw)
  have "\<exists>u. install_trans_loop n (Suc tail) recovering t = Ok u \<and> quiet u dev p loc {} \<and> bio_rest u = bio_rest t \<and>
    disk u = apply_writes (map (\<lambda>i. (unat (L ! i), view t dev (logno start i))) [Suc tail..<length L]) (disk t) \<and>
    disk_writes u = disk_writes t @ map (\<lambda>i. (unat (L ! i), view t dev (logno start i))) [Suc tail..<length L] \<and>
    (\<forall>k. k \<notin> set (drop (Suc tail) L) \<longrightarrow> view u dev k = view t dev k)"
    by (rule Suc.IH) (use t lt S(1) L(1) Suc.prems in \<open>simp_all add: log_fits_def\<close>)
  moreover have "set (drop tail L) = insert ?e (set (drop (Suc tail) L))" using tl(1) by (metis Cons_nth_drop_Suc list.simps(15))
  ultimately show ?case unfolding eq up mp list.map apply_writes_simps t(2,3,4) using t(5) by auto
qed

section \<open>The header of the log\<close>

fun puts :: "nat \<Rightarrow> nat \<Rightarrow> u32 list \<Rightarrow> bytes \<Rightarrow> bytes" where
  "puts 0 i es d = d"
| "puts (Suc n) i es d = puts n (Suc i) es (put32 d (4 + 4 * i) (es ! i))"

lemma length_puts: "4 + 4 * (i + n) \<le> length d \<Longrightarrow> length (puts n i es d) = length d"
  by (induction n arbitrary: i d) simp_all

lemma get32_puts_other: "4 + 4 * (i + n) \<le> length d \<Longrightarrow> k + 4 \<le> 4 + 4 * i \<Longrightarrow> get32 (puts n i es d) k = get32 d k"
  by (induction n arbitrary: i d) simp_all

lemma get32_puts: "4 + 4 * (i + n) \<le> length d \<Longrightarrow> j < n \<Longrightarrow> get32 (puts n i es d) (4 + 4 * (i + j)) = es ! (i + j)"
proof (induction n arbitrary: i d j)
  case (Suc n)
  show ?case
  proof (cases j)
    case 0
    then show ?thesis using Suc.prems by (simp add: get32_puts_other)
  next
    case (Suc k)
    then show ?thesis using Suc.IH [of "Suc i" "put32 d (4 + 4 * i) (es ! i)" k] Suc.prems by simp
  qed
qed simp

definition head_block :: "nat \<Rightarrow> u32 list \<Rightarrow> bytes \<Rightarrow> bytes" where
  "head_block n es d = puts n 0 es (put32 d 0 (of_nat n))"

lemma head_block_spec:
  assumes "length d = BSIZE" "n \<le> LOGSIZE"
  shows "length (head_block n es d) = BSIZE" "get32 (head_block n es d) 0 = of_nat n"
    "j < n \<Longrightarrow> get32 (head_block n es d) (4 + 4 * j) = es ! j"
  using assms get32_puts [of 0 n "put32 d 0 (of_nat n)" j es]
  by (simp_all add: head_block_def length_puts get32_puts_other BSIZE_def LOGSIZE_def)

lemma write_head_loop_eq:
  "b < length (bufs s) \<Longrightarrow>
   write_head_loop n i b s = upd_buf b (\<lambda>x. x\<lparr>b_data := puts n i (lh_block (log s)) (b_data x)\<rparr>) s"
proof (induction n arbitrary: i s)
  case 0
  then show ?case by (simp add: upd_buf_def)
next
  case (Suc n)
  then show ?case by (simp add: upd_buf_def)
qed

lemma bread1:
  assumes q: "quiet s dev p loc E" and n: "unat n < length (disk s)" and room: "card E < NBUF"
  obtains b t where "bread dev n s = Ok (b, t)" "cache_inv t dev p {b} (pins_of loc E)" "located t dev loc E"
    "b_blockno (bufs t ! b) = n" "b_data (bufs t ! b) = view s dev n" "bio_rest t = bio_rest s" "disk t = disk s"
    "disk_writes t = disk_writes s" "\<And>k. view t dev k = view s dev k"
proof -
  have inv: "cache_inv s dev p {} (pins_of loc E)" and loc: "located s dev loc E" and fin: "finite E" using q by (auto simp: quiet_def)
  have room1: "(\<exists>b<NBUF. b \<notin> {} \<and> pins_of loc E b = 0) \<or> (\<exists>b<NBUF. holds_block dev n (bufs s ! b))"
    using pins_room [OF fin, of "{}"] room by auto
  obtain b y where B: "b < NBUF" "bread dev n s = Ok (b, s\<lparr>bufs := (bufs s)[b := y]\<rparr>)"
    "cache_inv (s\<lparr>bufs := (bufs s)[b := y]\<rparr>) dev p {b} (pins_of loc E)"
    "b_data y = view s dev n" "b_blockno y = n" "b_dev y = dev" "b_valid y"
    "\<And>k. view (s\<lparr>bufs := (bufs s)[b := y]\<rparr>) dev k = view s dev k" "pins_of loc E b \<noteq> 0 \<Longrightarrow> b_blockno (bufs s ! b) = n"
    by (rule bread_spec [OF inv n _ room1, simplified]) blast
  have len: "length (bufs s) = Suc NBUF" using cache_invD(6) [OF inv] .
  have "located (s\<lparr>bufs := (bufs s)[b := y]\<rparr>) dev loc E" by (rule located_refill [OF loc B(9)]) (use B len in auto)
  then show ?thesis by (rule that [OF B(2,3)]) (use B(1,4-8) len in \<open>simp_all add: bio_rest_def\<close>)
qed

lemma write_head_spec:
  assumes q: "quiet s dev p loc E" and start: "unat start < length (disk s)" "start \<notin> E" and room: "card E < NBUF"
    and lg: "lg_dev (log s) = dev" "lg_start (log s) = start" "lh_n (log s) = int n" "n \<le> LOGSIZE"
  defines "H \<equiv> head_block n (lh_block (log s)) (view s dev start)"
  obtains t where "write_head s = Ok t" "quiet t dev p loc E" "bio_rest t = bio_rest s"
    "disk t = (disk s)[unat start := H]" "disk_writes t = disk_writes s @ [(unat start, H)]"
    "\<And>k. view t dev k = (if k = start then H else view s dev k)" "length (view s dev start) = BSIZE"
proof -
  obtain b t where B: "bread dev start s = Ok (b, t)" "cache_inv t dev p {b} (pins_of loc E)" "located t dev loc E"
    "b_blockno (bufs t ! b) = start" "b_data (bufs t ! b) = view s dev start" "bio_rest t = bio_rest s" "disk t = disk s"
    "disk_writes t = disk_writes s" "\<And>k. view t dev k = view s dev k" by (rule bread1 [OF q start(1) room]) blast
  have len: "b < length (bufs t)" and lv: "length (view s dev start) = BSIZE" using held_buf(2,6) [OF B(2), of b] B(5) by auto
  have lt: "log t = log s" by (rule bio_rest_log [OF B(6)])
  have lH: "length H = BSIZE" using head_block_spec(1) [OF lv lg(4)] by (simp add: H_def)
  note O = overwrite_spec [OF B(2) insertI1 lH, unfolded B(4)]
  have pin: "pins_of loc E b = 0" by (rule located_unpinned [OF B(3,4) start(2)])
  have "write_head_loop n 0 b (upd_buf b (\<lambda>x. x\<lparr>b_data := put32 (b_data x) 0 (of_int (int n))\<rparr>) t) =
      upd_buf b (\<lambda>x. x\<lparr>b_data := H\<rparr>) t"
    using len lt B(5) by (simp add: write_head_loop_eq upd_buf_def H_def head_block_def)
  then have eq: "write_head s = brelse b (overwrite b H t)"
    using B(1) lt lg O(1) by (simp add: write_head_def Let_def upd_buf_def)
  obtain u where U: "brelse b (overwrite b H t) = Ok u" "cache_inv u dev p ({b} - {b}) (pins_of loc E)"
    "located u dev loc E" "bio_rest u = bio_rest (overwrite b H t)" "disk u = disk (overwrite b H t)"
    "disk_writes u = disk_writes (overwrite b H t)" "\<And>k. view u dev k = view (overwrite b H t) dev k"
    by (rule brelse_step [OF O(2) O(8) [OF B(3)] insertI1]) (use O(4,6) B(4,7) start(1) in auto)
  have "quiet u dev p loc E" using U(2,3) q by (simp add: quiet_def)
  then show ?thesis using eq U lv by (intro that [of u]) (simp_all add: O(3-5,7) B(6-9))
qed

section \<open>Commit\<close>

text \<open>
  The state in which a commit starts: the header of the log lists the blocks \<open>L\<close>, their new content is in
  pinned buffers, and the header on the disk is empty.
\<close>

definition log_ready :: "'a log_st_scheme \<Rightarrow> u32 list \<Rightarrow> bool" where
  "log_ready s L \<longleftrightarrow> log_fits (lg_start (log s)) (logsz s) (disk s) \<and> lh_n (log s) = int (length L) \<and>
     take (length L) (lh_block (log s)) = L \<and> distinct L \<and> length L < NBUF \<and> length L \<le> LOGSIZE \<and> length L < logsz s \<and>
     (\<forall>e\<in>set L. unat e < length (disk s) \<and> \<not> in_log (lg_start (log s)) (logsz s) (unat e)) \<and>
     get32 (disk s ! unat (lg_start (log s))) 0 = 0"

definition txn :: "'a log_st_scheme \<Rightarrow> nat \<Rightarrow> (u32 \<Rightarrow> nat) \<Rightarrow> u32 list \<Rightarrow> bool" where
  "txn s p loc L \<longleftrightarrow> quiet s (lg_dev (log s)) p loc (set L) \<and> log_ready s L"

text \<open>The writes of a commit in their order.\<close>

definition log_writes :: "'a log_st_scheme \<Rightarrow> u32 list \<Rightarrow> (nat \<times> bytes) list" where
  "log_writes s L = map (\<lambda>i. (unat (lg_start (log s)) + i + 1, view s (lg_dev (log s)) (L ! i))) [0..<length L]"

definition home_writes :: "'a log_st_scheme \<Rightarrow> u32 list \<Rightarrow> (nat \<times> bytes) list" where
  "home_writes s L = map (\<lambda>e. (unat e, view s (lg_dev (log s)) e)) L"

definition full_head :: "'a log_st_scheme \<Rightarrow> u32 list \<Rightarrow> bytes" where
  "full_head s L = head_block (length L) (lh_block (log s)) (disk s ! unat (lg_start (log s)))"

definition commit_writes :: "'a log_st_scheme \<Rightarrow> u32 list \<Rightarrow> (nat \<times> bytes) list" where
  "commit_writes s L = log_writes s L @ (unat (lg_start (log s)), full_head s L) # home_writes s L @
     [(unat (lg_start (log s)), head_block 0 (lh_block (log s)) (full_head s L))]"

lemma log_readyD:
  assumes "log_ready s L"
  shows "log_fits (lg_start (log s)) (logsz s) (disk s)" "lh_n (log s) = int (length L)" "take (length L) (lh_block (log s)) = L"
    "distinct L" "length L < NBUF" "length L \<le> LOGSIZE"
    "\<forall>e\<in>set L. unat e < length (disk s) \<and> \<not> in_log (lg_start (log s)) (logsz s) (unat e)"
    "get32 (disk s ! unat (lg_start (log s))) 0 = 0" "i < length L \<Longrightarrow> lh_block (log s) ! i = L ! i" "length L < logsz s"
  using assms by (auto simp: log_ready_def) (metis nth_take)

lemma fst_log_writes: "fst ` set (log_writes s L) = {unat (lg_start (log s)) + 1..<unat (lg_start (log s)) + 1 + length L}"
proof -
  have "fst ` set (log_writes s L) = (\<lambda>i. i + (unat (lg_start (log s)) + 1)) ` {0..<length L}"
    by (auto simp: log_writes_def image_iff Bex_def)
  then show ?thesis by (simp only: image_add_atLeastLessThan') (simp add: add.commute)
qed

lemma fst_home_writes: "fst ` set (home_writes s L) = unat ` set L"
  by (simp add: home_writes_def image_image)

lemma log_writes_apply:
  assumes "log_ready s L" "i < length L"
  shows "apply_writes (log_writes s L) (disk s) ! (unat (lg_start (log s)) + i + 1) = view s (lg_dev (log s)) (L ! i)"
proof (rule apply_writes_in)
  note D = log_readyD [OF assms(1)]
  show "(unat (lg_start (log s)) + i + 1, view s (lg_dev (log s)) (L ! i)) \<in> set (log_writes s L)"
    using assms(2) by (auto simp: log_writes_def)
  show "distinct (map fst (log_writes s L))" by (auto simp: log_writes_def comp_def distinct_map inj_on_def)
  show "unat (lg_start (log s)) + i + 1 < length (disk s)" using D(1,10) assms(2) by (simp add: log_fits_def)
qed

lemma map_by_index: "map (\<lambda>i. f (L ! i)) [0..<length L] = map f L"
  using map_nth [of L] by (metis (no_types, lifting) map_map comp_def map_eq_conv)

text \<open>Until the header is written: the log is complete and the home blocks are unchanged.\<close>

lemma commit_log:
  assumes t: "txn s p loc L"
  obtains s1 s2 where "write_log s = Ok s1" "write_head s1 = Ok s2" "quiet s2 (lg_dev (log s)) p loc (set L)" "bio_rest s2 = bio_rest s"
    "disk s2 = (apply_writes (log_writes s L) (disk s))[unat (lg_start (log s)) := full_head s L]"
    "disk_writes s2 = disk_writes s @ log_writes s L @ [(unat (lg_start (log s)), full_head s L)]"
    "\<And>k. \<not> in_log (lg_start (log s)) (logsz s) (unat k) \<Longrightarrow> view s2 (lg_dev (log s)) k = view s (lg_dev (log s)) k"
proof -
  let ?dev = "lg_dev (log s)" and ?start = "lg_start (log s)" and ?sz = "logsz s" and ?es = "lh_block (log s)" and ?n = "length L"
  have q: "quiet s ?dev p loc (set L)" and r: "log_ready s L" using t by (auto simp: txn_def)
  note D = log_readyD [OF r]
  have room: "card (set L) < NBUF" using D(5) card_length [of L] by linarith
  have "\<exists>s1. write_log_loop ?n 0 s = Ok s1 \<and> quiet s1 ?dev p loc (set L) \<and> bio_rest s1 = bio_rest s \<and>
    disk s1 = apply_writes (map (\<lambda>i. (unat ?start + i + 1, view s ?dev (?es ! i))) [0..<0 + ?n]) (disk s) \<and>
    disk_writes s1 = disk_writes s @ map (\<lambda>i. (unat ?start + i + 1, view s ?dev (?es ! i))) [0..<0 + ?n] \<and>
    (\<forall>k. \<not> in_log ?start ?sz (unat k) \<longrightarrow> view s1 ?dev k = view s ?dev k)"
    by (rule write_log_loop_spec [OF q D(1) room]) (use D in auto)
  moreover have "map (\<lambda>i. (unat ?start + i + 1, view s ?dev (?es ! i))) [0..<0 + ?n] = log_writes s L"
    by (auto simp: log_writes_def D(9))
  ultimately obtain s1 where s1: "write_log s = Ok s1" "quiet s1 ?dev p loc (set L)" "bio_rest s1 = bio_rest s"
    "disk s1 = apply_writes (log_writes s L) (disk s)" "disk_writes s1 = disk_writes s @ log_writes s L"
    "\<And>k. \<not> in_log ?start ?sz (unat k) \<Longrightarrow> view s1 ?dev k = view s ?dev k" using D(2) by (auto simp: write_log_def)
  have l1: "log s1 = log s" by (rule bio_rest_log [OF s1(3)])
  have st: "?start \<notin> set L" "unat ?start < length (disk s1)" using D(1,7) s1(4) by (auto simp: in_log_def log_fits_def)
  have "view s1 ?dev ?start = disk s ! unat ?start"
    using view_unpinned [OF s1(2) st(1)] s1(4) by (simp add: apply_writes_other fst_log_writes)
  then obtain s2 where s2: "write_head s1 = Ok s2" "quiet s2 ?dev p loc (set L)" "bio_rest s2 = bio_rest s1"
    "disk s2 = (disk s1)[unat ?start := full_head s L]" "disk_writes s2 = disk_writes s1 @ [(unat ?start, full_head s L)]"
    "\<And>k. view s2 ?dev k = (if k = ?start then full_head s L else view s1 ?dev k)"
    using write_head_spec [OF s1(2) st(2,1) room, of ?n] D l1 by (metis full_head_def)
  have "view s2 ?dev k = view s ?dev k" if "\<not> in_log ?start ?sz (unat k)" for k
    using that s1(6) s2(6) log_fitsD(3) [OF D(1)] by auto
  then show ?thesis using s1 s2 by (intro that [of s1 s2]) simp_all
qed

lemma cache_inv_upd_log [simp]: "cache_inv (upd_log f s) dev p H pins = cache_inv s dev p H pins"
  by (simp add: cache_inv_def calm_iff mycpu_def upd_log_def)

lemma located_upd_log [simp]: "located (upd_log f s) dev loc E = located s dev loc E"
  by (simp add: located_def upd_log_def)

lemma quiet_upd_log [simp]: "quiet (upd_log f s) dev p loc E = quiet s dev p loc E"
  by (simp add: quiet_def)

lemma view_upd_log [simp]: "view (upd_log f s) dev k = view s dev k"
  by (simp add: view_def upd_log_def split: option.splits)

lemma upd_log_fields [simp]:
  "log (upd_log f s) = f (log s)" "disk (upd_log f s) = disk s" "disk_writes (upd_log f s) = disk_writes s"
  "bufs (upd_log f s) = bufs s"
  by (simp_all add: upd_log_def)

lemma bio_rest_of_upd_log: "bio_rest (upd_log f s) = upd_log f (bio_rest s)"
  by (simp add: bio_rest_def upd_log_def)

lemma home_writes_apply:
  assumes "e \<in> set L" "distinct L" "unat e < length D"
  shows "apply_writes (home_writes s L) D ! unat e = view s (lg_dev (log s)) e"
proof (rule apply_writes_in)
  show "(unat e, view s (lg_dev (log s)) e) \<in> set (home_writes s L)" using assms(1) by (auto simp: home_writes_def)
  have "inj_on unat (set L)" by (simp add: inj_on_def word_unat_eq_iff)
  then show "distinct (map fst (home_writes s L))" using assms(2) by (simp add: home_writes_def comp_def distinct_map)
qed fact

lemma commit_spec:
  assumes t: "txn s p loc L" and L: "L \<noteq> []"
  obtains u where "commit s = Ok u" "disk u = apply_writes (commit_writes s L) (disk s)"
    "disk_writes u = disk_writes s @ commit_writes s L" "txn u p loc []"
    "\<And>k. \<not> in_log (lg_start (log s)) (logsz s) (unat k) \<Longrightarrow> view u (lg_dev (log s)) k = view s (lg_dev (log s)) k"
    "bio_rest u = bio_rest (upd_log (\<lambda>l. l\<lparr>lh_n := 0\<rparr>) s)"
proof -
  let ?dev = "lg_dev (log s)" and ?start = "lg_start (log s)" and ?sz = "logsz s" and ?es = "lh_block (log s)" and ?n = "length L"
  have r: "log_ready s L" using t by (auto simp: txn_def)
  note D = log_readyD [OF r]
  obtain s1 s2 where A: "write_log s = Ok s1" "write_head s1 = Ok s2" "quiet s2 ?dev p loc (set L)" "bio_rest s2 = bio_rest s"
    "disk s2 = (apply_writes (log_writes s L) (disk s))[unat ?start := full_head s L]"
    "disk_writes s2 = disk_writes s @ log_writes s L @ [(unat ?start, full_head s L)]"
    "\<And>k. \<not> in_log ?start ?sz (unat k) \<Longrightarrow> view s2 ?dev k = view s ?dev k" by (rule commit_log [OF t]) blast
  have l2: "log s2 = log s" by (rule bio_rest_log [OF A(4)])
  have lv: "view s2 ?dev (logno ?start i) = view s ?dev (L ! i)" if "i < ?n" for i
  proof -
    have i: "Suc i < ?sz" using that D(10) by simp
    have "logno ?start i \<notin> set L" using logno_in_log [OF D(1) i] D(7) by auto
    from view_unpinned [OF A(3) this] show ?thesis
      using log_writes_apply [OF r that] unat_logno [OF D(1) i] by (simp add: A(5))
  qed
  have "\<exists>s3. install_trans_loop ?n 0 False s2 = Ok s3 \<and> quiet s3 ?dev p loc {} \<and> bio_rest s3 = bio_rest s2 \<and>
    disk s3 = apply_writes (map (\<lambda>i. (unat (L ! i), view s2 ?dev (logno ?start i))) [0..<?n]) (disk s2) \<and>
    disk_writes s3 = disk_writes s2 @ map (\<lambda>i. (unat (L ! i), view s2 ?dev (logno ?start i))) [0..<?n] \<and>
    (\<forall>k. k \<notin> set (drop 0 L) \<longrightarrow> view s3 ?dev k = view s2 ?dev k)"
    by (rule install_loop_spec [where sz = ?sz]) (use A(3,5) D l2 in \<open>auto simp: left_def log_fits_def\<close>)
  moreover have "map (\<lambda>i. (unat (L ! i), view s2 ?dev (logno ?start i))) [0..<?n] = home_writes s L"
    unfolding home_writes_def by (subst map_by_index [symmetric]) (auto simp: lv)
  ultimately obtain s3 where B: "install_trans_loop ?n 0 False s2 = Ok s3" "quiet s3 ?dev p loc {}" "bio_rest s3 = bio_rest s2"
    "disk s3 = apply_writes (home_writes s L) (disk s2)" "disk_writes s3 = disk_writes s2 @ home_writes s L"
    "\<And>k. k \<notin> set L \<Longrightarrow> view s3 ?dev k = view s2 ?dev k" by auto
  let ?s4 = "upd_log (\<lambda>l. l\<lparr>lh_n := 0\<rparr>) s3"
  have l3: "log s3 = log s" using bio_rest_log [OF B(3)] l2 by simp
  have len: "unat ?start < length (disk s)" "length (disk s3) = length (disk s)" using D(1) A(5) B(4) by (auto simp: log_fits_def)
  have nL: "?start \<notin> set L" using D(7) log_fitsD(3) [OF D(1)] by auto
  have hd: "view s3 ?dev ?start = full_head s L"
    using B(6) [OF nL] view_unpinned [OF A(3) nL] A(5) len by simp
  have q4: "quiet ?s4 ?dev p loc {}" using B(2) by simp
  obtain u where C: "write_head ?s4 = Ok u" "quiet u ?dev p loc {}" "bio_rest u = bio_rest ?s4"
    "disk u = (disk s3)[unat ?start := head_block 0 ?es (full_head s L)]"
    "disk_writes u = disk_writes s3 @ [(unat ?start, head_block 0 ?es (full_head s L))]"
    "\<And>k. view u ?dev k = (if k = ?start then head_block 0 ?es (full_head s L) else view s3 ?dev k)"
    "length (full_head s L) = BSIZE"
    by (rule write_head_spec [OF q4, of ?start 0]) (use len l3 hd in \<open>auto simp: NBUF_def\<close>)
  have lu: "log u = (log s)\<lparr>lh_n := 0\<rparr>" using bio_rest_log [OF C(3)] l3 by simp
  have "view u ?dev k = view s ?dev k" if k: "\<not> in_log ?start ?sz (unat k)" for k
  proof (cases "k \<in> set L")
    case True
    have "view u ?dev k = disk s3 ! unat k" using k C(6) view_unpinned [OF B(2)] log_fitsD(3) [OF D(1)] by auto
    also have "\<dots> = view s ?dev k" using home_writes_apply [OF True D(4), of "disk s2" s] D(7) True A(5) B(4) by simp
    finally show ?thesis .
  next
    case False
    then show ?thesis using k C(6) B(6) A(7) log_fitsD(3) [OF D(1)] by auto
  qed
  moreover have "txn u p loc []"
    using C(2,4) lu len head_block_spec(2) [OF C(7), of 0 ?es] D(1) by (simp add: txn_def log_ready_def log_fits_def NBUF_def)
  moreover have "commit s = Ok u"
    using D(2) L A(1,2) B(1) C(1) l2 by (simp add: commit_def install_trans_def)
  ultimately show ?thesis
    using A(4-6) B(3-5) C(3-5) by (intro that [of u]) (simp_all add: commit_writes_def bio_rest_of_upd_log)
qed

section \<open>Recovery\<close>

lemma read_head_loop_spec:
  "i + n \<le> LOGSIZE \<Longrightarrow> length (lh_block (log s)) = LOGSIZE \<Longrightarrow>
   \<exists>bl. read_head_loop n i lh s = Ok (upd_log (\<lambda>l. l\<lparr>lh_block := bl\<rparr>) s) \<and> length bl = LOGSIZE \<and>
     (\<forall>j<i. bl ! j = lh_block (log s) ! j) \<and> (\<forall>j. i \<le> j \<and> j < i + n \<longrightarrow> bl ! j = get32 lh (4 + 4 * j))"
proof (induction n arbitrary: i s)
  case 0
  show ?case by (rule exI [of _ "lh_block (log s)"]) (use 0 in \<open>auto simp: upd_log_def\<close>)
next
  case (Suc n)
  let ?s = "upd_log (\<lambda>l. l\<lparr>lh_block := (lh_block l)[i := get32 lh (4 + 4 * i)]\<rparr>) s"
  obtain bl where bl: "read_head_loop n (Suc i) lh ?s = Ok (upd_log (\<lambda>l. l\<lparr>lh_block := bl\<rparr>) ?s)" "length bl = LOGSIZE"
    "\<forall>j<Suc i. bl ! j = lh_block (log ?s) ! j" "\<forall>j. Suc i \<le> j \<and> j < Suc i + n \<longrightarrow> bl ! j = get32 lh (4 + 4 * j)"
    using Suc.IH [of "Suc i" ?s] Suc.prems by auto
  have i: "i < LOGSIZE" using Suc.prems(1) by simp
  have "bl ! j = lh_block (log s) ! j" if "j < i" for j using bl(3) that by simp
  moreover have "bl ! j = get32 lh (4 + 4 * j)" if "i \<le> j" "j < i + Suc n" for j
    using bl(3,4) that i Suc.prems(2) by (cases "j = i") auto
  ultimately show ?case using bl(1,2) i by (intro exI [of _ bl]) (simp add: upd_log_def)
qed

definition head_list :: "bytes \<Rightarrow> nat \<Rightarrow> u32 list" where
  "head_list h n = map (\<lambda>j. get32 h (4 + 4 * j)) [0..<n]"

lemma sint_of_nat_small: "n \<le> LOGSIZE \<Longrightarrow> sint (of_nat n :: u32) = int n"
  by (simp add: LOGSIZE_def sint_uint uint_nat unat_of_nat take_bit_nat_eq_self signed_take_bit_int_eq_self)

lemma read_head_spec:
  assumes q: "quiet s dev p loc {}" and lg: "lg_dev (log s) = dev" "lg_start (log s) = start" "length (lh_block (log s)) = LOGSIZE"
    and h: "unat start < length (disk s)" "get32 (disk s ! unat start) 0 = of_nat n" "n \<le> LOGSIZE"
  obtains bl t where "read_head s = Ok t" "quiet t dev p loc {}" "disk t = disk s" "disk_writes t = disk_writes s"
    "bio_rest t = bio_rest (upd_log (\<lambda>l. l\<lparr>lh_n := int n, lh_block := bl\<rparr>) s)" "length bl = LOGSIZE"
    "take n bl = head_list (disk s ! unat start) n"
proof -
  let ?h = "disk s ! unat start"
  have "card ({} :: u32 set) < NBUF" by (simp add: NBUF_def)
  then obtain b t where B: "bread dev start s = Ok (b, t)" "cache_inv t dev p {b} (pins_of loc {})" "located t dev loc {}"
    "b_blockno (bufs t ! b) = start" "b_data (bufs t ! b) = view s dev start" "bio_rest t = bio_rest s" "disk t = disk s"
    "disk_writes t = disk_writes s" by (rule bread1 [OF q h(1)]) blast
  have d: "b_data (bufs t ! b) = ?h" using B(5) view_unpinned [OF q] by simp
  have lt: "log t = log s" by (rule bio_rest_log [OF B(6)])
  let ?u = "upd_log (\<lambda>l. l\<lparr>lh_n := int n\<rparr>) t"
  obtain bl where bl: "read_head_loop n 0 ?h ?u = Ok (upd_log (\<lambda>l. l\<lparr>lh_block := bl\<rparr>) ?u)" "length bl = LOGSIZE"
    "\<forall>j<n. bl ! j = get32 ?h (4 + 4 * j)" using read_head_loop_spec [of 0 n ?u ?h] h(3) lg(3) lt by auto
  let ?v = "upd_log (\<lambda>l. l\<lparr>lh_block := bl\<rparr>) ?u"
  have "cache_inv ?v dev p {b} (pins_of loc {})" "located ?v dev loc {}" using B(2,3) by simp_all
  then obtain w where W: "brelse b ?v = Ok w" "cache_inv w dev p ({b} - {b}) (pins_of loc {})" "located w dev loc {}"
    "bio_rest w = bio_rest ?v" "disk w = disk ?v" "disk_writes w = disk_writes ?v"
    by (rule brelse_step [where b = b]) (use d B(4,7) in auto)
  have "read_head s = Ok w" using B(1) lg lt d h(2) bl(1) W(1) by (simp add: read_head_def Let_def sint_of_nat_small [OF h(3)])
  moreover have "quiet w dev p loc {}" using W(2,3) by (simp add: quiet_def)
  moreover have "take n bl = head_list ?h n" using bl(2,3) h(3) by (intro nth_equalityI) (auto simp: head_list_def)
  moreover have "bio_rest w = bio_rest (upd_log (\<lambda>l. l\<lparr>lh_n := int n, lh_block := bl\<rparr>) s)"
    using W(4) B(6) by (simp add: bio_rest_of_upd_log) (simp add: upd_log_def)
  ultimately show ?thesis using W(5,6) B(7,8) bl(2) by (intro that [of w bl]) simp_all
qed

definition recover_writes :: "u32 \<Rightarrow> bytes list \<Rightarrow> nat \<Rightarrow> (nat \<times> bytes) list" where
  "recover_writes start D n =
     map (\<lambda>i. (unat (head_list (D ! unat start) n ! i), D ! (unat start + i + 1))) [0..<n]"

lemma fst_recover_writes: "fst ` set (recover_writes start D n) \<subseteq> unat ` set (head_list (D ! unat start) n)"
  by (auto simp: recover_writes_def head_list_def)

lemma recover_spec:
  assumes q: "quiet s dev p loc {}" and lg: "lg_dev (log s) = dev" "lg_start (log s) = start" "length (lh_block (log s)) = LOGSIZE"
    and fits: "log_fits start sz (disk s)" "sz = nat (lg_size (log s))" and h: "get32 (disk s ! unat start) 0 = of_nat n" "n \<le> LOGSIZE" "n < sz"
    and L: "\<forall>e\<in>set (head_list (disk s ! unat start) n). unat e < length (disk s) \<and> \<not> in_log start sz (unat e)"
  obtains bl t where "recover_from_log s = Ok t" "quiet t dev p loc {}" "log_ready t []" "lg_dev (log t) = dev"
    "disk t = (apply_writes (recover_writes start (disk s) n) (disk s))[unat start := head_block 0 bl (disk s ! unat start)]"
    "disk_writes t = disk_writes s @ recover_writes start (disk s) n @ [(unat start, head_block 0 bl (disk s ! unat start))]"
    "length (disk s ! unat start) = BSIZE"
proof -
  let ?L = "head_list (disk s ! unat start) n"
  have lL: "length ?L = n" by (simp add: head_list_def)
  have sl: "unat start < length (disk s)" by (rule log_fitsD(2) [OF fits(1)])
  obtain bl s1 where A: "read_head s = Ok s1" "quiet s1 dev p loc {}" "disk s1 = disk s" "disk_writes s1 = disk_writes s"
    "bio_rest s1 = bio_rest (upd_log (\<lambda>l. l\<lparr>lh_n := int n, lh_block := bl\<rparr>) s)" "length bl = LOGSIZE"
    "take n bl = ?L" by (rule read_head_spec [OF q lg sl h(1,2)]) blast
  have l1: "log s1 = (log s)\<lparr>lh_n := int n, lh_block := bl\<rparr>" using bio_rest_log [OF A(5)] by simp
  have "\<exists>s2. install_trans_loop n 0 True s1 = Ok s2 \<and> quiet s2 dev p loc {} \<and> bio_rest s2 = bio_rest s1 \<and>
    disk s2 = apply_writes (map (\<lambda>i. (unat (?L ! i), view s1 dev (logno start i))) [0..<length ?L]) (disk s1) \<and>
    disk_writes s2 = disk_writes s1 @ map (\<lambda>i. (unat (?L ! i), view s1 dev (logno start i))) [0..<length ?L] \<and>
    (\<forall>k. k \<notin> set (drop 0 ?L) \<longrightarrow> view s2 dev k = view s1 dev k)"
    by (rule install_loop_spec [where sz = sz]) (use A(2,3,7) l1 lg fits(1) L h(2,3) in \<open>simp_all add: left_def lL\<close>)
  moreover have "map (\<lambda>i. (unat (?L ! i), view s1 dev (logno start i))) [0..<length ?L] = recover_writes start (disk s) n"
    unfolding recover_writes_def lL using h(3)
    by (intro map_cong refl) (simp add: view_unpinned [OF A(2)] A(3) unat_logno [OF fits(1)])
  ultimately obtain s2 where B: "install_trans_loop n 0 True s1 = Ok s2" "quiet s2 dev p loc {}" "bio_rest s2 = bio_rest s1"
    "disk s2 = apply_writes (recover_writes start (disk s) n) (disk s)" "disk_writes s2 = disk_writes s @ recover_writes start (disk s) n"
    using A(3,4) by auto
  have l2: "log s2 = log s1" by (rule bio_rest_log [OF B(3)])
  have "unat start \<notin> fst ` set (recover_writes start (disk s) n)"
    using L fst_recover_writes [of start "disk s" n] log_fitsD(3) [OF fits(1)] by fastforce
  then have v: "view s2 dev start = disk s ! unat start"
    using view_unpinned [OF B(2)] by (simp add: B(4) apply_writes_other)
  have q2: "quiet (upd_log (\<lambda>l. l\<lparr>lh_n := 0\<rparr>) s2) dev p loc {}" using B(2) by simp
  obtain t where C: "write_head (upd_log (\<lambda>l. l\<lparr>lh_n := 0\<rparr>) s2) = Ok t" "quiet t dev p loc {}"
    "bio_rest t = bio_rest (upd_log (\<lambda>l. l\<lparr>lh_n := 0\<rparr>) s2)"
    "disk t = (disk s2)[unat start := head_block 0 bl (disk s ! unat start)]"
    "disk_writes t = disk_writes s2 @ [(unat start, head_block 0 bl (disk s ! unat start))]"
    "length (disk s ! unat start) = BSIZE"
    by (rule write_head_spec [OF q2, of start 0]) (use sl l1 l2 lg v B(4) in \<open>simp_all add: NBUF_def\<close>)
  have lt: "log t = (log s)\<lparr>lh_n := 0, lh_block := bl\<rparr>" using bio_rest_log [OF C(3)] l1 l2 by simp
  have "log_ready t []" using lt lg C(4) B(4) sl fits head_block_spec(2) [OF C(6), of 0 bl]
    by (simp add: log_ready_def log_fits_def NBUF_def)
  moreover have "recover_from_log s = Ok t" using A(1) B(1) C(1) l1 by (simp add: recover_from_log_def install_trans_def)
  ultimately show ?thesis using lt lg C(2,4-6) B(4,5) by (intro that [of t bl]) simp_all
qed

section \<open>Crashes\<close>

lemma apply_writes_last:
  "k \<in> fst ` set ws \<Longrightarrow> k < length D \<Longrightarrow> length D = length D' \<Longrightarrow> apply_writes ws D ! k = apply_writes ws D' ! k"
proof (induction ws arbitrary: D D')
  case (Cons w ws)
  obtain n d where w: "w = (n, d)" by (cases w)
  show ?case
  proof (cases "k \<in> fst ` set ws")
    case True
    then show ?thesis using Cons.IH [of "D[n := d]" "D'[n := d]"] Cons.prems(2,3) w by simp
  next
    case False
    then have "k = n" using Cons.prems(1) w by simp
    with False show ?thesis using Cons.prems(2,3) w by (simp add: apply_writes_other)
  qed
qed simp

lemma apply_writes_again:
  assumes "fst ` set us \<subseteq> fst ` set ws"
  shows "apply_writes ws (apply_writes us D) = apply_writes ws D"
proof (rule nth_equalityI)
  fix k assume k: "k < length (apply_writes ws (apply_writes us D))"
  show "apply_writes ws (apply_writes us D) ! k = apply_writes ws D ! k"
  proof (cases "k \<in> fst ` set ws")
    case True
    then show ?thesis using k by (intro apply_writes_last) simp_all
  next
    case False
    with assms have "k \<notin> fst ` set us" by blast
    with False show ?thesis by (simp add: apply_writes_other)
  qed
qed simp

text \<open>
  A disk from which recovery produces the content \<open>C\<close> outside the log: its header is well formed, and
  installing the blocks that the header lists gives \<open>C\<close>.
\<close>

definition recovers_to :: "u32 \<Rightarrow> nat \<Rightarrow> bytes list \<Rightarrow> (nat \<Rightarrow> bytes) \<Rightarrow> bool" where
  "recovers_to start sz D C \<longleftrightarrow> log_fits start sz D \<and> (\<forall>k<length D. length (D ! k) = BSIZE) \<and>
     (\<exists>n\<le>LOGSIZE. n < sz \<and> get32 (D ! unat start) 0 = of_nat n \<and>
        (\<forall>e\<in>set (head_list (D ! unat start) n). unat e < length D \<and> \<not> in_log start sz (unat e)) \<and>
        (\<forall>m<length D. \<not> in_log start sz m \<longrightarrow> apply_writes (recover_writes start D n) D ! m = C m))"

lemma recovers_to_clean:
  assumes "log_fits start sz D" "\<forall>k<length D. length (D ! k) = BSIZE" "get32 (D ! unat start) 0 = 0"
    "\<forall>m<length D. \<not> in_log start sz m \<longrightarrow> D ! m = C m"
  shows "recovers_to start sz D C"
  using assms log_fitsD(1) [OF assms(1)] unfolding recovers_to_def by (auto intro!: exI [of _ 0] simp: head_list_def recover_writes_def)

lemma recover_writes_same:
  assumes "D' ! unat start = D ! unat start" "\<forall>i<n. D' ! (unat start + i + 1) = D ! (unat start + i + 1)"
  shows "recover_writes start D' n = recover_writes start D n"
  using assms by (simp add: recover_writes_def)

lemma length_blocks_update:
  "\<forall>k<length D. length (D ! k) = BSIZE \<Longrightarrow> length d = BSIZE \<Longrightarrow> k < length D \<Longrightarrow> length (D[n := d] ! k) = BSIZE"
  by (cases "k = n") simp_all

lemma length_blocks_apply:
  "\<forall>k<length D. length (D ! k) = BSIZE \<Longrightarrow> \<forall>(n, d)\<in>set ws. length d = BSIZE \<Longrightarrow>
   \<forall>k<length (apply_writes ws D). length (apply_writes ws D ! k) = BSIZE"
proof (induction ws arbitrary: D)
  case (Cons w ws)
  then have "\<forall>k<length (D[fst w := snd w]). length (D[fst w := snd w] ! k) = BSIZE"
    using length_blocks_update [of D "snd w" _ "fst w"] by (cases w) auto
  with Cons show ?case by (cases w) simp
qed simp

text \<open>A crash while recovery runs: some of its writes have reached the disk.\<close>

lemma recovers_to_crash:
  assumes R: "recovers_to start sz D C" and n: "get32 (D ! unat start) 0 = of_nat n" "n \<le> LOGSIZE"
    and hb: "length hb = BSIZE" "get32 hb 0 = 0"
  shows "recovers_to start sz (apply_writes (take j (recover_writes start D n @ [(unat start, hb)])) D) C"
proof -
  let ?W = "recover_writes start D n"
  obtain n' where n': "n' \<le> LOGSIZE" "n' < sz" "get32 (D ! unat start) 0 = of_nat n'"
    "\<forall>e\<in>set (head_list (D ! unat start) n'). unat e < length D \<and> \<not> in_log start sz (unat e)"
    "\<forall>m<length D. \<not> in_log start sz m \<longrightarrow> apply_writes (recover_writes start D n') D ! m = C m"
    and fits: "log_fits start sz D" and len: "\<forall>k<length D. length (D ! k) = BSIZE" using R by (auto simp: recovers_to_def)
  have "unat (of_nat n :: u32) = n" "unat (of_nat n' :: u32) = n'"
    using n(2) n'(1) by (simp_all add: unat_of_nat take_bit_nat_eq_self LOGSIZE_def)
  then have nn: "n' = n" using n(1) n'(3) by simp
  have out: "m \<notin> fst ` set ?W" if "in_log start sz m" for m
    using n'(4) that fst_recover_writes [of start D n] unfolding nn by fastforce
  have wl: "\<forall>(k, d)\<in>set ?W. length d = BSIZE"
    using fits n'(2) len by (auto simp: nn recover_writes_def log_fits_def)
  show ?thesis
  proof (cases "j \<le> length ?W")
    case True
    let ?D = "apply_writes (take j ?W) D"
    have sub: "fst ` set (take j ?W) \<subseteq> fst ` set ?W" using set_take_subset by fast
    have same: "?D ! m = D ! m" if "in_log start sz m" for m using out [OF that] sub by (intro apply_writes_other) blast
    have hd: "?D ! unat start = D ! unat start" by (rule same [OF log_fitsD(3) [OF fits]])
    have "recover_writes start ?D n = ?W"
      by (rule recover_writes_same [OF hd]) (use n'(2) nn in \<open>auto intro!: same simp: in_log_def\<close>)
    moreover have "\<forall>(k, d)\<in>set (take j ?W). length d = BSIZE" using wl by (auto dest: in_set_takeD)
    ultimately have "recovers_to start sz ?D C"
      using n'(2,4,5) n fits length_blocks_apply [OF len] unfolding recovers_to_def nn
      by (intro conjI exI [of _ n]) (auto simp: hd apply_writes_again [OF sub] log_fits_def)
    then show ?thesis using True by simp
  next
    case False
    let ?D = "(apply_writes ?W D)[unat start := hb]"
    have "recovers_to start sz ?D C"
    proof (rule recovers_to_clean)
      show "log_fits start sz ?D" using fits by (simp add: log_fits_def)
      show "\<forall>k<length ?D. length (?D ! k) = BSIZE" 
        using length_blocks_update [OF length_blocks_apply [OF len wl] hb(1)] by simp
      show "get32 (?D ! unat start) 0 = 0" using hb(2) fits by (simp add: log_fits_def)
      show "\<forall>m<length ?D. \<not> in_log start sz m \<longrightarrow> ?D ! m = C m"
      proof (intro allI impI)
        fix m assume m: "m < length ?D" "\<not> in_log start sz m"
        then have "m \<noteq> unat start" using log_fitsD(3) [OF fits] by auto
        then show "?D ! m = C m" using n'(5) m by (simp add: nn)
      qed
    qed
    then show ?thesis using False by simp
  qed
qed

text \<open>A crash while a commit runs. The commit point is the write of the header.\<close>

lemma quiet_disk: "quiet s dev p loc E \<Longrightarrow> \<forall>k<length (disk s). length (disk s ! k) = BSIZE"
  using cache_invD(12) by (auto simp: quiet_def)

lemma view_length:
  assumes "quiet s dev p loc E" "unat k < length (disk s)"
  shows "length (view s dev k) = BSIZE"
proof (cases "\<exists>b<NBUF. holds_block dev k (bufs s ! b)")
  case True
  then obtain b where b: "b < NBUF" "holds_block dev k (bufs s ! b)" by blast
  have inv: "cache_inv s dev p {} (pins_of loc E)" using assms(1) by (simp add: quiet_def)
  show ?thesis using view_cached [OF inv b] cache_invD(10) [OF inv b(1)] b(2) by (auto simp: buf_ok_def holds_block_def)
next
  case False
  then show ?thesis using view_uncached [of dev k s] quiet_disk [OF assms(1)] assms(2) by auto
qed

lemma log_complete:
  assumes t: "txn s p loc L"
  defines "B \<equiv> (apply_writes (log_writes s L) (disk s))[unat (lg_start (log s)) := full_head s L]"
  shows "recover_writes (lg_start (log s)) B (length L) = home_writes s L" "get32 (B ! unat (lg_start (log s))) 0 = of_nat (length L)"
    "recovers_to (lg_start (log s)) (logsz s) B (\<lambda>m. view s (lg_dev (log s)) (of_nat m))" "length (full_head s L) = BSIZE"
proof -
  let ?dev = "lg_dev (log s)" and ?start = "lg_start (log s)" and ?sz = "logsz s" and ?n = "length L"
  have q: "quiet s ?dev p loc (set L)" and r: "log_ready s L" using t by (auto simp: txn_def)
  note D = log_readyD [OF r]
  have st: "unat ?start < length (disk s)" by (rule log_fitsD(2) [OF D(1)])
  have len: "length (disk s ! unat ?start) = BSIZE" using quiet_disk [OF q] st by blast
  note H = head_block_spec [OF len D(6), folded full_head_def]
  show h: "length (full_head s L) = BSIZE" by (simp add: full_head_def head_block_spec(1) [OF len D(6)])
  have Bs: "B ! unat ?start = full_head s L" using st by (simp add: B_def)
  show n: "get32 (B ! unat ?start) 0 = of_nat ?n" unfolding Bs full_head_def by (rule head_block_spec(2) [OF len D(6)])
  have hl: "head_list (full_head s L) ?n = L"
    by (rule nth_equalityI) (auto simp: head_list_def full_head_def head_block_spec(3) [OF len D(6)] D(9))
  have "B ! (unat ?start + i + 1) = view s ?dev (L ! i)" if "i < ?n" for i
    using log_writes_apply [OF r that] by (simp add: B_def)
  then have "recover_writes ?start B ?n = map (\<lambda>i. (unat (L ! i), view s ?dev (L ! i))) [0..<?n]"
    unfolding recover_writes_def Bs hl by (intro map_cong) auto
  then show w: "recover_writes ?start B ?n = home_writes s L" 
    using map_by_index [of "\<lambda>e. (unat e, view s ?dev e)" L] by (simp add: home_writes_def)
  have "\<forall>(k, d)\<in>set (log_writes s L). length d = BSIZE"
    using D(7) view_length [OF q] by (auto simp: log_writes_def)
  note lb = length_blocks_apply [OF quiet_disk [OF q] this]
  have "apply_writes (home_writes s L) B ! m = view s ?dev (of_nat m)" if m: "m < length B" "\<not> in_log ?start ?sz m" for m
  proof -
    have um: "unat (of_nat m :: u32) = m" using m(1) D(1) by (simp add: B_def log_fits_def unat_of_nat take_bit_nat_eq_self)
    show ?thesis
    proof (cases "of_nat m \<in> set L")
      case True
      then show ?thesis using home_writes_apply [OF True D(4), of B s] m(1) um by simp
    next
      case False
      then have "m \<notin> fst ` set (home_writes s L)" using um by (auto simp: fst_home_writes)
      moreover have "m \<notin> fst ` set (log_writes s L)" "m \<noteq> unat ?start" using m(2) D(10) by (auto simp: fst_log_writes in_log_def)
      ultimately show ?thesis using view_unpinned [OF q False] um by (simp add: B_def apply_writes_other)
    qed
  qed
  then show "recovers_to ?start ?sz B (\<lambda>m. view s ?dev (of_nat m))"
    unfolding recovers_to_def using D(1,6,7,10) n w hl Bs length_blocks_update [OF lb h]
    by (intro conjI exI [of _ ?n]) (auto simp: B_def log_fits_def)
qed

lemma commit_crash:
  assumes t: "txn s p loc L"
  defines "start \<equiv> lg_start (log s)" and "sz \<equiv> logsz s"
  shows "recovers_to start sz (apply_writes (take k (commit_writes s L)) (disk s))
    (\<lambda>m. if k \<le> length L then disk s ! m else view s (lg_dev (log s)) (of_nat m))"
proof -
  have q: "quiet s (lg_dev (log s)) p loc (set L)" and r: "log_ready s L" using t by (auto simp: txn_def)
  note D = log_readyD [OF r, folded start_def sz_def]
  have ll: "length (log_writes s L) = length L" by (simp add: log_writes_def)
  show ?thesis
  proof (cases "k \<le> length L")
    case True
    let ?D = "apply_writes (take k (log_writes s L)) (disk s)"
    have sub: "fst ` set (take k (log_writes s L)) \<subseteq> {unat start + 1..<unat start + 1 + length L}"
      using set_take_subset [of k "log_writes s L"] fst_log_writes [of s L, folded start_def] by fast
    have "recovers_to start sz ?D (\<lambda>m. disk s ! m)"
    proof (rule recovers_to_clean)
      show "log_fits start sz ?D" using D(1) by (simp add: log_fits_def)
      have "\<forall>(k, d)\<in>set (take k (log_writes s L)). length d = BSIZE"
        using D(7) view_length [OF q] by (auto simp: log_writes_def dest!: in_set_takeD)
      from length_blocks_apply [OF quiet_disk [OF q] this] show "\<forall>k<length ?D. length (?D ! k) = BSIZE" .
      have "unat start \<notin> fst ` set (take k (log_writes s L))" using sub by auto
      then show "get32 (?D ! unat start) 0 = 0" using D(8) by (simp add: apply_writes_other)
      have "m \<notin> fst ` set (take k (log_writes s L))" if "\<not> in_log start sz m" for m using sub that D(10) by (auto simp: in_log_def)
      then show "\<forall>m<length ?D. \<not> in_log start sz m \<longrightarrow> ?D ! m = disk s ! m" by (simp add: apply_writes_other)
    qed
    moreover have "take k (commit_writes s L) = take k (log_writes s L)" using True ll by (simp add: commit_writes_def)
    ultimately show ?thesis using True by simp
  next
    case False
    then obtain j where j: "k = length L + Suc j" by (metis less_imp_Suc_add not_le add_Suc_right)
    note C = log_complete [OF t, folded start_def sz_def]
    have "take k (commit_writes s L) = log_writes s L @ (unat start, full_head s L) #
        take j (home_writes s L @ [(unat start, head_block 0 (lh_block (log s)) (full_head s L))])"
      using j ll by (simp add: commit_writes_def start_def)
    then show ?thesis
      using False recovers_to_crash [OF C(3,2) D(6), of "head_block 0 (lh_block (log s)) (full_head s L)" j]
        head_block_spec(1,2) [OF C(4), of 0] by (simp add: C(1))
  qed
qed

end
