(* ===== verification/Logop.thy ===== *)
theory Logop
  imports Crash
begin

text \<open>
  The operations of log.c that file system calls use, and the crash safety of the log as a whole.
\<close>

section \<open>Critical sections on the log\<close>

lemma push_off_log [simp]: "log (push_off s) = log s" "push_off (upd_log f s) = upd_log f (push_off s)"
  by (simp_all add: hart_defs upd_log_def)

lemma pop_off_log [simp]: "pop_off (upd_log f s) = bnd (pop_off s) (\<lambda>s. Ok (upd_log f s))"
  by (simp add: hart_defs upd_log_def)

lemma hart_upd_log [simp]: "calm (upd_log f s) = calm s" "mycpu (upd_log f s) = mycpu s" "tp (upd_log f s) = tp s"
  "procs (upd_log f s) = procs s"
  by (simp_all add: calm_iff mycpu_def upd_log_def)

lemma upd_log_comp [simp]: "upd_log f (upd_log g s) = upd_log (\<lambda>l. f (g l)) s"
  by (simp add: upd_log_def)

lemma upd_log_cong: "f (log s) = g (log s) \<Longrightarrow> upd_log f s = upd_log g s"
  by (simp add: upd_log_def)

lemma upd_buf_upd_log: "upd_buf b g (upd_log f s) = upd_log f (upd_buf b g s)"
  by (simp add: upd_buf_def upd_log_def)

lemma push_off_upd_buf [simp]: "push_off (upd_buf b f s) = upd_buf b f (push_off s)"
  by (simp add: upd_buf_def)

lemma release_log_section:
  assumes "calm s" "lock_free l" "lg_lock (f (log s)) = held_by (tp s) l"
  shows "release_log (upd_log f (push_off s)) = Ok (upd_log (\<lambda>x. (f x)\<lparr>lg_lock := l\<rparr>) s)"
  using assms by (simp add: release_in_held [where l = l])

lemma upd_buf_fields [simp]: "log (upd_buf b f s) = log s" "tp (upd_buf b f s) = tp s" "calm (upd_buf b f s) = calm s"
  "disk (upd_buf b f s) = disk s" "disk_writes (upd_buf b f s) = disk_writes s"
  by (simp_all add: upd_buf_def)

lemma cache_inv_push_off [simp]: "cache_inv s dev p H pins \<Longrightarrow> cache_inv (push_off s) dev p H pins"
  by (simp add: cache_inv_def)

lemma log_slot_spec:
  "i \<le> log_slot n i b bl \<and> log_slot n i b bl \<le> i + n \<and> (\<forall>j. i \<le> j \<and> j < log_slot n i b bl \<longrightarrow> bl ! j \<noteq> b) \<and>
   (log_slot n i b bl < i + n \<longrightarrow> bl ! log_slot n i b bl = b)"
proof (induction n arbitrary: i)
  case (Suc n)
  show ?case
  proof (cases "bl ! i = b")
    case False
    have "bl ! j \<noteq> b" if "i \<le> j" "j < log_slot n (Suc i) b bl" for j
      using Suc.IH [of "Suc i"] False that by (cases "j = i") auto
    then show ?thesis using Suc.IH [of "Suc i"] False by simp
  qed auto
qed auto

text \<open>\<open>L\<close> is the list of logged blocks; logging a block twice has no effect the second time.\<close>

definition absorb :: "u32 list \<Rightarrow> u32 \<Rightarrow> u32 list" where
  "absorb L n = (if n \<in> set L then L else L @ [n])"

lemma log_slot_absorb:
  assumes "take (length L) bl = L" "length L < length bl"
  shows "log_slot (length L) 0 n bl = length L \<longleftrightarrow> n \<notin> set L"
    "take (length (absorb L n)) (bl[log_slot (length L) 0 n bl := n]) = absorb L n"
proof -
  let ?i = "log_slot (length L) 0 n bl"
  have nth: "bl ! j = L ! j" if "j < length L" for j using assms(1) that by (metis nth_take)
  note S = log_slot_spec [of 0 "length L" n bl]
  show iff: "?i = length L \<longleftrightarrow> n \<notin> set L"
  proof
    assume "?i = length L"
    then show "n \<notin> set L" using S nth by (auto simp: in_set_conv_nth)
  next
    assume "n \<notin> set L"
    then show "?i = length L" using S nth by (metis add_0 le_neq_implies_less nth_mem)
  qed
  show "take (length (absorb L n)) (bl[?i := n]) = absorb L n"
  proof (cases "n \<in> set L")
    case True
    then have "?i < length L" using iff S by (metis add_0 le_neq_implies_less)
    then have "bl[?i := n] = bl" using S by (metis add_0 list_update_id)
    then show ?thesis using assms(1) True by (simp add: absorb_def)
  next
    case False
    then show ?thesis using assms iff by (simp add: absorb_def take_Suc_conv_app_nth)
  qed
qed

section \<open>Logging a block\<close>

text \<open>
  A process inside a transaction: it holds the buffers \<open>H\<close>, and the log has \<open>L\<close> so far. \<open>log_write\<close> panics
  when the log is full; \<open>log_room\<close> says that it is not.
\<close>

definition in_op :: "'a log_st_scheme \<Rightarrow> nat \<Rightarrow> nat set \<Rightarrow> (u32 \<Rightarrow> nat) \<Rightarrow> u32 list \<Rightarrow> bool" where
  "in_op s p H loc L \<longleftrightarrow> cache_inv s (lg_dev (log s)) p H (pins_of loc (set L)) \<and> located s (lg_dev (log s)) loc (set L) \<and>
     log_ready s L \<and> lock_free (lg_lock (log s)) \<and> 1 \<le> lg_outstanding (log s) \<and> length (lh_block (log s)) = LOGSIZE"

definition log_room :: "'a log_st_scheme \<Rightarrow> u32 list \<Rightarrow> bool" where
  "log_room s L \<longleftrightarrow> length L < LOGSIZE \<and> int (length L) < lg_size (log s) - 1 \<and> Suc (length L) < NBUF"

lemma pins_of_absorb:
  assumes "n \<notin> E" "\<And>e. e \<in> E \<Longrightarrow> loc e \<noteq> b"
  shows "(pins_of loc E)(b := Suc (pins_of loc E b)) = pins_of (loc(n := b)) (insert n E)"
proof -
  have "(loc(n := b)) ` insert n E = insert b (loc ` E)" using assms(1) by auto
  moreover have "b \<notin> loc ` E" using assms(2) by blast
  ultimately show ?thesis by (auto simp: pins_of_def fun_eq_iff)
qed

lemma log_write_fresh:
  assumes t: "in_op s p H loc L" and b: "b \<in> H" and room: "log_room s L"
    and n: "b_blockno (bufs s ! b) = n" "\<not> in_log (lg_start (log s)) (logsz s) (unat n)" "n \<notin> set L"
  defines "t \<equiv> upd_log (\<lambda>l. l\<lparr>lh_block := (lh_block l)[length L := n], lh_n := int (Suc (length L))\<rparr>)
    (upd_buf b (\<lambda>x. x\<lparr>b_refcnt := b_refcnt x + 1\<rparr>) s)"
  shows "log_write b s = Ok t" "in_op t p H (loc(n := b)) (L @ [n])" "view t (lg_dev (log s)) m = view s (lg_dev (log s)) m"
proof -
  have inv: "cache_inv s (lg_dev (log s)) p H (pins_of loc (set L))" and lc: "located s (lg_dev (log s)) loc (set L)"
    and rd: "log_ready s L" and fr: "lock_free (lg_lock (log s))" and out: "1 \<le> lg_outstanding (log s)"
    and lb: "length (lh_block (log s)) = LOGSIZE" using t by (auto simp: in_op_def)
  note D = log_readyD [OF rd] and B = held_buf [OF inv b]
  have ne: "loc e \<noteq> b" if "e \<in> set L" for e using lc that n by (auto simp: located_def holds_block_def)
  then have pb: "pins_of loc (set L) b = 0" by (auto simp: pins_of_def)
  let ?h = "\<lambda>l. l\<lparr>lg_lock := held_by (tp s) (lg_lock (log s))\<rparr>"
  let ?p = "upd_log (\<lambda>l. (?h l)\<lparr>lh_block := (lh_block l)[length L := n]\<rparr>) (push_off s)"
  have sl: "log_slot (length L) 0 n (lh_block (log s)) = length L"
    using log_slot_absorb(1) [OF D(3)] lb room n(3) by (simp add: log_room_def)
  have "cache_inv ?p (lg_dev (log s)) p H (pins_of loc (set L))" using inv by simp
  from bpin_spec(1) [OF this b] have "bpin b ?p = Ok (upd_buf b (\<lambda>x. x\<lparr>b_refcnt := b_refcnt x + 1\<rparr>) ?p)" by (simp add: pb)
  moreover have "release_log (upd_log (\<lambda>l. (?h l)\<lparr>lh_block := (lh_block l)[length L := n], lh_n := lh_n l + 1\<rparr>)
      (upd_buf b (\<lambda>x. x\<lparr>b_refcnt := b_refcnt x + 1\<rparr>) (push_off s))) = Ok t"
  proof -
    have "upd_log (\<lambda>l. (?h l)\<lparr>lh_block := (lh_block l)[length L := n], lh_n := lh_n l + 1, lg_lock := lg_lock (log s)\<rparr>)
        (upd_buf b (\<lambda>x. x\<lparr>b_refcnt := b_refcnt x + 1\<rparr>) s) = t"
      unfolding t_def by (rule upd_log_cong) (simp add: D(2))
    then show ?thesis
      using release_log_section [of "upd_buf b (\<lambda>x. x\<lparr>b_refcnt := b_refcnt x + 1\<rparr>) s" "lg_lock (log s)"
        "\<lambda>l. (?h l)\<lparr>lh_block := (lh_block l)[length L := n], lh_n := lh_n l + 1\<rparr>"] cache_invD(1) [OF inv] fr by simp
  qed
  ultimately show "log_write b s = Ok t"
    using fr out room D(2) n(1) cache_invD(1) [OF inv] sl
    by (simp add: log_write_def Let_def log_room_def upd_buf_upd_log)
  let ?u = "upd_buf b (\<lambda>x. x\<lparr>b_refcnt := b_refcnt x + 1\<rparr>) s"
  have "cache_inv ?u (lg_dev (log s)) p H (pins_of (loc(n := b)) (set (L @ [n])))"
    using bpin_spec(2) [OF inv b] pins_of_absorb [of n "set L" loc b] n(3) ne pb by simp
  moreover have "located ?u (lg_dev (log s)) (loc(n := b)) (set (L @ [n]))"
    using lc B(1-4) n(1) by (auto simp: located_def holds_block_def upd_buf_def nth_list_update)
  moreover have "take (Suc (length L)) ((lh_block (log s))[length L := n]) = L @ [n]"
    using log_slot_absorb(2) [OF D(3), of n] lb room sl n(3) by (simp add: log_room_def absorb_def)
  moreover have "Suc (length L) < logsz s" using room by (auto simp: log_room_def)
  ultimately show "in_op t p H (loc(n := b)) (L @ [n])"
    using fr out lb D room n B(5) by (simp add: in_op_def t_def log_room_def log_ready_def)
  show "view t (lg_dev (log s)) m = view s (lg_dev (log s)) m"
    using bpin_spec(3) [OF inv b] by (simp add: t_def pb)
qed

lemma log_write_again:
  assumes t: "in_op s p H loc L" and b: "b \<in> H" and room: "log_room s L" and n: "b_blockno (bufs s ! b) \<in> set L"
  shows "log_write b s = Ok s"
proof -
  have inv: "cache_inv s (lg_dev (log s)) p H (pins_of loc (set L))"
    and rd: "log_ready s L" and fr: "lock_free (lg_lock (log s))" and out: "1 \<le> lg_outstanding (log s)"
    and lb: "length (lh_block (log s)) = LOGSIZE" using t by (auto simp: in_op_def)
  note D = log_readyD [OF rd]
  let ?n = "b_blockno (bufs s ! b)" and ?h = "\<lambda>l. l\<lparr>lg_lock := held_by (tp s) (lg_lock (log s))\<rparr>"
  let ?i = "log_slot (length L) 0 ?n (lh_block (log s))"
  have ne: "?i \<noteq> length L" using log_slot_absorb(1) [OF D(3)] lb room n by (simp add: log_room_def)
  then have "lh_block (log s) ! ?i = ?n" using log_slot_spec [of 0 "length L" ?n "lh_block (log s)"] by simp
  then have lu: "(lh_block (log s))[?i := ?n] = lh_block (log s)" by (metis list_update_id)
  have "upd_log (\<lambda>l. (?h l)\<lparr>lh_block := (lh_block l)[?i := ?n], lg_lock := lg_lock (log s)\<rparr>) s = upd_log (\<lambda>l. l) s"
    by (rule upd_log_cong) (simp add: lu)
  then have "release_log (upd_log (\<lambda>l. (?h l)\<lparr>lh_block := (lh_block l)[?i := ?n]\<rparr>) (push_off s)) = Ok s"
    using release_log_section [of s "lg_lock (log s)" "\<lambda>l. (?h l)\<lparr>lh_block := (lh_block l)[?i := ?n]\<rparr>"]
      cache_invD(1) [OF inv] fr by (simp add: upd_log_def)
  then show ?thesis
    using fr out room D(2) cache_invD(1) [OF inv] ne by (simp add: log_write_def Let_def log_room_def)
qed

lemma log_write_spec:
  assumes t: "in_op s p H loc L" and b: "b \<in> H" and room: "log_room s L"
    and n: "b_blockno (bufs s ! b) = n" "\<not> in_log (lg_start (log s)) (logsz s) (unat n)"
  obtains t loc' where "log_write b s = Ok t" "in_op t p H loc' (absorb L n)" "disk t = disk s" "disk_writes t = disk_writes s"
    "\<And>m. view t (lg_dev (log s)) m = view s (lg_dev (log s)) m" "\<And>a. shows_same (bufs t ! a) (bufs s ! a)"
    "lg_dev (log t) = lg_dev (log s)" "lg_start (log t) = lg_start (log s)" "lg_size (log t) = lg_size (log s)"
    "lg_outstanding (log t) = lg_outstanding (log s)" "procs t = procs s"
proof (cases "n \<in> set L")
  case True
  then show ?thesis
    using log_write_again [OF t b room] n t by (intro that [of s loc]) (simp_all add: absorb_def shows_same_def)
next
  case False
  note W = log_write_fresh [OF t b room n False]
  have "b < length (bufs s)" using held_buf(2) b t by (auto simp: in_op_def)
  moreover have "absorb L n = L @ [n]" using False by (simp add: absorb_def)
  ultimately show ?thesis
    using that [OF W(1), of "loc(n := b)"] W(2,3) by (simp add: shows_same_def) (simp add: upd_buf_def nth_list_update)
qed

section \<open>Crash safety\<close>

text \<open>
  The machine after a reboot: the cache is empty and the memory of the log is zeroed; only the disk is left.
\<close>

definition rebooted :: "'a log_st_scheme \<Rightarrow> u32 \<Rightarrow> nat \<Rightarrow> bytes list \<Rightarrow> bool" where
  "rebooted r dev p D \<longleftrightarrow> cache_inv r dev p {} (\<lambda>_. 0) \<and> length (lh_block (log r)) = LOGSIZE \<and> disk r = D"

lemma pins_of_empty: "pins_of loc {} = (\<lambda>_. 0)"
  by (simp add: pins_of_def fun_eq_iff)

abbreviation sb_logsz :: "superblock \<Rightarrow> nat" where
  "sb_logsz sb \<equiv> nat (sint (sb_nlog sb))"

lemma initlog_spec:
  assumes R: "recovers_to (sb_logstart sb) (sb_logsz sb) D C" and r: "rebooted r dev p D"
  obtains t W where "initlog dev sb r = Ok t" "disk_writes t = disk_writes r @ W" "disk t = apply_writes W D"
    "\<And>j. recovers_to (sb_logstart sb) (sb_logsz sb) (apply_writes (take j W) D) C"
    "\<And>m. m < length D \<Longrightarrow> \<not> in_log (sb_logstart sb) (sb_logsz sb) m \<Longrightarrow> disk t ! m = C m" "txn t p loc []" "lg_dev (log t) = dev"
proof -
  let ?start = "sb_logstart sb" and ?sz = "sb_logsz sb"
  let ?r = "upd_log (\<lambda>l. l\<lparr>lg_lock := initlock ''log'', lg_start := ?start, lg_size := sint (sb_nlog sb), lg_dev := dev\<rparr>) r"
  obtain n where n: "n \<le> LOGSIZE" "n < ?sz" "get32 (D ! unat ?start) 0 = of_nat n"
    "\<forall>e\<in>set (head_list (D ! unat ?start) n). unat e < length D \<and> \<not> in_log ?start ?sz (unat e)"
    "\<forall>m<length D. \<not> in_log ?start ?sz m \<longrightarrow> apply_writes (recover_writes ?start D n) D ! m = C m"
    and fits: "log_fits ?start ?sz D" using R by (auto simp: recovers_to_def)
  have q: "quiet ?r dev p loc {}" using r by (simp add: quiet_def rebooted_def pins_of_empty located_def)
  have dr: "disk ?r = D" "disk_writes ?r = disk_writes r" using r by (simp_all add: rebooted_def)
  obtain bl t where T: "recover_from_log ?r = Ok t" "quiet t dev p loc {}" "log_ready t []" "lg_dev (log t) = dev"
    "disk t = (apply_writes (recover_writes ?start D n) D)[unat ?start := head_block 0 bl (D ! unat ?start)]"
    "disk_writes t = disk_writes r @ recover_writes ?start D n @ [(unat ?start, head_block 0 bl (D ! unat ?start))]"
    "length (D ! unat ?start) = BSIZE"
    by (rule recover_spec [OF q, of ?start ?sz n, unfolded dr]) (use n(1-4) fits r in \<open>simp_all add: rebooted_def\<close>)
  let ?W = "recover_writes ?start D n @ [(unat ?start, head_block 0 bl (D ! unat ?start))]"
  have "recovers_to ?start ?sz (apply_writes (take j ?W) D) C" for j
    by (rule recovers_to_crash [OF R n(3,1)]) (use head_block_spec(1,2) [OF T(7), of 0 bl] in simp_all)
  moreover have "disk t ! m = C m" if "m < length D" "\<not> in_log ?start ?sz m" for m
  proof -
    have "m \<noteq> unat ?start" using that(2) log_fitsD(3) [OF fits] by auto
    then show ?thesis using n(5) that T(5) by simp
  qed
  moreover have "initlog dev sb r = Ok t" using T(1) by (simp add: initlog_def BSIZE_def LOGSIZE_def)
  moreover have "txn t p loc []" using T(2-4) by (simp add: txn_def)
  ultimately show ?thesis using T(4-6) by (intro that [of t ?W]) simp_all
qed

text \<open>
  \<open>crashes dev sb D D'\<close>: from the disk \<open>D\<close> the machine is booted any number of times, and each time it crashes
  after some of the writes of \<open>initlog\<close>; then the disk is \<open>D'\<close>.
\<close>

inductive crashes :: "u32 \<Rightarrow> superblock \<Rightarrow> bytes list \<Rightarrow> bytes list \<Rightarrow> bool" for dev sb D where
  crashes_none: "crashes dev sb D D"
| crashes_again: "crashes dev sb D D' \<Longrightarrow> rebooted (r :: log_st) dev p D' \<Longrightarrow> initlog dev sb r = Ok t \<Longrightarrow>
    disk_writes t = disk_writes r @ W \<Longrightarrow> crashes dev sb D (apply_writes (take j W) D')"

lemma crashes_recover: "crashes dev sb D D' \<Longrightarrow> recovers_to (sb_logstart sb) (sb_logsz sb) D C \<Longrightarrow> recovers_to (sb_logstart sb) (sb_logsz sb) D' C"
proof (induction rule: crashes.induct)
  case (crashes_again D' r p t W j)
  then have "recovers_to (sb_logstart sb) (sb_logsz sb) D' C" by simp
  then obtain u V where "initlog dev sb r = Ok u" "disk_writes u = disk_writes r @ V"
    "\<And>j. recovers_to (sb_logstart sb) (sb_logsz sb) (apply_writes (take j V) D') C"
    by (rule initlog_spec [OF _ crashes_again.hyps(2)]) blast
  then show ?case using crashes_again.hyps(3,4) by simp
qed simp

lemma length_crashes: "crashes dev sb D D' \<Longrightarrow> length D' = length D"
  by (induction rule: crashes.induct) simp_all

text \<open>
  A concrete transaction: a disk of 36 blocks whose log starts at block 2, and one logged block, 32, whose new
  content is in buffer 0.
\<close>

definition demo_log :: log_t where
  "demo_log = \<lparr>lg_lock = initlock ''log'', lg_start = 2, lg_size = 30, lg_outstanding = 1, lg_committing = False,
     lg_dev = 1, lh_n = 1, lh_block = 32 # replicate 29 0\<rparr>"

definition demo_disk :: "bytes list" where
  "demo_disk = replicate 36 (replicate BSIZE 0)"

definition demo_txn :: log_st where
  "demo_txn = upd_buf 0 (\<lambda>x. x\<lparr>b_valid := True, b_dev := 1, b_blockno := 32, b_refcnt := 1, b_data := replicate BSIZE 1\<rparr>)
     (binit (boot_st demo_disk (log_st.fields demo_log)))"

definition demo_sb :: superblock where
  "demo_sb = \<lparr>sb_magic = 0x10203040, sb_size = 36, sb_nblocks = 1, sb_ninodes = 1, sb_nlog = 30, sb_logstart = 2,
     sb_inodestart = 32, sb_bmapstart = 33\<rparr>"

lemma log_boot: "log (binit (boot_st d (log_st.fields l))) = l"
proof -
  have "log (boot_st d (log_st.fields l)) = l" unfolding boot_st_def log_st.fields_def by simp
  then show ?thesis by (subst binit_spec(1) [OF boot_bufs]) simp
qed

lemma demo_blocks: "\<forall>n<length demo_disk. length (demo_disk ! n) = BSIZE" "length demo_disk = 36"
  by (simp_all add: demo_disk_def)

lemma get32_zero:
  assumes "off + 4 \<le> n"
  shows "get32 (replicate n 0) off = 0"
proof -
  have "slice (replicate n 0) off 4 = replicate 4 0" using assms by (simp add: slice_def min_def)
  moreover have "dec32 (replicate 4 0) = 0" unfolding dec32_def by (simp only: nth_replicate) simp
  ultimately show ?thesis by (simp add: get32_def)
qed

lemma demo_cache: "cache_inv demo_txn 1 0 {} (pins_of (\<lambda>_. 0) {32})"
proof -
  let ?s = "binit (boot_st demo_disk (log_st.fields demo_log))"
  note I = cache_inv_boot(1) [OF demo_blocks(1), of "log_st.fields demo_log"]
  note S = binit_spec(3) [OF boot_bufs, of _ demo_disk "log_st.fields demo_log"]
  have z: "0 < NBUF" by (simp add: NBUF_def)
  have b: "core (bufs ?s ! a) = core (zero_buf\<lparr>b_lock := initsleeplock ''buffer''\<rparr>)" if "a < NBUF" for a using S that .
  show ?thesis unfolding demo_txn_def upd_buf_def
    by (rule cache_inv_update [OF I z])
      (use b [OF z] b in \<open>auto simp: core_eq zero_buf_def pins_of_def buf_ok_def initsleeplock_def binit_fields [OF boot_bufs] demo_blocks\<close>)
qed

lemma demo_txn_fields: "log demo_txn = demo_log" "disk demo_txn = demo_disk"
  by (simp_all add: demo_txn_def log_boot binit_fields [OF boot_bufs])

lemma demo_txn_ok: "txn demo_txn 0 (\<lambda>_. 0) [32]"
proof -
  note lg = demo_txn_fields(1) and dk = demo_txn_fields(2)
  have "length (bufs demo_txn) = Suc NBUF" using cache_invD(6) [OF demo_cache] .
  then have "holds_block 1 32 (bufs demo_txn ! 0)" by (simp add: demo_txn_def upd_buf_def holds_block_def)
  moreover have "log_fits 2 30 demo_disk" "get32 (demo_disk ! 2) 0 = 0" "\<not> in_log 2 30 32"
    by (simp_all add: log_fits_def LOGSIZE_def demo_blocks in_log_def) (simp add: demo_disk_def get32_zero BSIZE_def)
  then have "log_ready demo_txn [32]"
    unfolding log_ready_def lg dk by (simp add: demo_log_def demo_blocks NBUF_def LOGSIZE_def)
  ultimately show ?thesis using demo_cache by (simp add: txn_def lg quiet_def located_def demo_log_def NBUF_def)
qed

text \<open>
  C1: Commits are atomic with respect to crashes. A commit returns; whatever prefix of its writes has reached
  the disk when the machine stops, and however often recovery itself is interrupted by further crashes, the
  first boot whose recovery completes leaves, outside the log, the old content of every block if the header
  had not been written, and the content of every block with all updates of the transaction otherwise. The log
  is the \<open>lg_size\<close> blocks that the superblock gives it, and its header is one of them.
\<close>

theorem commit_crash_atomic:
  assumes "txn s p loc L" "L \<noteq> []" "sb_logstart sb = lg_start (log s)" "sint (sb_nlog sb) = lg_size (log s)"
  shows "\<exists>u W. commit s = Ok u \<and> disk_writes u = disk_writes s @ W \<and>
    (\<forall>k D (r :: log_st) q. crashes dev sb (apply_writes (take k W) (disk s)) D \<and> rebooted r dev q D \<longrightarrow>
      (\<exists>t. initlog dev sb r = Ok t \<and> (\<forall>m<length (disk s). \<not> in_log (lg_start (log s)) (logsz s) m \<longrightarrow>
         disk t ! m = (if k \<le> length L then disk s ! m else view s (lg_dev (log s)) (of_nat m)))))"
proof -
  obtain u where u: "commit s = Ok u" "disk_writes u = disk_writes s @ commit_writes s L"
    by (rule commit_spec [OF assms(1,2)]) blast
  let ?C = "\<lambda>k m. if k \<le> length L then disk s ! m else view s (lg_dev (log s)) (of_nat m)"
  have "\<exists>t. initlog dev sb r = Ok t \<and> (\<forall>m<length (disk s). \<not> in_log (lg_start (log s)) (logsz s) m \<longrightarrow> disk t ! m = ?C k m)"
    if D: "crashes dev sb (apply_writes (take k (commit_writes s L)) (disk s)) D" and r: "rebooted r dev q D" for k D q and r :: log_st
  proof -
    have "recovers_to (sb_logstart sb) (sb_logsz sb) D (?C k)"
      by (rule crashes_recover [OF D]) (use commit_crash [OF assms(1), of k] assms(3,4) in simp)
    then obtain t where "initlog dev sb r = Ok t"
      "\<And>m. m < length D \<Longrightarrow> \<not> in_log (sb_logstart sb) (sb_logsz sb) m \<Longrightarrow> disk t ! m = ?C k m" by (rule initlog_spec [OF _ r]) blast
    then show ?thesis using length_crashes [OF D] assms(3,4) by auto
  qed
  with u show ?thesis by blast
qed

theorem commit_crash_atomic_witness:
  "\<exists>u W. commit demo_txn = Ok u \<and> disk_writes u = disk_writes demo_txn @ W \<and>
    (\<forall>k D (r :: log_st) q. crashes 1 demo_sb (apply_writes (take k W) (disk demo_txn)) D \<and> rebooted r 1 q D \<longrightarrow>
      (\<exists>t. initlog 1 demo_sb r = Ok t \<and> (\<forall>m<length (disk demo_txn). \<not> in_log (lg_start (log demo_txn)) (logsz demo_txn) m \<longrightarrow>
         disk t ! m = (if k \<le> length [32 :: u32] then disk demo_txn ! m else view demo_txn (lg_dev (log demo_txn)) (of_nat m)))))"
  by (rule commit_crash_atomic [OF demo_txn_ok]) (simp_all add: demo_txn_fields(1) demo_sb_def demo_log_def)

section \<open>Updates and commits as abstract operations\<close>

text \<open>How the file system changes a block inside a transaction.\<close>

definition log_store :: "u32 \<Rightarrow> bytes \<Rightarrow> 'a log_st_scheme \<Rightarrow> 'a log_st_scheme outcome" where
  "log_store n d s =
     bnd (bread (lg_dev (log s)) n s) (\<lambda>(b, s). bnd (log_write b (upd_buf b (\<lambda>x. x\<lparr>b_data := d\<rparr>) s)) (brelse b))"

lemma in_op_quiet: "in_op s p {} loc L \<Longrightarrow> quiet s (lg_dev (log s)) p loc (set L)"
  by (simp add: in_op_def quiet_def)

lemma absorb_pinned: "n \<in> set (absorb L n)"
  by (simp add: absorb_def)

lemma log_store_spec:
  assumes t: "in_op s p {} loc L" and room: "log_room s L" and n: "unat n < length (disk s)" "\<not> in_log (lg_start (log s)) (logsz s) (unat n)"
    and d: "length d = BSIZE"
  obtains t loc' where "log_store n d s = Ok t" "in_op t p {} loc' (absorb L n)" "disk t = disk s" "disk_writes t = disk_writes s"
    "\<And>m. view t (lg_dev (log s)) m = (if m = n then d else view s (lg_dev (log s)) m)" "lg_dev (log t) = lg_dev (log s)"
    "lg_start (log t) = lg_start (log s)" "lg_size (log t) = lg_size (log s)"
proof -
  let ?dev = "lg_dev (log s)"
  have "card (set L) < NBUF" using room card_length [of L] by (simp add: log_room_def)
  then obtain b s1 where B: "bread ?dev n s = Ok (b, s1)" "cache_inv s1 ?dev p {b} (pins_of loc (set L))" "located s1 ?dev loc (set L)"
    "b_blockno (bufs s1 ! b) = n" "b_data (bufs s1 ! b) = view s ?dev n" "bio_rest s1 = bio_rest s" "disk s1 = disk s"
    "disk_writes s1 = disk_writes s" "\<And>k. view s1 ?dev k = view s ?dev k" by (rule bread1 [OF in_op_quiet [OF t] n(1)]) blast
  let ?s2 = "upd_buf b (\<lambda>x. x\<lparr>b_data := d\<rparr>) s1"
  have bl: "b < length (bufs s1)" using held_buf(2) [OF B(2)] by simp
  have l1: "log s1 = log s" by (rule bio_rest_log [OF B(6)])
  note S = set_data_spec [OF B(2) insertI1 d]
  have "in_op ?s2 p {b} loc L"
    using S(1) B(3,7) t bl unfolding in_op_def log_ready_def
    by (simp add: l1) (auto simp: located_def holds_block_def upd_buf_def nth_list_update)
  moreover have "log_room ?s2 L" using room by (simp add: log_room_def l1)
  moreover have "b_blockno (bufs ?s2 ! b) = n" using B(4) bl by (simp add: upd_buf_def)
  moreover have "\<not> in_log (lg_start (log ?s2)) (logsz ?s2) (unat n)" using n(2) by (simp add: l1)
  ultimately obtain s3 loc' where W: "log_write b ?s2 = Ok s3" "in_op s3 p {b} loc' (absorb L n)" "disk s3 = disk ?s2" "disk_writes s3 = disk_writes ?s2"
    "\<And>m. view s3 (lg_dev (log ?s2)) m = view ?s2 (lg_dev (log ?s2)) m" "\<And>a. shows_same (bufs s3 ! a) (bufs ?s2 ! a)"
    "lg_dev (log s3) = lg_dev (log ?s2)" "lg_start (log s3) = lg_start (log ?s2)" "lg_size (log s3) = lg_size (log ?s2)"
    by (rule log_write_spec [OF _ insertI1]) blast
  have dv: "lg_dev (log s3) = ?dev" using W(7) l1 by simp
  have inv3: "cache_inv s3 ?dev p {b} (pins_of loc' (set (absorb L n)))" and lc3: "located s3 ?dev loc' (set (absorb L n))"
    using W(2) dv by (simp_all add: in_op_def)
  have "b = loc' n"
    by (rule located_pinned [OF inv3 lc3 _ _ _ absorb_pinned]) (use held_buf(1,4) [OF inv3, of b] W(6) [of b] B(4) bl in \<open>auto simp: shows_same_def upd_buf_def\<close>)
  then have pin: "pins_of loc' (set (absorb L n)) b \<noteq> 0" using absorb_pinned by (simp add: pins_of_def)
  obtain u where U: "brelse b s3 = Ok u" "cache_inv u ?dev p ({b} - {b}) (pins_of loc' (set (absorb L n)))" "located u ?dev loc' (set (absorb L n))"
    "bio_rest u = bio_rest s3" "disk u = disk s3" "disk_writes u = disk_writes s3" "\<And>k. view u ?dev k = view s3 ?dev k"
    by (rule brelse_step [OF inv3 lc3 insertI1]) (use pin in auto)
  have lu: "log u = log s3" by (rule bio_rest_log [OF U(4)])
  have "in_op u p {} loc' (absorb L n)" using W(2) U(2,3,5) lu dv unfolding in_op_def log_ready_def by simp
  moreover have "log_store n d s = Ok u" using B(1) W(1) U(1) by (simp add: log_store_def)
  ultimately show ?thesis
    using that [of u loc'] U(5-7) W(3-5,7-9) S(2) B(4,7-9) lu by (simp add: l1)
qed

text \<open>
  C8: Changing a block inside a transaction (\<open>bread\<close>, store, \<open>log_write\<close>, \<open>brelse\<close>) succeeds while the log has
  room: readers see the new content at once, the block is listed in the log exactly once however often it is
  changed, and nothing is written to the disk before the commit.
\<close>

theorem log_store_absorbs:
  assumes "in_op s p {} loc L" "log_room s L" "unat n < length (disk s)" "\<not> in_log (lg_start (log s)) (logsz s) (unat n)" "length d = BSIZE"
  shows "\<exists>t loc'. log_store n d s = Ok t \<and> in_op t p {} loc' (absorb L n) \<and> disk t = disk s \<and> disk_writes t = disk_writes s \<and>
    (\<forall>m. view t (lg_dev (log s)) m = (if m = n then d else view s (lg_dev (log s)) m))"
  by (rule log_store_spec [OF assms]) blast

lemma demo_in_op: "in_op demo_txn 0 {} (\<lambda>_. 0) [32]"
  using demo_txn_ok by (simp add: txn_def quiet_def in_op_def demo_txn_fields) (simp add: demo_log_def LOGSIZE_def)

theorem log_store_absorbs_witness:
  "\<exists>t loc'. log_store 32 (replicate BSIZE 2) demo_txn = Ok t \<and> in_op t 0 {} loc' [32] \<and> disk t = demo_disk \<and>
     view t 1 32 = replicate BSIZE 2"
proof -
  have "log_room demo_txn [32]" "\<not> in_log 2 30 32" "unat (32 :: u32) < length demo_disk"
    by (simp_all add: log_room_def demo_txn_fields demo_blocks in_log_def) (simp_all add: demo_log_def LOGSIZE_def NBUF_def)
  moreover have "lg_start demo_log = 2" "lg_dev demo_log = 1" "lg_size demo_log = 30" by (simp_all add: demo_log_def)
  ultimately show ?thesis
    using log_store_absorbs [OF demo_in_op, of 32 "replicate BSIZE 2"] by (auto simp: demo_txn_fields absorb_def)
qed

text \<open>
  C9: A commit makes the disk equal to what readers saw: it returns with every block outside the log on the
  disk, that is outside the \<open>lg_size\<close> blocks from \<open>lg_start\<close> on, as it was in the cache, what readers see unchanged, no buffer pinned and the log empty, also on the disk.
\<close>

theorem commit_installs:
  assumes "txn s p loc L"
  shows "\<exists>u. commit s = Ok u \<and> txn u p loc [] \<and>
    (\<forall>m<length (disk s). \<not> in_log (lg_start (log s)) (logsz s) m \<longrightarrow>
       disk u ! m = view s (lg_dev (log s)) (of_nat m) \<and> view u (lg_dev (log s)) (of_nat m) = view s (lg_dev (log s)) (of_nat m))"
proof -
  let ?dev = "lg_dev (log s)" and ?start = "lg_start (log s)" and ?sz = "logsz s"
  have fits: "log_fits ?start ?sz (disk s)" using assms by (auto simp: txn_def log_ready_def)
  have um: "unat (of_nat m :: u32) = m" if "m < length (disk s)" for m
    using fits that by (simp add: log_fits_def unat_of_nat take_bit_nat_eq_self)
  obtain u where u: "commit s = Ok u" "txn u p loc []" "lg_dev (log u) = ?dev"
    "\<And>k. \<not> in_log ?start ?sz (unat k) \<Longrightarrow> view u ?dev k = view s ?dev k"
  proof (cases "L = []")
    case True
    then show ?thesis using that [of s] assms by (simp add: txn_def commit_def log_ready_def)
  next
    case False
    then obtain u where C: "commit s = Ok u" "txn u p loc []" "\<And>k. \<not> in_log ?start ?sz (unat k) \<Longrightarrow> view u ?dev k = view s ?dev k"
      "bio_rest u = bio_rest (upd_log (\<lambda>l. l\<lparr>lh_n := 0\<rparr>) s)" by (rule commit_spec [OF assms]) blast
    have "lg_dev (log u) = ?dev" using bio_rest_log [OF C(4)] by simp
    then show ?thesis by (rule that [OF C(1,2) _ C(3)])
  qed
  have "disk u ! m = view u ?dev (of_nat m)" if "m < length (disk s)" for m
    using view_unpinned [of u ?dev p loc "{}" "of_nat m"] u(2,3) um [OF that] by (simp add: txn_def)
  with u(1,2,4) um show ?thesis by (intro exI [of _ u]) simp
qed

theorem commit_installs_witness:
  "\<exists>u. commit demo_txn = Ok u \<and> disk u ! 32 = view demo_txn 1 32"
proof -
  have "\<not> in_log 2 30 32" "lg_start demo_log = 2" "lg_dev demo_log = 1" "lg_size demo_log = 30" by (simp_all add: demo_log_def in_log_def LOGSIZE_def)
  moreover obtain u where "commit demo_txn = Ok u" "\<forall>m<length demo_disk. \<not> in_log (lg_start demo_log) (nat (lg_size demo_log)) m \<longrightarrow>
      disk u ! m = view demo_txn (lg_dev demo_log) (of_nat m)"
    using commit_installs [OF demo_txn_ok] unfolding demo_txn_fields by blast
  ultimately show ?thesis by (auto simp: demo_blocks dest!: spec [of _ 32])
qed

text \<open>What \<open>begin_op\<close> does when the locks are free.\<close>

lemma begin_op_eq:
  assumes "calm s" "lock_free (lg_lock (log s))"
  shows "begin_op s =
    (if \<not> lg_committing (log s) \<and> lh_n (log s) + (lg_outstanding (log s) + 1) * MAXOPBLOCKS \<le> int LOGSIZE
     then Ok (upd_log (\<lambda>l. l\<lparr>lg_outstanding := lg_outstanding l + 1\<rparr>) s)
     else sleep ChanLog (\<lambda>s. lg_lock (log s)) (\<lambda>f. upd_log (lg_lock_update f))
            (upd_log (\<lambda>l. l\<lparr>lg_lock := held_by (tp s) (lg_lock (log s))\<rparr>) (push_off s)))"
proof -
  have "upd_log (\<lambda>l. l\<lparr>lg_lock := held_by (tp s) (lg_lock (log s)), lg_outstanding := lg_outstanding l + 1, lg_lock := lg_lock (log s)\<rparr>) s =
      upd_log (\<lambda>l. l\<lparr>lg_outstanding := lg_outstanding l + 1\<rparr>) s"
    by (rule upd_log_cong) simp
  then show ?thesis
    using assms release_log_section [of s "lg_lock (log s)" "\<lambda>l. l\<lparr>lg_lock := held_by (tp s) (lg_lock (log s)), lg_outstanding := lg_outstanding l + 1\<rparr>"]
    by (simp add: begin_op_def not_le)
qed

end
