(* ===== verification/Pagetable.thy ===== *)
theory Pagetable
  imports Vm
begin

text \<open>
  Page tables as trees. \<open>pt_pages\<close> lists the pages a table is made of, \<open>xlate\<close> is the leaf entry that
  the hardware finds for a virtual address (0 if there is none). The lemmas show what the code of
  kernel/vm.c does to these two: \<open>walk\<close> adds empty tables without changing any translation, and a
  store to the entry it returns changes the translation of that page alone.
\<close>

section \<open>Trees of page-table pages\<close>

definition eaddr :: "addr \<Rightarrow> nat \<Rightarrow> addr" where
  "eaddr pt i = pt + of_nat (8 * i)"

definition entry :: "mem \<Rightarrow> addr \<Rightarrow> nat \<Rightarrow> u64" where
  "entry m pt i = load64 m (eaddr pt i)"

definition valid :: "u64 \<Rightarrow> bool" where
  "valid e \<longleftrightarrow> e AND PTE_V \<noteq> 0"

definition idx :: "nat \<Rightarrow> u64 \<Rightarrow> nat" where
  "idx l va = unat (PX l va)"

fun pt_pages :: "mem \<Rightarrow> nat \<Rightarrow> addr \<Rightarrow> addr list" where
  "pt_pages m 0 pt = [pt]"
| "pt_pages m (Suc l) pt = pt # concat (map (\<lambda>i.
     if valid (entry m pt i) then pt_pages m l (PTE2PA (entry m pt i)) else []) [0..<512])"

fun xlate :: "mem \<Rightarrow> nat \<Rightarrow> addr \<Rightarrow> u64 \<Rightarrow> u64" where
  "xlate m 0 pt va = entry m pt (idx 0 va)"
| "xlate m (Suc l) pt va =
     (let e = entry m pt (idx (Suc l) va) in if valid e then xlate m l (PTE2PA e) va else 0)"

fun leaf_slot :: "mem \<Rightarrow> nat \<Rightarrow> addr \<Rightarrow> u64 \<Rightarrow> addr option" where
  "leaf_slot m 0 pt va = Some (slot pt 0 va)"
| "leaf_slot m (Suc l) pt va =
     (let e = entry m pt (idx (Suc l) va) in if valid e then leaf_slot m l (PTE2PA e) va else None)"

definition subtree :: "mem \<Rightarrow> nat \<Rightarrow> addr \<Rightarrow> nat \<Rightarrow> addr list" where
  "subtree m l pt i = (if valid (entry m pt i) then pt_pages m l (PTE2PA (entry m pt i)) else [])"

lemma pt_pages_Suc: "pt_pages m (Suc l) pt = pt # concat (map (subtree m l pt) [0..<512])"
  by (simp add: subtree_def [abs_def])

declare pt_pages.simps(2) [simp del]

lemma root_in_pt_pages [simp]: "pt \<in> set (pt_pages m l pt)"
  by (cases l) (simp_all add: pt_pages_Suc)

lemma subtree_subset: "i < 512 \<Longrightarrow> set (subtree m l pt i) \<subseteq> set (pt_pages m (Suc l) pt)"
  by (auto simp: pt_pages_Suc)

section \<open>Entries\<close>

lemma idx_less [simp]: "idx l va < 512"
proof -
  have "PX l va = take_bit 9 (drop_bit (12 + 9 * l) va)"
    by (simp add: PX_def take_bit_eq_mask mask_eq_exp_minus_1)
  then have "idx l va = take_bit 9 (unat (drop_bit (12 + 9 * l) va))"
    by (simp add: idx_def unsigned_take_bit_eq)
  then show ?thesis by (simp add: take_bit_eq_mod)
qed

lemma slot_eq: "slot pt l va = eaddr pt (idx l va)"
  by (simp add: slot_def idx_def eaddr_def)

lemma entry_slot: "load64 m (slot pt l va) = entry m pt (idx l va)"
  by (simp add: entry_def slot_eq)

lemma entry_addr: "i < 512 \<Longrightarrow> in_rng (eaddr pt i) 8 x \<longleftrightarrow> unat (x - pt) div 8 = i"
proof
  assume i: "i < 512" and "in_rng (eaddr pt i) 8 x"
  then obtain k where k: "k < 8" "x = pt + of_nat (8 * i) + of_nat k" by (auto simp: in_rng_iff eaddr_def)
  then have "x = pt + of_nat (8 * i + k)" by (simp add: add.assoc)
  with i k(1) have "unat (x - pt) = 8 * i + k" by (subst (asm) eq_add_of_nat) auto
  with k(1) show "unat (x - pt) div 8 = i" by simp
next
  assume i: "i < 512" and d: "unat (x - pt) div 8 = i"
  let ?k = "unat (x - pt) mod 8"
  have "unat (x - pt) = 8 * i + ?k" using d by (metis mult_div_mod_eq)
  then have "x = pt + of_nat (8 * i + ?k)" using i by (subst eq_add_of_nat) auto
  then have "x = pt + of_nat (8 * i) + of_nat ?k" by (simp only: of_nat_add add.assoc)
  moreover have "?k < 8" by simp
  ultimately show "in_rng (eaddr pt i) 8 x" unfolding in_rng_iff eaddr_def
    by (intro exI [of _ ?k]) (auto intro: less_trans)
qed

lemma entry_in_page: "i < 512 \<Longrightarrow> in_rng (eaddr pt i) 8 x \<Longrightarrow> in_rng pt 4096 x"
proof -
  assume "i < 512" "in_rng (eaddr pt i) 8 x"
  then have "unat (x - pt) div 8 < 512" by (simp add: entry_addr)
  then show ?thesis by (simp add: in_rng_def div_less_iff_less_mult)
qed

lemma entry_cong:
  "(\<And>x. in_rng pt 4096 x \<Longrightarrow> m x = m' x) \<Longrightarrow> i < 512 \<Longrightarrow> entry m pt i = entry m' pt i"
  unfolding entry_def by (rule load_cong) (auto dest: entry_in_page)

lemma entry_store_same [simp]: "entry (store64 m (eaddr pt i) v) pt i = v"
  by (simp add: entry_def)

lemma entry_store_other:
  "i < 512 \<Longrightarrow> j < 512 \<Longrightarrow> i \<noteq> j \<Longrightarrow> entry (store64 m (eaddr pt i) v) pt j = entry m pt j"
  unfolding entry_def by (rule load_store_other) (auto simp: entry_addr)

lemma store_entry_outside: "i < 512 \<Longrightarrow> \<not> in_rng pt 4096 x \<Longrightarrow> store64 m (eaddr pt i) v x = m x"
  by (auto simp: store_def dest: entry_in_page)

section \<open>Trees depend on their own pages only\<close>

definition same_on :: "mem \<Rightarrow> mem \<Rightarrow> addr set \<Rightarrow> bool" where
  "same_on m m' P \<longleftrightarrow> (\<forall>p\<in>P. \<forall>x. in_rng p 4096 x \<longrightarrow> m' x = m x)"

lemma same_on_subset: "same_on m m' P \<Longrightarrow> Q \<subseteq> P \<Longrightarrow> same_on m m' Q"
  by (auto simp: same_on_def)

lemma same_on_entry: "same_on m m' P \<Longrightarrow> pt \<in> P \<Longrightarrow> i < 512 \<Longrightarrow> entry m' pt i = entry m pt i"
  by (rule entry_cong) (auto simp: same_on_def)

lemma tree_frame:
  assumes "same_on m m' (set (pt_pages m l pt))"
  shows "pt_pages m' l pt = pt_pages m l pt \<and> xlate m' l pt va = xlate m l pt va \<and>
    leaf_slot m' l pt va = leaf_slot m l pt va"
  using assms
proof (induction l arbitrary: pt)
  case 0
  then show ?case by (auto intro: same_on_entry)
next
  case (Suc l)
  have e: "entry m' pt i = entry m pt i" if "i < 512" for i
    using that Suc.prems by (auto intro: same_on_entry)
  have sub: "pt_pages m' l c = pt_pages m l c \<and> xlate m' l c va = xlate m l c va \<and>
      leaf_slot m' l c va = leaf_slot m l c va"
    if "i < 512" "valid (entry m pt i)" "c = PTE2PA (entry m pt i)" for i c
    using that subtree_subset [of i m l pt] Suc.prems
    by (intro Suc.IH) (auto simp: subtree_def intro: same_on_subset)
  have "subtree m' l pt i = subtree m l pt i" if "i < 512" for i
    using e [OF that] sub [OF that] by (simp add: subtree_def)
  then show ?case using e [of "idx (Suc l) va"] sub [of "idx (Suc l) va"]
    by (auto simp: pt_pages_Suc Let_def intro!: arg_cong [of _ _ concat])
qed

lemma zero_page:
  assumes "\<And>x. in_rng p 4096 x \<Longrightarrow> m x = 0"
  shows "i < 512 \<Longrightarrow> entry m p i = 0" "pt_pages m l p = [p]" "xlate m l p va = 0"
proof -
  show e: "entry m p i = 0" if "i < 512" for i
    using entry_cong [of p m "\<lambda>_. 0" i] that assms by (simp add: entry_def)
  then show "pt_pages m l p = [p]" "xlate m l p va = 0"
    by (cases l; auto simp: pt_pages_Suc subtree_def valid_def e)+
qed

section \<open>Changing one subtree\<close>

lemma mset_concat_upt: "mset (concat (map f [0..<n])) = (\<Sum>i<n. mset (f i))"
  by (induction n) (simp_all add: add.commute)

lemma mset_concat_change:
  assumes "i < n" "\<And>j. j < n \<Longrightarrow> j \<noteq> i \<Longrightarrow> g j = f j" "mset (g i) = mset (f i) + M"
  shows "mset (concat (map g [0..<n])) = mset (concat (map f [0..<n])) + M"
proof -
  have "(\<Sum>j<n. mset (g j)) = mset (g i) + (\<Sum>j\<in>{..<n} - {i}. mset (g j))"
    using assms(1) by (intro sum.remove) auto
  also have "(\<Sum>j\<in>{..<n} - {i}. mset (g j)) = (\<Sum>j\<in>{..<n} - {i}. mset (f j))"
    using assms(2) by (intro sum.cong) auto
  also have "mset (g i) + (\<Sum>j\<in>{..<n} - {i}. mset (f j)) = (mset (f i) + (\<Sum>j\<in>{..<n} - {i}. mset (f j))) + M"
    by (simp add: assms(3))
  also have "mset (f i) + (\<Sum>j\<in>{..<n} - {i}. mset (f j)) = (\<Sum>j<n. mset (f j))"
    using assms(1) by (intro sum.remove [symmetric]) auto
  finally show ?thesis by (simp add: mset_concat_upt)
qed

lemma distinct_concat_upt:
  "distinct (concat (map f [0..<n])) \<Longrightarrow> i < n \<Longrightarrow>
   distinct (f i) \<and> (\<forall>j<n. j \<noteq> i \<longrightarrow> set (f i) \<inter> set (f j) = {})"
proof (induction n arbitrary: i)
  case (Suc n)
  have d: "distinct (concat (map f [0..<n]))" "distinct (f n)"
    and u: "(\<Union>a\<in>{0..<n}. set (f a)) \<inter> set (f n) = {}" using Suc.prems(1) by auto
  have x: "set (f n) \<inter> set (f j) = {}" if "j < n" for j
    using u that by (fastforce simp: disjoint_iff)
  show ?case
  proof (cases "i = n")
    case True
    with d x show ?thesis by (auto simp: less_Suc_eq)
  next
    case False
    with Suc.prems(2) have i: "i < n" by simp
    with Suc.IH [OF d(1) i] x [OF i] show ?thesis by (auto simp: less_Suc_eq)
  qed
qed simp

lemma distinct_subtrees:
  assumes "distinct (pt_pages m (Suc l) pt)" "i < 512"
  shows "distinct (subtree m l pt i)" "pt \<notin> set (subtree m l pt i)"
    "j < 512 \<Longrightarrow> j \<noteq> i \<Longrightarrow> set (subtree m l pt i) \<inter> set (subtree m l pt j) = {}"
  using assms distinct_concat_upt [of "subtree m l pt" 512 i] by (auto simp: pt_pages_Suc)

definition apart :: "addr set \<Rightarrow> bool" where
  "apart P \<longleftrightarrow> (\<forall>p\<in>P. aligned 4096 p)"

text \<open>Memory that changed only inside the pages of \<open>Q\<close> is the same on every other page.\<close>

lemma same_on_apart:
  assumes "\<And>x. \<forall>q\<in>Q. \<not> in_rng q 4096 x \<Longrightarrow> m' x = m x" "apart (P \<union> Q)" "P \<inter> Q = {}"
  shows "same_on m m' P"
  unfolding same_on_def
proof (intro ballI allI impI)
  fix p x assume p: "p \<in> P" "in_rng p 4096 x"
  have "\<not> in_rng q 4096 x" if "q \<in> Q" for q
    using p that assms(2,3) in_rng_disjoint [of 4096 p q x] by (auto simp: apart_def)
  with assms(1) show "m' x = m x" by blast
qed

lemma subtree_change:
  assumes i: "i < 512" "valid (entry m pt i)" and c: "c = PTE2PA (entry m pt i)"
    and d: "distinct (pt_pages m (Suc l) pt @ new)" and al: "apart (set (pt_pages m (Suc l) pt @ new))"
    and out: "\<forall>x. (\<forall>q\<in>set (pt_pages m l c @ new). \<not> in_rng q 4096 x) \<longrightarrow> m' x = m x"
    and pages: "mset (pt_pages m' l c) = mset (pt_pages m l c) + mset new"
  shows "mset (pt_pages m' (Suc l) pt) = mset (pt_pages m (Suc l) pt) + mset new"
    and "xlate m' (Suc l) pt va = (if idx (Suc l) va = i then xlate m' l c va else xlate m (Suc l) pt va)"
    and "idx (Suc l) va = i \<Longrightarrow> leaf_slot m' (Suc l) pt va = leaf_slot m' l c va"
proof -
  have sub: "subtree m l pt i = pt_pages m l c" using i c by (simp add: subtree_def)
  have d': "distinct (pt_pages m (Suc l) pt)" using d by simp
  have "pt \<notin> set new" using d root_in_pt_pages [of pt m "Suc l"] by (auto simp del: root_in_pt_pages)
  then have "same_on m m' {pt}"
    by (intro same_on_apart [where Q = "set (pt_pages m l c @ new)"])
      (use out distinct_subtrees(2) [OF d' i(1)] d al subtree_subset [OF i(1), of m l pt] sub in
        \<open>auto simp: apart_def\<close>)
  then have e: "entry m' pt j = entry m pt j" if "j < 512" for j using that by (simp add: same_on_entry)
  have frame: "same_on m m' (set (subtree m l pt j))" if "j < 512" "j \<noteq> i" for j
    by (rule same_on_apart [where Q = "set (pt_pages m l c @ new)"])
      (use out distinct_subtrees(3) [OF d' i(1) that] d al subtree_subset [OF i(1), of m l pt]
        subtree_subset [OF that(1), of m l pt] sub in \<open>auto simp: apart_def\<close>)
  have other: "subtree m' l pt j = subtree m l pt j" if "j < 512" "j \<noteq> i" for j
    using frame [OF that] e [OF that(1)] tree_frame by (auto simp: subtree_def)
  have "subtree m' l pt i = pt_pages m' l c" using i c e [OF i(1)] by (simp add: subtree_def)
  with mset_concat_change [OF i(1) other] pages sub
  show "mset (pt_pages m' (Suc l) pt) = mset (pt_pages m (Suc l) pt) + mset new"
    by (simp add: pt_pages_Suc)
  show "xlate m' (Suc l) pt va = (if idx (Suc l) va = i then xlate m' l c va else xlate m (Suc l) pt va)"
    using e [OF idx_less] frame [OF idx_less, of "Suc l" va] tree_frame [of m m' l] i(2) c
    by (auto simp: Let_def subtree_def)
  show "leaf_slot m' (Suc l) pt va = leaf_slot m' l c va" if "idx (Suc l) va = i"
    using that e [OF i(1)] i c by (simp add: Let_def)
qed

text \<open>A store to the leaf entry of an address changes the translation of that page and nothing else.\<close>

definition same_page :: "nat \<Rightarrow> u64 \<Rightarrow> u64 \<Rightarrow> bool" where
  "same_page l va va' \<longleftrightarrow> (\<forall>k\<le>l. idx k va = idx k va')"

lemma same_page_Suc: "same_page (Suc l) va va' \<longleftrightarrow> idx (Suc l) va = idx (Suc l) va' \<and> same_page l va va'"
  by (auto simp: same_page_def le_Suc_eq)

lemma store_leaf:
  assumes "leaf_slot m l pt va = Some r" "distinct (pt_pages m l pt)" "apart (set (pt_pages m l pt))"
    and m': "m' = store64 m r v"
  shows "mset (pt_pages m' l pt) = mset (pt_pages m l pt) \<and> leaf_slot m' l pt va = Some r \<and>
    xlate m' l pt va' = (if same_page l va va' then v else xlate m l pt va') \<and>
    (\<forall>x. (\<forall>q\<in>set (pt_pages m l pt). \<not> in_rng q 4096 x) \<longrightarrow> m' x = m x)"
  using assms
proof (induction l arbitrary: pt)
  case 0
  then have r: "r = eaddr pt (idx 0 va)" by (simp add: slot_eq)
  then show ?case using 0
    by (auto simp: m' same_page_def entry_store_other store_entry_outside)
next
  case (Suc l)
  let ?i = "idx (Suc l) va" and ?c = "PTE2PA (entry m pt (idx (Suc l) va))"
  have v: "valid (entry m pt ?i)" and leaf: "leaf_slot m l ?c va = Some r"
    using Suc.prems(1) by (auto simp: Let_def split: if_splits)
  have sub: "subtree m l pt ?i = pt_pages m l ?c" using v by (simp add: subtree_def)
  have in_tree: "set (pt_pages m l ?c) \<subseteq> set (pt_pages m (Suc l) pt)"
    using subtree_subset [of ?i m l pt] sub by simp
  have d: "distinct (pt_pages m l ?c)" using distinct_subtrees(1) [OF Suc.prems(2), of ?i] sub by simp
  have a: "apart (set (pt_pages m l ?c))" using Suc.prems(3) in_tree by (auto simp: apart_def)
  note ih = Suc.IH [OF leaf d a m']
  have out: "\<forall>x. (\<forall>q\<in>set (pt_pages m l ?c @ []). \<not> in_rng q 4096 x) \<longrightarrow> m' x = m x" using ih by simp
  have ps: "mset (pt_pages m' l ?c) = mset (pt_pages m l ?c) + mset []" using ih by simp
  have ds: "distinct (pt_pages m (Suc l) pt @ [])" "apart (set (pt_pages m (Suc l) pt @ []))"
    using Suc.prems by simp_all
  note ch = subtree_change [OF idx_less v refl ds out ps]
  show ?case
  proof (intro conjI)
    show "xlate m' (Suc l) pt va' = (if same_page (Suc l) va va' then v else xlate m (Suc l) pt va')"
      using ch(2) [of va'] ih v by (auto simp: same_page_Suc Let_def)
    show "leaf_slot m' (Suc l) pt va = Some r" using ch(3) ih by simp
    show "\<forall>x. (\<forall>q\<in>set (pt_pages m (Suc l) pt). \<not> in_rng q 4096 x) \<longrightarrow> m' x = m x"
      using out in_tree by auto
    show "mset (pt_pages m' (Suc l) pt) = mset (pt_pages m (Suc l) pt)" using ch(1) by simp
  qed
qed

section \<open>Adding an empty table\<close>

lemma valid_or [simp]: "valid (e OR PTE_V)"
proof -
  have "(e OR PTE_V) AND PTE_V = PTE_V" by (rule bit_word_eqI) (auto simp: bit_simps)
  then show ?thesis by (simp add: valid_def)
qed

lemma valid_or3 [simp]: "valid (a OR b OR PTE_V)"
  using valid_or [of "a OR b"] by (simp only: or.assoc)

lemma fresh_table:
  assumes i: "i < 512" "\<not> valid (entry m pt i)" and p: "p \<notin> set (pt_pages m (Suc l) pt)" "unat p < 2 ^ 56"
    and al: "apart (insert p (set (pt_pages m (Suc l) pt)))" and d: "distinct (pt_pages m (Suc l) pt)"
    and m0: "\<forall>x. \<not> in_rng p 4096 x \<longrightarrow> m0 x = m x"
    and m': "m' = store64 (memset m0 p 0 PGSIZE) (eaddr pt i) (PA2PTE p OR PTE_V)"
  shows "entry m' pt i = PA2PTE p OR PTE_V" "PTE2PA (PA2PTE p OR PTE_V) = p" "pt_pages m' l p = [p]"
    "mset (pt_pages m' (Suc l) pt) = mset (pt_pages m (Suc l) pt) + {#p#}"
    "xlate m' (Suc l) pt va = xlate m (Suc l) pt va"
    "\<forall>x. \<not> in_rng pt 4096 x \<longrightarrow> \<not> in_rng p 4096 x \<longrightarrow> m' x = m x"
proof -
  have ne: "p \<noteq> pt" using p(1) by auto
  have pt: "aligned 4096 p" "aligned 4096 pt" using al by (auto simp: apart_def)
  show pa: "PTE2PA (PA2PTE p OR PTE_V) = p" by (rule PTE2PA_make) (use pt p in simp_all)
  show e: "entry m' pt i = PA2PTE p OR PTE_V" by (simp add: m')
  have z: "m' x = 0" if "in_rng p 4096 x" for x
    using that in_rng_disjoint [OF pt _ _ ne that] i(1) by (simp add: m' store_entry_outside memset_eq)
  from zero_page(2) [of p m' l] z show zp: "pt_pages m' l p = [p]" by blast
  show out: "\<forall>x. \<not> in_rng pt 4096 x \<longrightarrow> \<not> in_rng p 4096 x \<longrightarrow> m' x = m x"
    using m0 i(1) by (simp add: m' store_entry_outside memset_eq)
  have ej: "entry m' pt j = entry m pt j" if "j < 512" "j \<noteq> i" for j
  proof -
    have "entry m' pt j = entry (memset m0 p 0 PGSIZE) pt j"
      using i(1) that by (simp add: m' entry_store_other)
    also have "\<dots> = entry m pt j"
      using in_rng_disjoint [OF pt(2,1)] ne m0 that(1) by (intro entry_cong) (auto simp: memset_eq)
    finally show ?thesis .
  qed
  have frame: "same_on m m' (set (subtree m l pt j))" if "j < 512" for j
    by (rule same_on_apart [where Q = "{pt, p}"])
      (use out distinct_subtrees(2) [OF d that] subtree_subset [OF that, of m l pt] al p(1) in
        \<open>auto simp: apart_def\<close>)
  have other: "subtree m' l pt j = subtree m l pt j" if "j < 512" "j \<noteq> i" for j
    using frame [OF that(1)] ej [OF that] tree_frame by (auto simp: subtree_def)
  have "subtree m' l pt i = [p]" "subtree m l pt i = []" using e pa zp i by (simp_all add: subtree_def)
  with mset_concat_change [OF i(1) other, where M = "{#p#}"]
  show "mset (pt_pages m' (Suc l) pt) = mset (pt_pages m (Suc l) pt) + {#p#}" by (simp add: pt_pages_Suc)
  show "xlate m' (Suc l) pt va = xlate m (Suc l) pt va"
  proof (cases "idx (Suc l) va = i")
    case True
    then show ?thesis using e pa i zero_page(3) [of p m' l va] z by (simp add: Let_def)
  next
    case False
    with ej [OF idx_less False] frame [OF idx_less, of "Suc l" va] tree_frame [of m m' l] show ?thesis
      by (auto simp: Let_def subtree_def)
  qed
qed

section \<open>walk\<close>

lemma leaf_slot_load: "leaf_slot m l pt va = Some r \<Longrightarrow> load64 m r = xlate m l pt va"
  by (induction l arbitrary: pt) (auto simp: Let_def entry_slot split: if_splits)

lemma leaf_slot_None: "leaf_slot m l pt va = None \<Longrightarrow> xlate m l pt va = 0"
  by (induction l arbitrary: pt) (auto simp: Let_def split: if_splits)

lemma walk_loop_lookup:
  "walk_loop l pt va False s = Ok (case leaf_slot (phys s) l pt va of None \<Rightarrow> 0 | Some r \<Rightarrow> r, s)"
  by (induction l arbitrary: pt) (simp_all add: Let_def entry_slot valid_def)

definition tree_ok :: "'a kmem_st_scheme \<Rightarrow> nat \<Rightarrow> addr \<Rightarrow> addr list \<Rightarrow> bool" where
  "tree_ok s l pt fs \<longleftrightarrow> kmem_inv s fs \<and> distinct (pt_pages (phys s) l pt @ fs) \<and>
     (\<forall>p\<in>set (pt_pages (phys s) l pt). page_ok s p)"

lemma unat_page: "page_ok s p \<Longrightarrow> unat p < 0x88000000"
  by (simp add: page_ok_def word_less_nat_alt unat_PHYSTOP)

lemma leaf_slot_nonzero: "tree_ok s l pt fs \<Longrightarrow> leaf_slot (phys s) l pt va = Some r \<Longrightarrow> r \<noteq> 0"
proof -
  assume ok: "tree_ok s l pt fs" and "leaf_slot (phys s) l pt va = Some r"
  then have "\<exists>q\<in>set (pt_pages (phys s) l pt). r = slot q 0 va"
  proof (induction l arbitrary: pt)
    case (Suc l)
    let ?i = "idx (Suc l) va"
    from Suc.prems(2) have v: "valid (entry (phys s) pt ?i)"
      "leaf_slot (phys s) l (PTE2PA (entry (phys s) pt ?i)) va = Some r"
      by (auto simp: Let_def split: if_splits)
    then have sub: "subtree (phys s) l pt ?i = pt_pages (phys s) l (PTE2PA (entry (phys s) pt ?i))"
      by (simp add: subtree_def)
    with Suc.prems(1) distinct_subtrees(1) [of "phys s" l pt ?i] subtree_subset [of ?i "phys s" l pt]
    have "tree_ok s l (PTE2PA (entry (phys s) pt ?i)) fs" by (auto simp: tree_ok_def)
    from Suc.IH [OF this v(2)] sub subtree_subset [of ?i "phys s" l pt] show ?case by auto
  qed auto
  then obtain q where q: "page_ok s q" "r = eaddr q (idx 0 va)" using ok by (auto simp: tree_ok_def slot_eq)
  have "0 < unat q" using q(1) ok by (auto simp: page_ok_def tree_ok_def kmem_inv_def unat_gt_0)
  moreover have "unat (q + of_nat (8 * idx 0 va)) = unat q + 8 * idx 0 va"
    by (rule unat_add_of_nat) (use unat_page [OF q(1)] idx_less [of 0 va] in \<open>simp del: idx_less\<close>)
  ultimately show ?thesis using q(2) by (auto simp: eaddr_def simp del: of_nat_mult)
qed

text \<open>
  What \<open>walk\<close> with \<open>alloc\<close> may do to a tree: it takes the pages \<open>new\<close> off the free list, adds them to
  the tree, keeps all translations, and touches no page but those of the tree and the new ones.
\<close>

definition extended :: "'a kmem_st_scheme \<Rightarrow> 'a kmem_st_scheme \<Rightarrow> nat \<Rightarrow> addr \<Rightarrow> addr list \<Rightarrow> addr list \<Rightarrow> bool" where
  "extended s t l pt new fs \<longleftrightarrow> kmem_inv t fs \<and> mem_step s t \<and>
     mset (pt_pages (phys t) l pt) = mset (pt_pages (phys s) l pt) + mset new \<and>
     (\<forall>x. (\<forall>q\<in>set (pt_pages (phys s) l pt @ new). \<not> in_rng q 4096 x) \<longrightarrow> phys t x = phys s x)"

definition grown :: "'a kmem_st_scheme \<Rightarrow> 'a kmem_st_scheme \<Rightarrow> nat \<Rightarrow> addr \<Rightarrow> addr list \<Rightarrow> addr list \<Rightarrow> bool" where
  "grown s t l pt new fs \<longleftrightarrow> extended s t l pt new fs \<and>
     (\<forall>va. xlate (phys t) l pt va = xlate (phys s) l pt va)"

lemma extended_set:
  "extended s t l pt new fs \<Longrightarrow> set (pt_pages (phys t) l pt) = set (pt_pages (phys s) l pt) \<union> set new"
  unfolding extended_def by (metis set_mset_mset set_mset_union)

lemma extended_tree_ok:
  assumes "tree_ok s l pt (new @ fs)" "extended s t l pt new fs"
  shows "tree_ok t l pt fs"
proof -
  have "mset (pt_pages (phys t) l pt @ fs) = mset (pt_pages (phys s) l pt @ new @ fs)"
    using assms(2) by (simp add: extended_def)
  with assms(1) have "distinct (pt_pages (phys t) l pt @ fs)"
    unfolding tree_ok_def by (metis mset_eq_imp_distinct_iff)
  with assms extended_set [OF assms(2)] mem_step_page_ok [of s t] show ?thesis
    by (auto simp: tree_ok_def extended_def dest: kmem_invD(6))
qed

lemma extended_refl: "kmem_inv s fs \<Longrightarrow> extended s s l pt [] fs"
  by (simp add: extended_def)

lemma extended_trans:
  assumes "extended s t l pt new (new' @ fs)" "extended t u l pt new' fs"
  shows "extended s u l pt (new @ new') fs"
proof -
  have "phys u x = phys s x" if "\<forall>q\<in>set (pt_pages (phys s) l pt @ new @ new'). \<not> in_rng q 4096 x" for x
    using that assms extended_set [OF assms(1)] by (simp add: extended_def)
  with assms mem_step_trans [of s t u] show ?thesis by (simp add: extended_def)
qed

lemma tree_ok_sub:
  assumes "tree_ok s (Suc l) pt fs" "i < 512" "valid (entry (phys s) pt i)"
  shows "tree_ok s l (PTE2PA (entry (phys s) pt i)) fs"
  using assms distinct_subtrees(1) [of "phys s" l pt i] subtree_subset [of i "phys s" l pt]
  by (auto simp: tree_ok_def subtree_def)

lemma tree_ok_apart: "tree_ok s l pt fs \<Longrightarrow> apart (set (pt_pages (phys s) l pt @ fs))"
  by (auto simp: tree_ok_def apart_def page_ok_def dest: kmem_invD(7))

lemma grown_sub:
  assumes ok: "tree_ok s (Suc l) pt (new @ fs)" and i: "i < 512" "valid (entry (phys s) pt i)"
    and g: "grown s t l (PTE2PA (entry (phys s) pt i)) new fs"
  shows "grown s t (Suc l) pt new fs"
    and "idx (Suc l) va = i \<Longrightarrow> leaf_slot (phys t) (Suc l) pt va = leaf_slot (phys t) l (PTE2PA (entry (phys s) pt i)) va"
proof -
  have d: "distinct (pt_pages (phys s) (Suc l) pt @ new)" "apart (set (pt_pages (phys s) (Suc l) pt @ new))"
    using ok tree_ok_apart [OF ok] by (auto simp: tree_ok_def apart_def)
  have out: "\<forall>x. (\<forall>q\<in>set (pt_pages (phys s) l (PTE2PA (entry (phys s) pt i)) @ new). \<not> in_rng q 4096 x) \<longrightarrow>
      phys t x = phys s x" using g by (simp add: grown_def extended_def)
  have ps: "mset (pt_pages (phys t) l (PTE2PA (entry (phys s) pt i))) =
      mset (pt_pages (phys s) l (PTE2PA (entry (phys s) pt i))) + mset new" using g by (simp add: grown_def extended_def)
  note ch = subtree_change [OF i refl d out ps]
  show "idx (Suc l) va = i \<Longrightarrow> leaf_slot (phys t) (Suc l) pt va = leaf_slot (phys t) l (PTE2PA (entry (phys s) pt i)) va"
    by (rule ch(3))
  have x: "xlate (phys t) (Suc l) pt va = xlate (phys s) (Suc l) pt va" for va
    using ch(2) [of va] g i by (auto simp: grown_def extended_def Let_def)
  have sub: "set (pt_pages (phys s) l (PTE2PA (entry (phys s) pt i))) \<subseteq> set (pt_pages (phys s) (Suc l) pt)"
    using subtree_subset [OF i(1), of "phys s" l pt] i(2) by (simp add: subtree_def)
  then have "\<forall>x. (\<forall>q\<in>set (pt_pages (phys s) (Suc l) pt @ new). \<not> in_rng q 4096 x) \<longrightarrow> phys t x = phys s x"
    using out by auto
  with ch(1) x g show "grown s t (Suc l) pt new fs" by (simp add: grown_def extended_def)
qed

lemma grown_refl: "kmem_inv s fs \<Longrightarrow> grown s s l pt [] fs"
  by (simp add: grown_def extended_refl)

lemma grown_trans: "grown s t l pt new (new' @ fs) \<Longrightarrow> grown t u l pt new' fs \<Longrightarrow> grown s u l pt (new @ new') fs"
  by (auto simp: grown_def intro: extended_trans)

lemma kmem_inv_elsewhere:
  assumes "kmem_inv s fs" "\<forall>x. (\<forall>q\<in>Q. \<not> in_rng q 4096 x) \<longrightarrow> m x = phys s x" "apart Q" "Q \<inter> set fs = {}"
  shows "kmem_inv (s\<lparr>phys := m\<rparr>) fs"
proof (rule kmem_inv_phys [OF assms(1)])
  fix p x assume p: "p \<in> set fs" "in_rng p 8 x"
  have "in_rng p 4096 x" using p(2) by (rule in_rng_mono) simp
  then have "\<not> in_rng q 4096 x" if "q \<in> Q" for q
    using that p(1) assms(3,4) kmem_invD(7) [OF assms(1) p(1)] in_rng_disjoint [of 4096 p q x]
    by (auto simp: apart_def)
  with assms(2) show "m x = phys s x" by blast
qed

lemma fresh_grown:
  assumes ok: "tree_ok s (Suc l) pt (p # ps)" and i: "i < 512" "\<not> valid (entry (phys s) pt i)"
    and t: "kmem_inv t ps" "mem_step s t" "\<forall>x. \<not> in_rng p 4096 x \<longrightarrow> phys t x = phys s x"
    and u: "u = t\<lparr>phys := store64 (memset (phys t) p 0 PGSIZE) (eaddr pt i) (PA2PTE p OR PTE_V)\<rparr>"
  shows "grown s u (Suc l) pt [p] ps" "entry (phys u) pt i = PA2PTE p OR PTE_V"
    "PTE2PA (PA2PTE p OR PTE_V) = p"
proof -
  have inv: "kmem_inv s (p # ps)" using ok by (simp add: tree_ok_def)
  then have "unat p < 0x88000000" by (auto intro: unat_page dest: kmem_invD(6))
  then have p: "unat p < 2 ^ 56" "p \<notin> set (pt_pages (phys s) (Suc l) pt)" "distinct (pt_pages (phys s) (Suc l) pt)"
    using ok by (auto simp: tree_ok_def)
  have al: "apart (insert p (set (pt_pages (phys s) (Suc l) pt)))"
    using tree_ok_apart [OF ok] by (auto simp: apart_def)
  have m: "phys u = store64 (memset (phys t) p 0 PGSIZE) (eaddr pt i) (PA2PTE p OR PTE_V)" by (simp add: u)
  note ft = fresh_table [OF i p(2,1) al p(3) t(3) m]
  show "entry (phys u) pt i = PA2PTE p OR PTE_V" "PTE2PA (PA2PTE p OR PTE_V) = p" by (rule ft)+
  have "pt \<notin> set ps" "p \<notin> set ps" using ok root_in_pt_pages [of pt "phys s" "Suc l"]
    by (auto simp: tree_ok_def simp del: root_in_pt_pages)
  then have "kmem_inv u ps" unfolding u
    by (intro kmem_inv_elsewhere [OF t(1), where Q = "{pt, p}"])
      (use al i(1) in \<open>auto simp: apart_def store_entry_outside memset_eq\<close>)
  then show "grown s u (Suc l) pt [p] ps" using ft t(2) by (auto simp: grown_def extended_def u)
qed

lemma walk_loop_alloc:
  assumes "tree_ok s l pt fs"
  shows "\<exists>r t new fs'. walk_loop l pt va True s = Ok (r, t) \<and> fs = new @ fs' \<and> grown s t l pt new fs' \<and>
    (if r = 0 then fs' = [] else leaf_slot (phys t) l pt va = Some r)"
  using assms
proof (induction l arbitrary: pt s fs)
  case 0
  then have "slot pt 0 va \<noteq> 0" using leaf_slot_nonzero [OF 0] by simp
  with 0 show ?case
    by (intro exI [of _ "slot pt 0 va"] exI [of _ s] exI [of _ "[]"] exI [of _ fs])
      (auto simp: tree_ok_def intro!: grown_refl)
next
  case (Suc l)
  let ?i = "idx (Suc l) va" and ?e = "entry (phys s) pt (idx (Suc l) va)"
  have inv: "kmem_inv s fs" using Suc.prems by (simp add: tree_ok_def)
  show ?case
  proof (cases "valid ?e")
    case True
    from Suc.IH [OF tree_ok_sub [OF Suc.prems idx_less True]] obtain r t new fs' where
      w: "walk_loop l (PTE2PA ?e) va True s = Ok (r, t)" "fs = new @ fs'" "grown s t l (PTE2PA ?e) new fs'"
        "if r = 0 then fs' = [] else leaf_slot (phys t) l (PTE2PA ?e) va = Some r" by blast
    note g = grown_sub [OF Suc.prems [unfolded w(2)] idx_less True w(3)]
    have "walk_loop (Suc l) pt va True s = Ok (r, t)" using True w(1) by (simp add: Let_def entry_slot valid_def)
    with w g show ?thesis by (intro exI [of _ r] exI [of _ t] exI [of _ new] exI [of _ fs']) auto
  next
    case False
    from kalloc_pops [OF inv] obtain t where t: "kalloc s = Ok (case fs of [] \<Rightarrow> 0 | p # _ \<Rightarrow> p, t)"
      "kmem_inv t (tl fs)" "mem_step s t"
      "\<forall>x. (case fs of [] \<Rightarrow> True | p # _ \<Rightarrow> \<not> in_rng p 4096 x) \<longrightarrow> phys t x = phys s x" by blast
    show ?thesis
    proof (cases fs)
      case Nil
      then have "phys t = phys s" using t(4) by auto
      then have "grown s t (Suc l) pt [] []" using t Nil by (simp add: grown_def extended_def)
      with Nil t False show ?thesis
        by (intro exI [of _ 0] exI [of _ t]) (auto simp: Let_def entry_slot valid_def)
    next
      case (Cons p ps)
      define u where "u = t\<lparr>phys := store64 (memset (phys t) p 0 PGSIZE) (eaddr pt ?i) (PA2PTE p OR PTE_V)\<rparr>"
      have ok: "tree_ok s (Suc l) pt (p # ps)" and t': "kmem_inv t ps" "mem_step s t"
        "\<forall>x. \<not> in_rng p 4096 x \<longrightarrow> phys t x = phys s x" "kalloc s = Ok (p, t)"
        using Suc.prems t Cons by auto
      have p0: "p \<noteq> 0" using inv Cons by (auto simp: kmem_inv_def)
      note fg = fresh_grown [OF ok idx_less False t'(1-3) u_def]
      have ok_u: "tree_ok u (Suc l) pt ps" using extended_tree_ok [of s "Suc l" pt "[p]" ps u] ok fg(1) by (simp add: grown_def)
      have v: "valid (entry (phys u) pt ?i)" using fg(2) by simp
      from Suc.IH [OF tree_ok_sub [OF ok_u idx_less v]] obtain r w new fs' where
        w: "walk_loop l p va True u = Ok (r, w)" "ps = new @ fs'" "grown u w l p new fs'"
          "if r = 0 then fs' = [] else leaf_slot (phys w) l p va = Some r" unfolding fg(2,3) by blast
      note g = grown_sub [OF ok_u [unfolded w(2)] idx_less v, unfolded fg(2,3), OF w(3)]
      have "walk_loop (Suc l) pt va True s = Ok (r, w)"
        using False w(1) t'(4) p0 by (simp add: Let_def entry_def valid_def slot_eq u_def)
      moreover have "grown s w (Suc l) pt ([p] @ new) fs'"
        using grown_trans fg(1) g(1) w(2) by blast
      ultimately show ?thesis using w(2,4) g(2) [OF refl] Cons
        by (intro exI [of _ r] exI [of _ w] exI [of _ "p # new"] exI [of _ fs']) auto
    qed
  qed
qed

section \<open>Virtual pages\<close>

lemma unat_MAXVA: "unat MAXVA = 2 ^ 38"
  by (simp add: MAXVA_def)

lemma idx_eq: "idx l va = unat va div 2 ^ (12 + 9 * l) mod 512"
proof -
  have "PX l va = take_bit 9 (drop_bit (12 + 9 * l) va)"
    by (simp add: PX_def take_bit_eq_mask mask_eq_exp_minus_1)
  then have "idx l va = take_bit 9 (drop_bit (12 + 9 * l) (unat va))"
    by (simp add: idx_def unsigned_take_bit_eq unat_drop_bit_eq)
  then show ?thesis by (simp only: take_bit_eq_mod drop_bit_eq_div) simp
qed

lemma same_page_iff:
  assumes "va < MAXVA" "va' < MAXVA"
  shows "same_page 2 va va' \<longleftrightarrow> unat va div 4096 = unat va' div 4096"
proof -
  have split: "n div 4096 = (n div 4096 mod 512) + 512 * (n div 2 ^ 21 mod 512) + 512 * 512 * (n div 2 ^ 30 mod 512)"
    if "n < 2 ^ 38" for n :: nat
  proof -
    have e: "n div 2 ^ 21 = n div 4096 div 512" "n div 2 ^ 30 = n div 4096 div 512 div 512"
      by (simp_all flip: div_mult2_eq)
    have lt: "n div 4096 div 512 div 512 < 512"
      using that by (simp add: div_less_iff_less_mult flip: div_mult2_eq)
    have "512 * (a div 512) + a mod 512 = a" for a :: nat by (rule mult_div_mod_eq)
    from this [of "n div 4096"] this [of "n div 4096 div 512"] show ?thesis
      unfolding e mod_less [OF lt] by linarith
  qed
  have le: "unat va < 2 ^ 38" "unat va' < 2 ^ 38" using assms by (simp_all add: word_less_nat_alt unat_MAXVA)
  show ?thesis
  proof
    assume "same_page 2 va va'"
    then have "idx 0 va = idx 0 va'" "idx 1 va = idx 1 va'" "idx 2 va = idx 2 va'" by (simp_all add: same_page_def)
    then show "unat va div 4096 = unat va' div 4096" using split [OF le(1)] split [OF le(2)] by (simp add: idx_eq)
  next
    assume eq: "unat va div 4096 = unat va' div 4096"
    have "unat x div 2 ^ (12 + 9 * k) = unat x div 4096 div 2 ^ (9 * k)" for x :: u64 and k
      by (simp add: power_add div_mult2_eq)
    with eq show "same_page 2 va va'" by (simp add: same_page_def idx_eq)
  qed
qed

end
