(* ===== verification/Uvm.thy ===== *)
theory Uvm
  imports Pagetable
begin

text \<open>
  What the operations of kernel/vm.c do to address spaces, in terms of the trees of \<open>Pagetable\<close>:
  mapping, unmapping, growing and shrinking a process, and copying between kernel and user memory.
\<close>

section \<open>Translations after an operation\<close>

text \<open>\<open>remapped s t pt f new fs\<close>: the table grew by the pages \<open>new\<close>, and \<open>f\<close> is its translation now.\<close>

definition remapped :: "'a kmem_st_scheme \<Rightarrow> 'a kmem_st_scheme \<Rightarrow> addr \<Rightarrow> (u64 \<Rightarrow> u64) \<Rightarrow> addr list \<Rightarrow> addr list \<Rightarrow> bool" where
  "remapped s t pt f new fs \<longleftrightarrow> extended s t 2 pt new fs \<and>
     (\<forall>va. va < MAXVA \<longrightarrow> xlate (phys t) 2 pt va = f va)"

lemma remapped_trans:
  "remapped s t pt f new (new' @ fs) \<Longrightarrow> remapped t u pt g new' fs \<Longrightarrow> remapped s u pt g (new @ new') fs"
  by (auto simp: remapped_def intro: extended_trans)

lemma remapped_cong:
  "remapped s t pt f new fs \<Longrightarrow> (\<And>va. va < MAXVA \<Longrightarrow> f va = g va) \<Longrightarrow> remapped s t pt g new fs"
  by (simp add: remapped_def)

lemma remapped_refl: "kmem_inv s fs \<Longrightarrow> remapped s s pt (xlate (phys s) 2 pt) [] fs"
  by (simp add: remapped_def extended_refl)

text \<open>A store through the pointer that \<open>walk\<close> returned.\<close>

lemma store_remapped:
  assumes ok: "tree_ok s 2 pt fs" and r: "leaf_slot (phys s) 2 pt a = Some r" and a: "a < MAXVA"
  shows "remapped s (s\<lparr>phys := store64 (phys s) r v\<rparr>) pt
    (\<lambda>va. if unat va div 4096 = unat a div 4096 then v else xlate (phys s) 2 pt va) [] fs"
proof -
  have d: "distinct (pt_pages (phys s) 2 pt)" "apart (set (pt_pages (phys s) 2 pt))"
    "set (pt_pages (phys s) 2 pt) \<inter> set fs = {}" "kmem_inv s fs"
    using ok tree_ok_apart [OF ok] by (auto simp: tree_ok_def apart_def)
  note sl = store_leaf [OF r d(1,2) refl, of v]
  have "kmem_inv (s\<lparr>phys := store64 (phys s) r v\<rparr>) fs"
    by (rule kmem_inv_elsewhere [OF d(4) _ d(2,3)]) (use sl in blast)
  with sl a show ?thesis
    by (auto simp: remapped_def extended_def same_page_iff)
qed

lemma walk_alloc:
  assumes "tree_ok s 2 pt fs" "va < MAXVA"
  shows "\<exists>r t new fs'. walk pt va True s = Ok (r, t) \<and> fs = new @ fs' \<and> grown s t 2 pt new fs' \<and>
    (if r = 0 then fs' = [] else leaf_slot (phys t) 2 pt va = Some r)"
  using walk_loop_alloc [OF assms(1), of va] assms(2) by (auto simp: walk_def)

lemma grown_remapped: "grown s t 2 pt new fs \<Longrightarrow> remapped s t pt (xlate (phys s) 2 pt) new fs"
  by (simp add: grown_def remapped_def)

section \<open>mappages\<close>

text \<open>The translation after the first \<open>k\<close> pages from \<open>a\<close> have been mapped to the pages from \<open>pa\<close>.\<close>

definition with_pages :: "(u64 \<Rightarrow> u64) \<Rightarrow> u64 \<Rightarrow> nat \<Rightarrow> u64 \<Rightarrow> u64 \<Rightarrow> u64 \<Rightarrow> u64" where
  "with_pages f a k pa perm va =
     (if unat a \<le> unat va \<and> unat va < unat a + k * 4096
      then PA2PTE (pa + (PGROUNDDOWN va - a)) OR perm OR PTE_V else f va)"

lemma with_pages_0 [simp]: "with_pages f a 0 pa perm = f"
  by (auto simp: with_pages_def fun_eq_iff)

lemma with_pages_Suc:
  assumes a: "aligned 4096 a" "unat a + Suc k * 4096 \<le> 2 ^ 38"
  shows "with_pages (\<lambda>va. if unat va div 4096 = unat a div 4096 then PA2PTE pa OR perm OR PTE_V else f va)
    (a + PGSIZE) k (pa + PGSIZE) perm = with_pages f a (Suc k) pa perm" (is "?l = ?r")
proof
  fix va
  obtain c where c: "unat a = 4096 * c" using a(1) by (auto simp: aligned_dvd elim: dvdE)
  have s: "unat (a + PGSIZE) = unat a + 4096" using a(2) by (intro unat_add_PGSIZE) simp
  show "?l va = ?r va"
  proof (cases "unat va div 4096 = c")
    case True
    then have "4096 * c \<le> unat va" "unat va < 4096 * c + 4096" by auto
    moreover have "PGROUNDDOWN va = a" using True c by (simp add: word_unat_eq_iff unat_PGROUNDDOWN)
    ultimately show ?thesis using c s True by (simp add: with_pages_def)
  next
    case False
    then have n: "\<not> (4096 * c \<le> unat va \<and> unat va < 4096 * c + 4096)"
      by (metis add.commute div_nat_eqI mult.commute mult_Suc_right)
    have e: "pa + PGSIZE + (PGROUNDDOWN va - (a + PGSIZE)) = pa + (PGROUNDDOWN va - a)" by simp
    show ?thesis using n c s False unfolding with_pages_def e by auto
  qed
qed

lemma map_one:
  assumes ok: "tree_ok s 2 pt fs" and a: "a < MAXVA" and nv: "\<not> valid (xlate (phys s) 2 pt a)"
  obtains t new where "walk pt a True s = Ok (0, t)" "fs = new" "remapped s t pt (xlate (phys s) 2 pt) new []"
  | r t new fs' where "walk pt a True s = Ok (r, t)" "r \<noteq> 0" "fs = new @ fs'" "load64 (phys t) r AND PTE_V = 0"
    "remapped s (t\<lparr>phys := store64 (phys t) r v\<rparr>) pt
      (\<lambda>va. if unat va div 4096 = unat a div 4096 then v else xlate (phys s) 2 pt va) new fs'"
proof -
  from walk_alloc [OF ok a] obtain r t new fs' where w: "walk pt a True s = Ok (r, t)" "fs = new @ fs'"
    "grown s t 2 pt new fs'" "if r = 0 then fs' = [] else leaf_slot (phys t) 2 pt a = Some r" by blast
  note g = grown_remapped [OF w(3)]
  show thesis
  proof (cases "r = 0")
    case True
    with w g that(1) show thesis by simp
  next
    case False
    with w have leaf: "leaf_slot (phys t) 2 pt a = Some r" by simp
    have ok_t: "tree_ok t 2 pt fs'" using ok w(2,3) by (auto simp: grown_def intro: extended_tree_ok)
    have "load64 (phys t) r = xlate (phys s) 2 pt a"
      using leaf_slot_load [OF leaf] w(3) by (simp add: grown_def)
    then have nv': "load64 (phys t) r AND PTE_V = 0" using nv by (simp add: valid_def)
    have x: "xlate (phys t) 2 pt va = xlate (phys s) 2 pt va" for va using w(3) by (simp add: grown_def)
    have "remapped s (t\<lparr>phys := store64 (phys t) r v\<rparr>) pt
      (\<lambda>va. if unat va div 4096 = unat a div 4096 then v else xlate (phys s) 2 pt va) (new @ []) fs'"
      by (rule remapped_trans [where t = t])
        (use g remapped_cong [OF store_remapped [OF ok_t leaf a, of v]] x in auto)
    with w nv' False that(2) show thesis by simp
  qed
qed

lemma mappages_loop_spec:
  assumes "tree_ok s 2 pt fs" "aligned 4096 a" "unat a + Suc n * 4096 \<le> 2 ^ 38" "lst = a + of_nat n * PGSIZE"
    and "\<forall>va. unat a \<le> unat va \<and> unat va < unat a + Suc n * 4096 \<longrightarrow> \<not> valid (xlate (phys s) 2 pt va)"
  shows "\<exists>r t k new fs'. mappages_loop (Suc n) pt a lst pa perm s = Ok (r, t) \<and> fs = new @ fs' \<and>
    remapped s t pt (with_pages (xlate (phys s) 2 pt) a k pa perm) new fs' \<and>
    (r = 0 \<and> k = Suc n \<or> r = -1 \<and> k \<le> n \<and> fs' = [])"
  using assms
proof (induction n arbitrary: a pa s fs)
  case (0 a pa s fs)
  let ?v = "PA2PTE pa OR perm OR PTE_V"
  have am: "a < MAXVA" using "0.prems"(3) by (simp add: word_less_nat_alt unat_MAXVA)
  have nv: "\<not> valid (xlate (phys s) 2 pt a)" using "0.prems"(5) by simp
  show ?case
  proof (rule map_one [OF "0.prems"(1) am nv, where v = ?v])
    fix t new assume "walk pt a True s = Ok (0, t)" "fs = new" "remapped s t pt (xlate (phys s) 2 pt) new []"
    then show ?thesis
      by (intro exI [of _ "-1"] exI [of _ t] exI [of _ 0] exI [of _ new] exI [of _ "[]"]) simp
  next
    fix r t new fs' assume w: "walk pt a True s = Ok (r, t)" "r \<noteq> 0" "fs = new @ fs'" "load64 (phys t) r AND PTE_V = 0"
      and m: "remapped s (t\<lparr>phys := store64 (phys t) r ?v\<rparr>) pt
        (\<lambda>va. if unat va div 4096 = unat a div 4096 then ?v else xlate (phys s) 2 pt va) new fs'"
    have "remapped s (t\<lparr>phys := store64 (phys t) r ?v\<rparr>) pt
        (with_pages (xlate (phys s) 2 pt) a (Suc 0) pa perm) new fs'"
      using m with_pages_Suc [OF "0.prems"(2,3), of pa perm] by simp
    with w "0.prems"(4) show ?thesis
      by (intro exI [of _ 0] exI [of _ "t\<lparr>phys := store64 (phys t) r ?v\<rparr>"]
          exI [of _ "Suc 0"] exI [of _ new] exI [of _ fs']) (simp add: Let_def)
  qed
next
  case (Suc n a pa s fs)
  note prems = Suc.prems
  let ?v = "PA2PTE pa OR perm OR PTE_V"
  let ?f = "\<lambda>va. if unat va div 4096 = unat a div 4096 then ?v else xlate (phys s) 2 pt va"
  have am: "a < MAXVA" using prems(3) by (simp add: word_less_nat_alt unat_MAXVA)
  have nv: "\<not> valid (xlate (phys s) 2 pt a)" using prems(5) by simp
  have b: "unat (a + PGSIZE) = unat a + 4096" using prems(3) by (intro unat_add_PGSIZE) simp
  show ?case
  proof (rule map_one [OF prems(1) am nv, where v = ?v])
    fix t new assume "walk pt a True s = Ok (0, t)" "fs = new" "remapped s t pt (xlate (phys s) 2 pt) new []"
    then show ?thesis
      by (intro exI [of _ "-1"] exI [of _ t] exI [of _ 0] exI [of _ new] exI [of _ "[]"]) simp
  next
    fix r t new fs' assume w: "walk pt a True s = Ok (r, t)" "r \<noteq> 0" "fs = new @ fs'" "load64 (phys t) r AND PTE_V = 0"
      and m: "remapped s (t\<lparr>phys := store64 (phys t) r ?v\<rparr>) pt ?f new fs'"
    define t' where "t' = t\<lparr>phys := store64 (phys t) r ?v\<rparr>"
    note m = m [folded t'_def]
    have x: "xlate (phys t') 2 pt va = ?f va" if "va < MAXVA" for va using m that by (simp add: remapped_def)
    have ok': "tree_ok t' 2 pt fs'" using prems(1) w(3) m by (auto simp: remapped_def intro: extended_tree_ok)
    have al: "aligned 4096 (a + PGSIZE)" using prems(2) b by (simp add: aligned_dvd)
    have bd: "unat (a + PGSIZE) + Suc n * 4096 \<le> 2 ^ 38" using prems(3) b by simp
    have nv': "\<forall>va. unat (a + PGSIZE) \<le> unat va \<and> unat va < unat (a + PGSIZE) + Suc n * 4096 \<longrightarrow>
        \<not> valid (xlate (phys t') 2 pt va)"
    proof (intro allI impI)
      fix va :: u64 assume va: "unat (a + PGSIZE) \<le> unat va \<and> unat va < unat (a + PGSIZE) + Suc n * 4096"
      then have "va < MAXVA" using bd by (simp add: word_less_nat_alt unat_MAXVA)
      moreover have "unat va div 4096 \<noteq> unat a div 4096"
        using va b div_le_mono [of "unat a + 4096" "unat va" 4096] by simp
      ultimately show "\<not> valid (xlate (phys t') 2 pt va)" using x prems(5) va b by simp
    qed
    have l: "lst = a + PGSIZE + of_nat n * PGSIZE" using prems(4) by (simp add: algebra_simps)
    from Suc.IH [OF ok' al bd l nv', of "pa + PGSIZE"] obtain r' u k new' fs'' where
      u: "mappages_loop (Suc n) pt (a + PGSIZE) lst (pa + PGSIZE) perm t' = Ok (r', u)" "fs' = new' @ fs''"
        "remapped t' u pt (with_pages (xlate (phys t') 2 pt) (a + PGSIZE) k (pa + PGSIZE) perm) new' fs''"
        "r' = 0 \<and> k = Suc n \<or> r' = -1 \<and> k \<le> n \<and> fs'' = []" by blast
    have "with_pages ?f (a + PGSIZE) k (pa + PGSIZE) perm = with_pages (xlate (phys s) 2 pt) a (Suc k) pa perm"
      by (rule with_pages_Suc) (use prems(2,3) u(4) in auto)
    moreover have "remapped t' u pt (with_pages ?f (a + PGSIZE) k (pa + PGSIZE) perm) new' fs''"
      by (rule remapped_cong [OF u(3)]) (simp add: with_pages_def x)
    ultimately have "remapped s u pt (with_pages (xlate (phys s) 2 pt) a (Suc k) pa perm) (new @ new') fs''"
      using m u(2) by (auto intro: remapped_trans)
    moreover have "a \<noteq> lst"
    proof -
      have "a + of_nat (Suc n * 4096) \<noteq> a + of_nat 0" by (rule add_of_nat_neq) (use prems(3) in simp_all)
      then have "a + of_nat (Suc n) * PGSIZE \<noteq> a" by (simp only: of_nat_mult of_nat_numeral of_nat_0 add_0_right) simp
      then show ?thesis unfolding prems(4) by (rule not_sym)
    qed
    then have "mappages_loop (Suc (Suc n)) pt a lst pa perm s = Ok (r', u)"
      using w u(1) by (simp add: Let_def t'_def)
    ultimately show ?thesis using u(2,4) w(3)
      by (intro exI [of _ r'] exI [of _ u] exI [of _ "Suc k"] exI [of _ "new @ new'"] exI [of _ fs'']) auto
  qed
qed

section \<open>uvmunmap\<close>

text \<open>The pages \<open>ps\<close> are mapped one after the other from \<open>a\<close> on.\<close>

fun owned :: "'a kmem_st_scheme \<Rightarrow> addr \<Rightarrow> u64 \<Rightarrow> addr list \<Rightarrow> bool" where
  "owned s pt a [] \<longleftrightarrow> True"
| "owned s pt a (p # ps) \<longleftrightarrow>
     (let e = xlate (phys s) 2 pt a
      in valid e \<and> PTE_FLAGS e \<noteq> PTE_V \<and> PTE2PA e = p \<and> page_ok s p) \<and> owned s pt (a + PGSIZE) ps"

definition without_pages :: "(u64 \<Rightarrow> u64) \<Rightarrow> u64 \<Rightarrow> nat \<Rightarrow> u64 \<Rightarrow> u64" where
  "without_pages f a k va = (if unat a \<le> unat va \<and> unat va < unat a + k * 4096 then 0 else f va)"

text \<open>
  \<open>unmapped s t pt f freed fs\<close>: the table has the same pages and the translation \<open>f\<close> now, the pages
  \<open>freed\<close> went to the free list, and no other memory changed.
\<close>

definition unmapped :: "'a kmem_st_scheme \<Rightarrow> 'a kmem_st_scheme \<Rightarrow> addr \<Rightarrow> (u64 \<Rightarrow> u64) \<Rightarrow> addr list \<Rightarrow> addr list \<Rightarrow> bool" where
  "unmapped s t pt f freed fs \<longleftrightarrow> kmem_inv t (freed @ fs) \<and> mem_step s t \<and>
     mset (pt_pages (phys t) 2 pt) = mset (pt_pages (phys s) 2 pt) \<and>
     (\<forall>va. va < MAXVA \<longrightarrow> xlate (phys t) 2 pt va = f va) \<and>
     (\<forall>x. (\<forall>q\<in>set (pt_pages (phys s) 2 pt @ freed). \<not> in_rng q 4096 x) \<longrightarrow> phys t x = phys s x)"

lemma unmapped_trans:
  assumes "unmapped s t pt f fr fs" "unmapped t u pt g fr' (fr @ fs)"
  shows "unmapped s u pt g (fr' @ fr) fs"
proof -
  have eq: "set (pt_pages (phys t) 2 pt) = set (pt_pages (phys s) 2 pt)"
    using assms(1) unfolding unmapped_def by (metis set_mset_mset)
  have "phys u x = phys s x" if "\<forall>q\<in>set (pt_pages (phys s) 2 pt @ fr' @ fr). \<not> in_rng q 4096 x" for x
    using that assms by (simp add: unmapped_def eq ball_Un)
  with assms mem_step_trans [of s t u] show ?thesis by (simp add: unmapped_def)
qed

lemma unmapped_tree_ok:
  assumes "unmapped s t pt f fr fs" "tree_ok s 2 pt fs" "set fr \<inter> set (pt_pages (phys s) 2 pt) = {}"
  shows "tree_ok t 2 pt (fr @ fs)"
proof -
  have eq: "mset (pt_pages (phys t) 2 pt) = mset (pt_pages (phys s) 2 pt)" and inv: "kmem_inv t (fr @ fs)"
    using assms(1) by (simp_all add: unmapped_def)
  from eq have st: "set (pt_pages (phys t) 2 pt) = set (pt_pages (phys s) 2 pt)" by (metis set_mset_mset)
  moreover have "distinct (pt_pages (phys t) 2 pt)"
    using mset_eq_imp_distinct_iff [OF eq] assms(2) by (simp add: tree_ok_def)
  moreover have "page_ok t = page_ok s" using assms(1) by (simp add: unmapped_def mem_step_page_ok)
  ultimately show ?thesis using assms(2,3) kmem_invD(5) [OF inv] inv by (auto simp: tree_ok_def)
qed

lemma walk_lookup:
  "va < MAXVA \<Longrightarrow> walk pt va False s = Ok (case leaf_slot (phys s) 2 pt va of None \<Rightarrow> 0 | Some r \<Rightarrow> r, s)"
  by (simp add: walk_def walk_loop_lookup)

lemma valid_leaf: "valid (xlate (phys s) 2 pt a) \<Longrightarrow> \<exists>r. leaf_slot (phys s) 2 pt a = Some r"
  using leaf_slot_None [of "phys s" 2 pt a] by (cases "leaf_slot (phys s) 2 pt a") (auto simp: valid_def)

lemma unmap_one:
  assumes ok: "tree_ok s 2 pt fs" and a: "a < MAXVA" and v: "valid (xlate (phys s) 2 pt a)"
    and p: "p = PTE2PA (xlate (phys s) 2 pt a)" "page_ok s p" "p \<notin> set fs" "p \<notin> set (pt_pages (phys s) 2 pt)"
  obtains r t where "walk pt a False s = Ok (r, s)" "r \<noteq> 0" "load64 (phys s) r = xlate (phys s) 2 pt a" "kfree p s = Ok t"
    "unmapped s (t\<lparr>phys := store64 (phys t) r 0\<rparr>) pt
      (\<lambda>va. if unat va div 4096 = unat a div 4096 then 0 else xlate (phys s) 2 pt va) [p] fs"
proof -
  have inv: "kmem_inv s fs" using ok by (simp add: tree_ok_def)
  from valid_leaf [OF v] obtain r where r: "leaf_slot (phys s) 2 pt a = Some r" by blast
  from kfree_pushes [OF inv p(2,3)] obtain t where t: "kfree p s = Ok t" "kmem_inv t (p # fs)" "mem_step s t"
    "\<forall>x. \<not> in_rng p 4096 x \<longrightarrow> phys t x = phys s x" by blast
  have "same_on (phys s) (phys t) (set (pt_pages (phys s) 2 pt))"
    by (rule same_on_apart [where Q = "{p}"])
      (use t(4) p(2,4) tree_ok_apart [OF ok] in \<open>auto simp: apart_def page_ok_def\<close>)
  from tree_frame [OF this] have fr: "pt_pages (phys t) 2 pt = pt_pages (phys s) 2 pt"
    "\<And>va. xlate (phys t) 2 pt va = xlate (phys s) 2 pt va" "leaf_slot (phys t) 2 pt a = leaf_slot (phys s) 2 pt a"
    by simp_all
  have ok_t: "tree_ok t 2 pt (p # fs)"
    using ok fr(1) t(2,3) p(3,4) mem_step_page_ok [of s t] by (auto simp: tree_ok_def)
  have r_t: "leaf_slot (phys t) 2 pt a = Some r" using r fr(3) by simp
  note st = store_remapped [OF ok_t r_t a, of 0]
  have "unmapped s (t\<lparr>phys := store64 (phys t) r 0\<rparr>) pt
      (\<lambda>va. if unat va div 4096 = unat a div 4096 then 0 else xlate (phys s) 2 pt va) [p] fs"
    using st t(3,4) unfolding unmapped_def remapped_def extended_def fr by simp
  moreover have "walk pt a False s = Ok (r, s)" using walk_lookup [OF a, of pt s] r by simp
  moreover have "r \<noteq> 0" using leaf_slot_nonzero [OF ok r] .
  ultimately show thesis using that t(1) leaf_slot_load [OF r] by blast
qed

lemma without_pages_0 [simp]: "without_pages f a 0 = f"
  by (auto simp: without_pages_def fun_eq_iff)

lemma without_pages_Suc:
  assumes a: "aligned 4096 a" "unat a + Suc k * 4096 \<le> 2 ^ 38"
  shows "without_pages (\<lambda>va. if unat va div 4096 = unat a div 4096 then 0 else f va) (a + PGSIZE) k =
    without_pages f a (Suc k)" (is "?l = ?r")
proof
  fix va
  obtain c where c: "unat a = 4096 * c" using a(1) by (auto simp: aligned_dvd elim: dvdE)
  have s: "unat (a + PGSIZE) = unat a + 4096" using a(2) by (intro unat_add_PGSIZE) simp
  show "?l va = ?r va"
  proof (cases "unat va div 4096 = c")
    case True
    then have "4096 * c \<le> unat va" "unat va < 4096 * c + 4096" by auto
    then show ?thesis using c s True by (simp add: without_pages_def)
  next
    case False
    then have n: "\<not> (4096 * c \<le> unat va \<and> unat va < 4096 * c + 4096)"
      by (metis add.commute div_nat_eqI mult.commute mult_Suc_right)
    show ?thesis using n c s False unfolding without_pages_def by auto
  qed
qed

lemma owned_cong:
  assumes "owned s pt a ps" "unat a + length ps * 4096 \<le> 2 ^ 38" "page_ok t = page_ok s"
    and "\<And>va. unat a \<le> unat va \<Longrightarrow> unat va < unat a + length ps * 4096 \<Longrightarrow>
      xlate (phys t) 2 pt va = xlate (phys s) 2 pt va"
  shows "owned t pt a ps"
  using assms
proof (induction ps arbitrary: a)
  case (Cons p ps)
  have b: "unat (a + PGSIZE) = unat a + 4096" using Cons.prems(2) by (intro unat_add_PGSIZE) simp
  have "owned t pt (a + PGSIZE) ps" using Cons.prems b by (intro Cons.IH) auto
  moreover have "xlate (phys t) 2 pt a = xlate (phys s) 2 pt a" using Cons.prems(4) [of a] by simp
  ultimately show ?case using Cons.prems by (simp add: Let_def)
qed simp

lemma uvmunmap_loop_spec:
  assumes "tree_ok s 2 pt fs" "aligned 4096 a" "unat a + length ps * 4096 \<le> 2 ^ 38" "owned s pt a ps"
    and "distinct (ps @ fs)" "set ps \<inter> set (pt_pages (phys s) 2 pt) = {}" "length ps \<le> n"
    and "unat e = unat a + length ps * 4096"
  shows "\<exists>t. uvmunmap_loop n pt a e True s = Ok t \<and>
    unmapped s t pt (without_pages (xlate (phys s) 2 pt) a (length ps)) (rev ps) fs"
  using assms
proof (induction ps arbitrary: n a s fs)
  case Nil
  then have "\<not> a < e" by (simp add: word_less_nat_alt)
  with Nil show ?case by (subst uvmunmap_loop.simps) (simp add: unmapped_def tree_ok_def)
next
  case (Cons p ps n a s fs)
  note prems = Cons.prems
  let ?f = "\<lambda>va. if unat va div 4096 = unat a div 4096 then 0 else xlate (phys s) 2 pt va"
  have am: "a < MAXVA" using prems(3) by (simp add: word_less_nat_alt unat_MAXVA)
  have lt: "a < e" using prems(8) by (simp add: word_less_nat_alt)
  obtain n' where n: "n = Suc n'" using prems(7) by (cases n) auto
  have b: "unat (a + PGSIZE) = unat a + 4096" using prems(3) by (intro unat_add_PGSIZE) simp
  have v: "valid (xlate (phys s) 2 pt a)" "PTE_FLAGS (xlate (phys s) 2 pt a) \<noteq> PTE_V"
    and p: "p = PTE2PA (xlate (phys s) 2 pt a)" "page_ok s p" "p \<notin> set fs" "p \<notin> set (pt_pages (phys s) 2 pt)"
    using prems(4-6) by (auto simp: Let_def)
  show ?case
  proof (rule unmap_one [OF prems(1) am v(1) p])
    fix r t assume w: "walk pt a False s = Ok (r, s)" "r \<noteq> 0" "load64 (phys s) r = xlate (phys s) 2 pt a" "kfree p s = Ok t"
      and m: "unmapped s (t\<lparr>phys := store64 (phys t) r 0\<rparr>) pt ?f [p] fs"
    define t' where "t' = t\<lparr>phys := store64 (phys t) r 0\<rparr>"
    note m = m [folded t'_def]
    have x: "xlate (phys t') 2 pt va = ?f va" if "va < MAXVA" for va using m that by (simp add: unmapped_def)
    have ok': "tree_ok t' 2 pt (p # fs)" using unmapped_tree_ok [OF m prems(1)] p(4) by simp
    have st: "set (pt_pages (phys t') 2 pt) = set (pt_pages (phys s) 2 pt)"
      using m unfolding unmapped_def by (metis set_mset_mset)
    have ow: "owned t' pt (a + PGSIZE) ps"
    proof (rule owned_cong [where s = s])
      show "owned s pt (a + PGSIZE) ps" using prems(4) by simp
      show "page_ok t' = page_ok s" using m by (simp add: unmapped_def mem_step_page_ok)
      fix va :: u64 assume va: "unat (a + PGSIZE) \<le> unat va" "unat va < unat (a + PGSIZE) + length ps * 4096"
      then have "va < MAXVA" using prems(3) b by (simp add: word_less_nat_alt unat_MAXVA)
      moreover have "unat va div 4096 \<noteq> unat a div 4096"
        using va b div_le_mono [of "unat a + 4096" "unat va" 4096] by simp
      ultimately show "xlate (phys t') 2 pt va = xlate (phys s) 2 pt va" using x by simp
    qed (use prems(3) b in simp)
    have al: "aligned 4096 (a + PGSIZE)" using prems(2) b by (simp add: aligned_dvd)
    have "\<exists>u. uvmunmap_loop n' pt (a + PGSIZE) e True t' = Ok u \<and>
        unmapped t' u pt (without_pages (xlate (phys t') 2 pt) (a + PGSIZE) (length ps)) (rev ps) (p # fs)"
      by (rule Cons.IH [OF ok' al _ ow]) (use prems n b st in auto)
    then obtain u where u: "uvmunmap_loop n' pt (a + PGSIZE) e True t' = Ok u"
      "unmapped t' u pt (without_pages (xlate (phys t') 2 pt) (a + PGSIZE) (length ps)) (rev ps) ([p] @ fs)" by auto
    have "without_pages (xlate (phys t') 2 pt) (a + PGSIZE) (length ps) va =
        without_pages (xlate (phys s) 2 pt) a (Suc (length ps)) va" if "va < MAXVA" for va
    proof -
      have "without_pages ?f (a + PGSIZE) (length ps) = without_pages (xlate (phys s) 2 pt) a (Suc (length ps))"
        by (rule without_pages_Suc) (use prems(2,3) in simp_all)
      moreover have "without_pages (xlate (phys t') 2 pt) (a + PGSIZE) (length ps) va =
          without_pages ?f (a + PGSIZE) (length ps) va" by (simp only: without_pages_def x [OF that])
      ultimately show ?thesis by (simp only:)
    qed
    then have "unmapped s u pt (without_pages (xlate (phys s) 2 pt) a (Suc (length ps))) (rev ps @ [p]) fs"
      using unmapped_trans [OF m u(2)] by (simp add: unmapped_def)
    moreover have "uvmunmap_loop n pt a e True s = Ok u"
      using n lt w v u(1) p(1) by (subst uvmunmap_loop.simps) (simp add: valid_def t'_def)
    ultimately show ?thesis by auto
  qed
qed

section \<open>Growing and shrinking an address space\<close>

text \<open>An address space: its table, and its pages \<open>ps\<close> from \<open>a\<close> on, with the free list \<open>fs\<close>, all apart.\<close>

definition space :: "'a kmem_st_scheme \<Rightarrow> addr \<Rightarrow> u64 \<Rightarrow> addr list \<Rightarrow> addr list \<Rightarrow> bool" where
  "space s pt a ps fs \<longleftrightarrow> kmem_inv s fs \<and> (\<forall>p\<in>set (pt_pages (phys s) 2 pt). page_ok s p) \<and>
     owned s pt a ps \<and> distinct (pt_pages (phys s) 2 pt @ ps @ fs)"

lemma space_tree_ok: "space s pt a ps fs \<Longrightarrow> tree_ok s 2 pt fs"
  by (auto simp: space_def tree_ok_def)

lemma owned_page_ok: "owned s pt a ps \<Longrightarrow> p \<in> set ps \<Longrightarrow> page_ok s p"
  by (induction ps arbitrary: a) (auto simp: Let_def)

text \<open>The pages of an address space can change hands, but none is lost.\<close>

lemma space_conserve:
  assumes sp: "space s pt a ps fs" and eq: "mset (pt_pages (phys t) 2 pt @ ps' @ fs') = mset (pt_pages (phys s) 2 pt @ ps @ fs)"
    and t: "kmem_inv t fs'" "mem_step s t" "owned t pt a ps'"
  shows "space t pt a ps' fs'"
proof -
  from eq have st: "set (pt_pages (phys t) 2 pt @ ps' @ fs') = set (pt_pages (phys s) 2 pt @ ps @ fs)"
    by (metis set_mset_mset)
  have "page_ok s p" if "p \<in> set (pt_pages (phys s) 2 pt @ ps @ fs)" for p
    using that sp owned_page_ok [of s pt a ps p] kmem_invD(6) [of s fs p] by (auto simp: space_def)
  with st mem_step_page_ok [OF t(2)] have "page_ok t p" if "p \<in> set (pt_pages (phys t) 2 pt)" for p
    using that by (metis Un_iff set_append)
  moreover have "distinct (pt_pages (phys t) 2 pt @ ps' @ fs')"
    using mset_eq_imp_distinct_iff [OF eq] sp by (simp add: space_def)
  ultimately show ?thesis using t(1,3) by (simp add: space_def)
qed

lemma PGROUNDUP_id: "aligned 4096 a \<Longrightarrow> unat a + 4095 < 2 ^ 64 \<Longrightarrow> PGROUNDUP a = a"
proof -
  assume "aligned 4096 a" and b: "unat a + 4095 < 2 ^ 64"
  then obtain c where c: "unat a = 4096 * c" by (auto simp: aligned_dvd elim: dvdE)
  have "(unat a + 4095) div 4096 = c" unfolding c by simp
  then show ?thesis using b c by (simp add: word_unat_eq_iff unat_PGROUNDUP)
qed

lemma scast_int_small: "k < 2 ^ 31 \<Longrightarrow> scast (ucast (of_nat k :: u64) :: u32) = (of_nat k :: u64)"
proof -
  assume k: "k < 2 ^ 31"
  have "ucast (of_nat k :: u64) = (of_int (int k) :: u32)"
    using k by (simp add: word_unat_eq_iff unsigned_ucast_eq unat_of_nat take_bit_nat_eq_self)
  moreover have "signed_take_bit 31 (int k) = int k" using k by (intro signed_take_bit_int_eq_self) simp_all
  ultimately show ?thesis by (simp add: signed_of_nat)
qed

lemma uvmdealloc_all:
  assumes sp: "space s pt a ps fs" and a: "aligned 4096 a" "unat a + length ps * 4096 \<le> 2 ^ 38"
    and b: "b = a + of_nat (length ps) * PGSIZE"
  shows "\<exists>r t. uvmdealloc pt b a s = Ok (r, t) \<and>
    unmapped s t pt (without_pages (xlate (phys s) 2 pt) a (length ps)) (rev ps) fs"
proof -
  have "unat (a + of_nat (length ps * 4096)) = unat a + length ps * 4096"
    by (rule unat_add_of_nat) (use a(2) in simp)
  then have ub: "unat b = unat a + length ps * 4096" unfolding b by (simp only: of_nat_mult of_nat_numeral)
  have al: "aligned 4096 b" using a(1) ub by (simp add: aligned_dvd)
  have id: "PGROUNDUP a = a" "PGROUNDUP b = b" using a al ub by (auto intro!: PGROUNDUP_id)
  have "tree_ok s 2 pt fs" using sp by (rule space_tree_ok)
  show ?thesis
  proof (cases "ps = []")
    case True
    with b \<open>tree_ok s 2 pt fs\<close> show ?thesis by (auto simp: uvmdealloc_def unmapped_def tree_ok_def)
  next
    case False
    then have lt: "a < b" using ub by (simp add: word_less_nat_alt)
    have "unat ((b - a) div PGSIZE) = length ps"
      using lt ub by (simp add: unat_div_distrib unat_diff_le order.strict_implies_order)
    moreover have un: "unat (of_nat (length ps) :: u64) = length ps"
      using a(2) by (simp add: unat_of_nat take_bit_nat_eq_self)
    ultimately have "(b - a) div PGSIZE = of_nat (length ps)" by (simp only: word_unat_eq_iff)
    moreover have "length ps < 2 ^ 31" using a(2) by simp
    ultimately have np: "scast (ucast ((b - a) div PGSIZE) :: u32) = (of_nat (length ps) :: u64)"
      by (simp only: scast_int_small)
    have "\<exists>t. uvmunmap_loop (length ps) pt a b True s = Ok t \<and>
        unmapped s t pt (without_pages (xlate (phys s) 2 pt) a (length ps)) (rev ps) fs"
      by (rule uvmunmap_loop_spec) (use sp space_tree_ok [OF sp] a ub in \<open>auto simp: space_def\<close>)
    then obtain t where t: "uvmunmap_loop (length ps) pt a b True s = Ok t"
      "unmapped s t pt (without_pages (xlate (phys s) 2 pt) a (length ps)) (rev ps) fs" by blast
    have "a mod PGSIZE = 0" using a(1) by (simp only: page_ok_mod)
    with t(1) have "uvmunmap pt a (of_nat (length ps)) True s = Ok t"
      by (simp only: uvmunmap_def un b [symmetric]) simp
    then have "uvmdealloc pt b a s = Ok (a, t)" using lt linorder_not_le [of b a] by (simp add: uvmdealloc_def id np)
    with t(2) show ?thesis by blast
  qed
qed

lemma owned_append:
  "unat a + (length ps + length qs) * 4096 \<le> 2 ^ 38 \<Longrightarrow>
   owned s pt a (ps @ qs) \<longleftrightarrow> owned s pt a ps \<and> owned s pt (a + of_nat (length ps) * PGSIZE) qs"
proof (induction ps arbitrary: a)
  case (Cons p ps)
  have b: "unat (a + PGSIZE) = unat a + 4096" using Cons.prems by (intro unat_add_PGSIZE) simp
  have "owned s pt (a + PGSIZE) (ps @ qs) \<longleftrightarrow>
      owned s pt (a + PGSIZE) ps \<and> owned s pt (a + PGSIZE + of_nat (length ps) * PGSIZE) qs"
    by (rule Cons.IH) (use Cons.prems b in simp)
  moreover have "a + PGSIZE + of_nat (length ps) * PGSIZE = a + of_nat (length (p # ps)) * PGSIZE"
    by (simp add: algebra_simps)
  ultimately show ?case by (simp only: owned.simps append_Cons) blast
qed simp

text \<open>\<open>mappages\<close> for one page, as \<open>uvmalloc\<close> and \<open>uvmcopy\<close> call it.\<close>

lemma mappages_one:
  assumes "tree_ok s 2 pt fs" "aligned 4096 a" "unat a + 4096 \<le> 2 ^ 38"
    "\<forall>va. unat va div 4096 = unat a div 4096 \<longrightarrow> \<not> valid (xlate (phys s) 2 pt va)"
  obtains (mapped) t new fs' where "mappages pt a PGSIZE pa perm s = Ok (0, t)" "fs = new @ fs'"
    "remapped s t pt (\<lambda>va. if unat va div 4096 = unat a div 4096 then PA2PTE pa OR perm OR PTE_V
      else xlate (phys s) 2 pt va) new fs'"
  | (full) t where "mappages pt a PGSIZE pa perm s = Ok (-1, t)" "remapped s t pt (xlate (phys s) 2 pt) fs []"
proof -
  have nv: "\<forall>va. unat a \<le> unat va \<and> unat va < unat a + Suc 0 * 4096 \<longrightarrow> \<not> valid (xlate (phys s) 2 pt va)"
  proof (intro allI impI)
    fix va :: u64 assume va: "unat a \<le> unat va \<and> unat va < unat a + Suc 0 * 4096"
    obtain c where c: "unat a = 4096 * c" using assms(2) by (auto simp: aligned_dvd elim: dvdE)
    have "unat va div 4096 = c" using va unfolding c by (intro div_nat_eqI) auto
    then show "\<not> valid (xlate (phys s) 2 pt va)" using assms(4) c by simp
  qed
  have l: "a + PGSIZE - PGSIZE = a + of_nat 0 * PGSIZE" by simp
  have b: "unat a + Suc 0 * 4096 \<le> 2 ^ 38" using assms(3) by simp
  have eq: "mappages pt a PGSIZE pa perm s = mappages_loop (Suc 0) pt a (a + PGSIZE - PGSIZE) pa perm s"
    using assms(2) by (simp add: mappages_def page_ok_mod)
  from mappages_loop_spec [OF assms(1,2) b l nv, of pa perm, folded eq] obtain r t k new fs' where
    m: "mappages pt a PGSIZE pa perm s = Ok (r, t)" "fs = new @ fs'"
      "remapped s t pt (with_pages (xlate (phys s) 2 pt) a k pa perm) new fs'"
      "r = 0 \<and> k = Suc 0 \<or> r = -1 \<and> k \<le> 0 \<and> fs' = []" by blast
  show thesis
  proof (cases "r = 0")
    case True
    with m have "k = Suc 0" by auto
    moreover have "with_pages (xlate (phys s) 2 pt) a (Suc 0) pa perm =
        (\<lambda>va. if unat va div 4096 = unat a div 4096 then PA2PTE pa OR perm OR PTE_V else xlate (phys s) 2 pt va)"
      using with_pages_Suc [OF assms(2) b, of pa perm "xlate (phys s) 2 pt"] by simp
    ultimately show thesis using m mapped True by simp
  next
    case False
    with m show thesis using full by simp
  qed
qed

text \<open>Taking a page off the free list and filling it leaves the tables alone.\<close>

lemma alloc_page:
  assumes ok: "tree_ok s 2 pt (p # fs)"
    and m: "\<And>m x. \<not> in_rng p 4096 x \<Longrightarrow> f m x = m x"
  obtains t where "kalloc s = Ok (p, t)" "p \<noteq> 0" "page_ok s p" "p \<notin> set (pt_pages (phys s) 2 pt)"
    "tree_ok (t\<lparr>phys := f (phys t)\<rparr>) 2 pt fs" "mem_step s (t\<lparr>phys := f (phys t)\<rparr>)"
    "pt_pages (f (phys t)) 2 pt = pt_pages (phys s) 2 pt" "\<And>va. xlate (f (phys t)) 2 pt va = xlate (phys s) 2 pt va"
    "\<And>x. \<not> in_rng p 4096 x \<Longrightarrow> f (phys t) x = phys s x"
proof -
  have inv: "kmem_inv s (p # fs)" using ok by (simp add: tree_ok_def)
  from kalloc_pops [OF inv] obtain t where t: "kalloc s = Ok (p, t)" "kmem_inv t fs" "mem_step s t"
    "\<forall>x. \<not> in_rng p 4096 x \<longrightarrow> phys t x = phys s x" by auto
  have p: "p \<noteq> 0" "page_ok s p" "p \<notin> set (pt_pages (phys s) 2 pt)" "p \<notin> set fs"
    using inv ok by (auto simp: kmem_inv_def tree_ok_def)
  have out: "f (phys t) x = phys s x" if "\<not> in_rng p 4096 x" for x using m t(4) that by simp
  have "same_on (phys s) (f (phys t)) (set (pt_pages (phys s) 2 pt))"
    by (rule same_on_apart [where Q = "{p}"])
      (use out p tree_ok_apart [OF ok] in \<open>auto simp: apart_def page_ok_def\<close>)
  from tree_frame [OF this] have fr: "pt_pages (f (phys t)) 2 pt = pt_pages (phys s) 2 pt"
    "\<And>va. xlate (f (phys t)) 2 pt va = xlate (phys s) 2 pt va" by simp_all
  have "kmem_inv (t\<lparr>phys := f (phys t)\<rparr>) fs"
    by (rule kmem_inv_elsewhere [OF t(2), where Q = "{p}"])
      (use m p in \<open>auto simp: apart_def page_ok_def\<close>)
  then have "tree_ok (t\<lparr>phys := f (phys t)\<rparr>) 2 pt fs"
    using ok fr(1) mem_step_page_ok [OF t(3)] by (simp add: tree_ok_def)
  with that [OF t(1) p(1-3)] t(3) fr out show thesis by simp
qed

lemma PTE_FLAGS_leaf:
  assumes "unat x < 2 ^ 10"
  shows "PTE_FLAGS (PA2PTE p OR (PTE_R OR PTE_U OR x) OR PTE_V) \<noteq> PTE_V"
    and "page_ok s p \<Longrightarrow> PTE2PA (PA2PTE p OR (PTE_R OR PTE_U OR x) OR PTE_V) = p"
proof -
  let ?f = "PTE_R OR PTE_U OR x OR PTE_V"
  have "unat (PTE_R OR PTE_U OR PTE_V :: u64) < 2 ^ 10" by simp
  moreover have "?f = (PTE_R OR PTE_U OR PTE_V) OR x" by (simp only: or.assoc or.left_commute or.commute)
  ultimately have f: "unat ?f < 2 ^ 10" using unat_or_less [OF _ assms] by simp
  have e: "PA2PTE p OR (PTE_R OR PTE_U OR x) OR PTE_V = PA2PTE p OR ?f" by (simp only: or.assoc)
  have "bit ?f 1" by (simp add: bit_simps)
  moreover have "\<not> bit PTE_V 1" by simp
  ultimately have "?f \<noteq> PTE_V" by metis
  then show "PTE_FLAGS (PA2PTE p OR (PTE_R OR PTE_U OR x) OR PTE_V) \<noteq> PTE_V"
    unfolding e using PTE_FLAGS_make [OF f] by simp
  show "PTE2PA (PA2PTE p OR (PTE_R OR PTE_U OR x) OR PTE_V) = p" if "page_ok s p"
    unfolding e using that unat_page [OF that] f by (intro PTE2PA_make) (auto simp: page_ok_def)
qed

lemma owned_same:
  assumes "owned s pt a ps" "unat a + length ps * 4096 \<le> 2 ^ 38" "mem_step s t"
    "\<And>va. va < MAXVA \<Longrightarrow> unat va < unat a + length ps * 4096 \<Longrightarrow> xlate (phys t) 2 pt va = xlate (phys s) 2 pt va"
  shows "owned t pt a ps"
  by (rule owned_cong [OF assms(1,2) mem_step_page_ok [OF assms(3)]])
    (use assms(2,4) in \<open>auto simp: word_less_nat_alt unat_MAXVA\<close>)

text \<open>Giving up: all pages from \<open>a\<close> on go back to the free list.\<close>

lemma uvmdealloc_space:
  assumes sp: "space s pt a ps fs" and a: "aligned 4096 a" "unat a + length ps * 4096 \<le> 2 ^ 38"
  shows "\<exists>r t fs'. uvmdealloc pt (a + of_nat (length ps) * PGSIZE) a s = Ok (r, t) \<and> space t pt a [] fs' \<and> mem_step s t \<and>
    mset (pt_pages (phys t) 2 pt @ fs') = mset (pt_pages (phys s) 2 pt @ ps @ fs) \<and>
    (\<forall>va. va < MAXVA \<longrightarrow> xlate (phys t) 2 pt va = without_pages (xlate (phys s) 2 pt) a (length ps) va) \<and>
    (\<forall>x. (\<forall>q\<in>set (pt_pages (phys s) 2 pt @ ps). \<not> in_rng q 4096 x) \<longrightarrow> phys t x = phys s x)"
proof -
  from uvmdealloc_all [OF sp a refl] obtain r t where
    t: "uvmdealloc pt (a + of_nat (length ps) * PGSIZE) a s = Ok (r, t)"
      "unmapped s t pt (without_pages (xlate (phys s) 2 pt) a (length ps)) (rev ps) fs" by blast
  have eq: "mset (pt_pages (phys t) 2 pt @ [] @ (rev ps @ fs)) = mset (pt_pages (phys s) 2 pt @ ps @ fs)"
    using t(2) by (simp add: unmapped_def)
  have "space t pt a [] (rev ps @ fs)"
    by (rule space_conserve [OF sp eq]) (use t(2) in \<open>auto simp: unmapped_def\<close>)
  with t eq show ?thesis
    by (intro exI [of _ r] exI [of _ t] exI [of _ "rev ps @ fs"]) (auto simp: unmapped_def)
qed

text \<open>
  The outcome of a loop that adds \<open>m\<close> zeroed pages to a space with the pages \<open>ps\<close> from \<open>a0\<close> on: all
  of them, or none and the pages \<open>ps\<close> given up.
\<close>

definition grows :: "'a kmem_st_scheme \<Rightarrow> 'a kmem_st_scheme \<Rightarrow> addr \<Rightarrow> u64 \<Rightarrow> addr list \<Rightarrow> addr list \<Rightarrow> nat \<Rightarrow> bool" where
  "grows s t pt a0 ps fs m \<longleftrightarrow> mem_step s t \<and>
     (\<exists>qs fs'. space t pt a0 (ps @ qs) fs' \<and> length qs = m \<and>
        mset (pt_pages (phys t) 2 pt @ qs @ fs') = mset (pt_pages (phys s) 2 pt @ fs) \<and>
        (\<forall>q\<in>set qs. \<forall>x. in_rng q 4096 x \<longrightarrow> phys t x = 0) \<and>
        (\<forall>va. va < MAXVA \<longrightarrow> unat va < unat a0 + length ps * 4096 \<or> unat a0 + (length ps + m) * 4096 \<le> unat va \<longrightarrow>
          xlate (phys t) 2 pt va = xlate (phys s) 2 pt va) \<and>
        (\<forall>x. (\<forall>q\<in>set (pt_pages (phys s) 2 pt @ fs). \<not> in_rng q 4096 x) \<longrightarrow> phys t x = phys s x))"

definition gives_up :: "'a kmem_st_scheme \<Rightarrow> 'a kmem_st_scheme \<Rightarrow> addr \<Rightarrow> u64 \<Rightarrow> addr list \<Rightarrow> addr list \<Rightarrow> bool" where
  "gives_up s t pt a0 ps fs \<longleftrightarrow> mem_step s t \<and>
     (\<exists>fs'. space t pt a0 [] fs' \<and> mset (pt_pages (phys t) 2 pt @ fs') = mset (pt_pages (phys s) 2 pt @ ps @ fs) \<and>
        (\<forall>va. va < MAXVA \<longrightarrow> xlate (phys t) 2 pt va = without_pages (xlate (phys s) 2 pt) a0 (length ps) va) \<and>
        (\<forall>x. (\<forall>q\<in>set (pt_pages (phys s) 2 pt @ ps @ fs). \<not> in_rng q 4096 x) \<longrightarrow> phys t x = phys s x))"

lemma gives_up_dealloc:
  assumes sp: "space s pt a0 ps fs" and a: "aligned 4096 a0" "unat a0 + length ps * 4096 \<le> 2 ^ 38"
    and u: "mem_step s u" "kmem_inv u fs'" "\<And>va. xlate (phys u) 2 pt va = xlate (phys s) 2 pt va \<or> MAXVA \<le> va"
      "mset (pt_pages (phys u) 2 pt @ fs') = mset (pt_pages (phys s) 2 pt @ fs)"
      "\<And>x. \<forall>q\<in>set (pt_pages (phys s) 2 pt @ fs). \<not> in_rng q 4096 x \<Longrightarrow> phys u x = phys s x"
  shows "\<exists>r t. uvmdealloc pt (a0 + of_nat (length ps) * PGSIZE) a0 u = Ok (r, t) \<and> gives_up s t pt a0 ps fs"
proof -
  have ow: "owned u pt a0 ps"
    by (rule owned_same [OF _ a(2) u(1)]) (use sp u(3) in \<open>auto simp: space_def not_le [symmetric]\<close>)
  have eq: "mset (pt_pages (phys u) 2 pt @ ps @ fs') = mset (pt_pages (phys s) 2 pt @ ps @ fs)" using u(4) by simp
  have sp': "space u pt a0 ps fs'" by (rule space_conserve [OF sp eq u(2,1) ow])
  have sub: "set (pt_pages (phys u) 2 pt) \<subseteq> set (pt_pages (phys s) 2 pt @ fs)"
    using u(4) by (metis Un_upper1 set_append set_mset_mset)
  from uvmdealloc_space [OF sp' a] obtain r t fs'' where
    t: "uvmdealloc pt (a0 + of_nat (length ps) * PGSIZE) a0 u = Ok (r, t)" "space t pt a0 [] fs''" "mem_step u t"
      "mset (pt_pages (phys t) 2 pt @ fs'') = mset (pt_pages (phys u) 2 pt @ ps @ fs')"
      "\<forall>va. va < MAXVA \<longrightarrow> xlate (phys t) 2 pt va = without_pages (xlate (phys u) 2 pt) a0 (length ps) va"
      "\<forall>x. (\<forall>q\<in>set (pt_pages (phys u) 2 pt @ ps). \<not> in_rng q 4096 x) \<longrightarrow> phys t x = phys u x" by blast
  have "phys t x = phys s x" if "\<forall>q\<in>set (pt_pages (phys s) 2 pt @ ps @ fs). \<not> in_rng q 4096 x" for x
  proof -
    have "\<forall>q\<in>set (pt_pages (phys u) 2 pt @ ps). \<not> in_rng q 4096 x" using that sub by auto
    moreover have "\<forall>q\<in>set (pt_pages (phys s) 2 pt @ fs). \<not> in_rng q 4096 x" using that by auto
    ultimately show ?thesis using t(6) u(5) by simp
  qed
  moreover have "xlate (phys t) 2 pt va = without_pages (xlate (phys s) 2 pt) a0 (length ps) va" if "va < MAXVA" for va
    using t(5) u(3) [of va] that by (simp add: without_pages_def not_le [symmetric])
  ultimately have "gives_up s t pt a0 ps fs"
    unfolding gives_up_def using mem_step_trans [OF u(1) t(3)] t(2,4) eq by auto
  with t(1) show ?thesis by blast
qed

lemma zeroed_page: "\<not> in_rng p 4096 x \<Longrightarrow> memset m p 0 PGSIZE x = m x" "in_rng p 4096 x \<Longrightarrow> memset m p 0 PGSIZE x = 0"
  by (simp_all add: memset_eq)

text \<open>One page more.\<close>

lemma grow_one:
  assumes sp: "space s pt a0 ps (p # fs)" and a: "aligned 4096 a0" "unat a0 + Suc (length ps) * 4096 \<le> 2 ^ 38"
    and a1: "a = a0 + of_nat (length ps) * PGSIZE"
    and nv: "\<forall>va. unat va div 4096 = unat a div 4096 \<longrightarrow> xlate (phys s) 2 pt va = 0" and xp: "unat xperm < 2 ^ 10"
  obtains (mapped) t u new fs' where "kalloc s = Ok (p, t)" "p \<noteq> 0"
      "mappages pt a PGSIZE p (PTE_R OR PTE_U OR xperm) (t\<lparr>phys := memset (phys t) p 0 PGSIZE\<rparr>) = Ok (0, u)"
      "fs = new @ fs'" "space u pt a0 (ps @ [p]) fs'" "mem_step s u"
      "mset (pt_pages (phys u) 2 pt) = mset (pt_pages (phys s) 2 pt) + mset new"
      "\<And>x. in_rng p 4096 x \<Longrightarrow> phys u x = 0"
      "\<And>va. va < MAXVA \<Longrightarrow> unat va div 4096 \<noteq> unat a div 4096 \<Longrightarrow> xlate (phys u) 2 pt va = xlate (phys s) 2 pt va"
      "\<And>x. \<forall>q\<in>set (pt_pages (phys s) 2 pt @ p # new). \<not> in_rng q 4096 x \<Longrightarrow> phys u x = phys s x"
  | (full) t u v r w where "kalloc s = Ok (p, t)" "p \<noteq> 0"
      "mappages pt a PGSIZE p (PTE_R OR PTE_U OR xperm) (t\<lparr>phys := memset (phys t) p 0 PGSIZE\<rparr>) = Ok (-1, u)"
      "kfree p u = Ok v" "uvmdealloc pt a a0 v = Ok (r, w)" "gives_up s w pt a0 ps (p # fs)"
proof -
  have ua: "unat a = unat a0 + length ps * 4096"
  proof -
    have "unat (a0 + of_nat (length ps * 4096)) = unat a0 + length ps * 4096"
      by (rule unat_add_of_nat) (use a(2) in simp)
    then show ?thesis unfolding a1 by (simp only: of_nat_mult of_nat_numeral)
  qed
  have al: "aligned 4096 a" using a(1) ua by (simp add: aligned_dvd)
  have dist: "distinct (pt_pages (phys s) 2 pt @ ps @ p # fs)" using sp by (simp add: space_def)
  have apart: "apart (set (pt_pages (phys s) 2 pt @ p # fs))" using tree_ok_apart [OF space_tree_ok [OF sp]] .
  show thesis
  proof (rule alloc_page [OF space_tree_ok [OF sp], where f = "\<lambda>m. memset m p 0 PGSIZE"])
    show "memset m p 0 PGSIZE x = m x" if "\<not> in_rng p 4096 x" for m x using that by (rule zeroed_page)
    fix t assume t: "kalloc s = Ok (p, t)" "p \<noteq> 0" "page_ok s p" "p \<notin> set (pt_pages (phys s) 2 pt)"
      and t2: "tree_ok (t\<lparr>phys := memset (phys t) p 0 PGSIZE\<rparr>) 2 pt fs" "mem_step s (t\<lparr>phys := memset (phys t) p 0 PGSIZE\<rparr>)"
        "pt_pages (memset (phys t) p 0 PGSIZE) 2 pt = pt_pages (phys s) 2 pt"
        "\<And>va. xlate (memset (phys t) p 0 PGSIZE) 2 pt va = xlate (phys s) 2 pt va"
        "\<And>x. \<not> in_rng p 4096 x \<Longrightarrow> memset (phys t) p 0 PGSIZE x = phys s x"
    let ?t = "t\<lparr>phys := memset (phys t) p 0 PGSIZE\<rparr>"
    have nv': "\<forall>va. unat va div 4096 = unat a div 4096 \<longrightarrow> \<not> valid (xlate (phys ?t) 2 pt va)"
      using nv by (simp add: t2(4) valid_def)
    have b: "unat a + 4096 \<le> 2 ^ 38" using a(2) ua by simp
    show thesis
    proof (rule mappages_one [OF t2(1) al b nv', where pa = p and perm = "PTE_R OR PTE_U OR xperm"])
      fix u new fs' assume m: "mappages pt a PGSIZE p (PTE_R OR PTE_U OR xperm) ?t = Ok (0, u)" "fs = new @ fs'"
        and re: "remapped ?t u pt (\<lambda>va. if unat va div 4096 = unat a div 4096
          then PA2PTE p OR (PTE_R OR PTE_U OR xperm) OR PTE_V else xlate (phys ?t) 2 pt va) new fs'"
      have "mem_step ?t u" using re unfolding remapped_def extended_def by blast
      then have ms: "mem_step s u" by (rule mem_step_trans [OF t2(2)])
      have x: "xlate (phys u) 2 pt va = (if unat va div 4096 = unat a div 4096
          then PA2PTE p OR (PTE_R OR PTE_U OR xperm) OR PTE_V else xlate (phys s) 2 pt va)" if "va < MAXVA" for va
        using re that by (simp add: remapped_def t2(4))
      have pg: "mset (pt_pages (phys u) 2 pt) = mset (pt_pages (phys s) 2 pt) + mset new"
        using re by (simp add: remapped_def extended_def t2(3))
      have out: "phys u x = memset (phys t) p 0 PGSIZE x"
        if "\<forall>q\<in>set (pt_pages (phys s) 2 pt @ new). \<not> in_rng q 4096 x" for x
        using re that by (simp add: remapped_def extended_def t2(3))
      have "owned u pt a0 ps"
      proof (rule owned_same [OF _ _ ms])
        fix va assume va: "va < MAXVA" "unat va < unat a0 + length ps * 4096"
        then have "unat va div 4096 \<noteq> unat a div 4096"
          using al ua less_mult_imp_div_less [of "unat va" "unat a div 4096" 4096] by (auto simp: aligned_dvd)
        then show "xlate (phys u) 2 pt va = xlate (phys s) 2 pt va" using x [OF va(1)] by simp
      qed (use sp a(2) in \<open>auto simp: space_def\<close>)
      moreover have "a < MAXVA" using b by (simp add: word_less_nat_alt unat_MAXVA)
      then have "owned u pt a [p]" using x [of a] PTE_FLAGS_leaf(1) [OF xp, of p] PTE_FLAGS_leaf(2) [OF xp t(3)] t(3) mem_step_page_ok [OF ms]
        by (simp add: Let_def)
      ultimately have ow: "owned u pt a0 (ps @ [p])" using a(2) a1 by (subst owned_append) simp_all
      have "space u pt a0 (ps @ [p]) fs'"
        by (rule space_conserve [OF sp _ _ ms ow]) (use pg m(2) re in \<open>auto simp: remapped_def extended_def\<close>)
      moreover have "phys u x = 0" if "in_rng p 4096 x" for x
      proof -
        have "\<not> in_rng q 4096 x" if q: "q \<in> set (pt_pages (phys s) 2 pt @ new)" for q
          using q dist m(2) apart in_rng_disjoint [of 4096 p q x] \<open>in_rng p 4096 x\<close> by (auto simp: apart_def)
        then show ?thesis using out [of x] that by (simp add: zeroed_page)
      qed
      moreover have "phys u x = phys s x" if "\<forall>q\<in>set (pt_pages (phys s) 2 pt @ p # new). \<not> in_rng q 4096 x" for x
        using that out [of x] t2(5) [of x] by simp
      ultimately show thesis using mapped t m ms pg x by simp
    next
      fix u assume m: "mappages pt a PGSIZE p (PTE_R OR PTE_U OR xperm) ?t = Ok (-1, u)"
        and re: "remapped ?t u pt (xlate (phys ?t) 2 pt) fs []"
      have "mem_step ?t u" using re unfolding remapped_def extended_def by blast
      then have ms: "mem_step s u" by (rule mem_step_trans [OF t2(2)])
      have pg: "mset (pt_pages (phys u) 2 pt) = mset (pt_pages (phys s) 2 pt) + mset fs"
        using re by (simp add: remapped_def extended_def t2(3))
      then have pset: "set (pt_pages (phys u) 2 pt) = set (pt_pages (phys s) 2 pt @ fs)"
        by (metis set_append set_mset_mset set_mset_union)
      have ku: "kmem_inv u []" using re by (simp add: remapped_def extended_def)
      have "page_ok u p" using t(3) mem_step_page_ok [OF ms] by simp
      from kfree_pushes [OF ku this] obtain v where v: "kfree p u = Ok v" "kmem_inv v [p]" "mem_step u v"
        "\<forall>x. \<not> in_rng p 4096 x \<longrightarrow> phys v x = phys u x" by auto
      have "same_on (phys u) (phys v) (set (pt_pages (phys u) 2 pt))"
        by (rule same_on_apart [where Q = "{p}"]) (use v(4) pset dist apart in \<open>auto simp: apart_def\<close>)
      from tree_frame [OF this] have fr: "pt_pages (phys v) 2 pt = pt_pages (phys u) 2 pt"
        "\<And>va. xlate (phys v) 2 pt va = xlate (phys u) 2 pt va" by simp_all
      have "\<exists>r w. uvmdealloc pt (a0 + of_nat (length ps) * PGSIZE) a0 v = Ok (r, w) \<and> gives_up s w pt a0 ps (p # fs)"
      proof (rule gives_up_dealloc [OF sp a(1) _ mem_step_trans [OF ms v(3)] v(2)])
        show "xlate (phys v) 2 pt va = xlate (phys s) 2 pt va \<or> MAXVA \<le> va" for va
          using re by (auto simp: fr remapped_def t2(4) not_le)
        show "mset (pt_pages (phys v) 2 pt @ [p]) = mset (pt_pages (phys s) 2 pt @ p # fs)" using pg by (simp add: fr)
        show "phys v x = phys s x" if "\<forall>q\<in>set (pt_pages (phys s) 2 pt @ p # fs). \<not> in_rng q 4096 x" for x
          using that v(4) re t2(5) [of x] by (simp add: remapped_def extended_def t2(3))
      qed (use a(2) in simp)
      with full t m v(1) a1 show thesis by blast
    qed
  qed
qed

lemma unat_pages: "unat a0 + k * 4096 < 2 ^ 64 \<Longrightarrow> unat (a0 + of_nat k * PGSIZE :: u64) = unat a0 + k * 4096"
  using unat_add_of_nat [of a0 "k * 4096"] by (simp add: mult.commute)

lemma grows_0: "space s pt a0 ps fs \<Longrightarrow> grows s s pt a0 ps fs 0"
  unfolding grows_def by (intro conjI exI [of _ "[]"] exI [of _ fs]) simp_all

lemma alloc_none:
  assumes sp: "space s pt a0 ps []" and a: "aligned 4096 a0" "unat a0 + length ps * 4096 \<le> 2 ^ 38"
  obtains t r w where "kalloc s = Ok (0, t)" "uvmdealloc pt (a0 + of_nat (length ps) * PGSIZE) a0 t = Ok (r, w)"
    "gives_up s w pt a0 ps []"
proof -
  have "kmem_inv s []" using sp by (simp add: space_def)
  from kalloc_pops [OF this] obtain t where t: "kalloc s = Ok (0, t)" "kmem_inv t []" "mem_step s t" "phys t = phys s"
    by (auto simp: fun_eq_iff)
  have "\<exists>r w. uvmdealloc pt (a0 + of_nat (length ps) * PGSIZE) a0 t = Ok (r, w) \<and> gives_up s w pt a0 ps []"
    by (rule gives_up_dealloc [OF sp a t(3,2)]) (simp_all add: t(4))
  with that t(1) show thesis by blast
qed

lemma grows_Suc:
  assumes new: "fs = new @ fs'" and ms: "mem_step s u"
    and pg: "mset (pt_pages (phys u) 2 pt) = mset (pt_pages (phys s) 2 pt) + mset new"
    and z: "\<And>x. in_rng p 4096 x \<Longrightarrow> phys u x = 0"
    and x: "\<And>va. va < MAXVA \<Longrightarrow> unat va div 4096 \<noteq> unat a div 4096 \<Longrightarrow> xlate (phys u) 2 pt va = xlate (phys s) 2 pt va"
    and out: "\<And>x. \<forall>q\<in>set (pt_pages (phys s) 2 pt @ p # new). \<not> in_rng q 4096 x \<Longrightarrow> phys u x = phys s x"
    and a: "aligned 4096 a0" "unat a = unat a0 + length ps * 4096"
    and sp: "space u pt a0 (ps @ [p]) fs'" and g: "grows u t pt a0 (ps @ [p]) fs' m"
  shows "grows s t pt a0 ps (p # fs) (Suc m)"
proof -
  from g obtain qs fs'' where t: "mem_step u t" "space t pt a0 (ps @ p # qs) fs''" "length qs = m"
    "mset (pt_pages (phys t) 2 pt @ qs @ fs'') = mset (pt_pages (phys u) 2 pt @ fs')"
    "\<forall>q\<in>set qs. \<forall>x. in_rng q 4096 x \<longrightarrow> phys t x = 0"
    "\<forall>va. va < MAXVA \<longrightarrow> unat va < unat a0 + Suc (length ps) * 4096 \<or> unat a0 + (Suc (length ps) + m) * 4096 \<le> unat va \<longrightarrow>
      xlate (phys t) 2 pt va = xlate (phys u) 2 pt va"
    "\<forall>x. (\<forall>q\<in>set (pt_pages (phys u) 2 pt @ fs'). \<not> in_rng q 4096 x) \<longrightarrow> phys t x = phys u x"
    by (auto simp: grows_def)
  have us: "set (pt_pages (phys u) 2 pt) = set (pt_pages (phys s) 2 pt @ new)"
    using pg by (metis set_append set_mset_mset set_mset_union)
  have d: "distinct (pt_pages (phys u) 2 pt @ (ps @ [p]) @ fs')" and ok: "page_ok u p"
    using sp owned_page_ok [of u pt a0 "ps @ [p]" p] by (auto simp: space_def)
  have ap: "apart (set (pt_pages (phys u) 2 pt @ fs'))" using tree_ok_apart [OF space_tree_ok [OF sp]] .
  have pz: "phys t x = 0" if "in_rng p 4096 x" for x
  proof -
    have "\<not> in_rng q 4096 x" if "q \<in> set (pt_pages (phys u) 2 pt @ fs')" for q
      using that d ok ap in_rng_disjoint [of 4096 p q x] \<open>in_rng p 4096 x\<close> by (auto simp: apart_def page_ok_def)
    with t(7) z [OF that] show ?thesis by simp
  qed
  have xs: "xlate (phys t) 2 pt va = xlate (phys s) 2 pt va"
    if "va < MAXVA" "unat va < unat a0 + length ps * 4096 \<or> unat a0 + (length ps + Suc m) * 4096 \<le> unat va" for va
  proof -
    obtain c where c: "unat a = 4096 * c"
      using a by (metis aligned_dvd dvd_add dvd_def dvd_triv_right)
    have "unat va div 4096 \<noteq> unat a div 4096"
    proof
      assume "unat va div 4096 = unat a div 4096"
      then have "unat va div 4096 = c" using c by simp
      then have "4096 * c \<le> unat va" "unat va < 4096 * c + 4096" by auto
      with that(2) a(2) c show False by auto
    qed
    with x [OF that(1)] t(6) that show ?thesis by auto
  qed
  have o: "phys t x = phys s x" if "\<forall>q\<in>set (pt_pages (phys s) 2 pt @ p # fs). \<not> in_rng q 4096 x" for x
  proof -
    have "\<forall>q\<in>set (pt_pages (phys u) 2 pt @ fs'). \<not> in_rng q 4096 x" using that new us by auto
    moreover have "\<forall>q\<in>set (pt_pages (phys s) 2 pt @ p # new). \<not> in_rng q 4096 x" using that new by auto
    ultimately show ?thesis using t(7) out by simp
  qed
  have "mset (pt_pages (phys t) 2 pt @ (p # qs) @ fs'') = mset (pt_pages (phys s) 2 pt @ p # fs)"
    using t(4) pg new by simp
  with t pz xs o show ?thesis unfolding grows_def
    by (intro conjI mem_step_trans [OF ms t(1)] exI [of _ "p # qs"] exI [of _ fs'']) auto
qed

lemma gives_up_Suc:
  assumes new: "fs = new @ fs'" and ms: "mem_step s u"
    and pg: "mset (pt_pages (phys u) 2 pt) = mset (pt_pages (phys s) 2 pt) + mset new"
    and x: "\<And>va. va < MAXVA \<Longrightarrow> unat va div 4096 \<noteq> unat a div 4096 \<Longrightarrow> xlate (phys u) 2 pt va = xlate (phys s) 2 pt va"
    and out: "\<And>x. \<forall>q\<in>set (pt_pages (phys s) 2 pt @ p # new). \<not> in_rng q 4096 x \<Longrightarrow> phys u x = phys s x"
    and a: "aligned 4096 a0" "unat a = unat a0 + length ps * 4096"
    and nv: "\<forall>va. unat va div 4096 = unat a div 4096 \<longrightarrow> xlate (phys s) 2 pt va = 0"
    and g: "gives_up u t pt a0 (ps @ [p]) fs'"
  shows "gives_up s t pt a0 ps (p # fs)"
proof -
  from g obtain fs'' where t: "mem_step u t" "space t pt a0 [] fs''"
    "mset (pt_pages (phys t) 2 pt @ fs'') = mset (pt_pages (phys u) 2 pt @ (ps @ [p]) @ fs')"
    "\<forall>va. va < MAXVA \<longrightarrow> xlate (phys t) 2 pt va = without_pages (xlate (phys u) 2 pt) a0 (length (ps @ [p])) va"
    "\<forall>x. (\<forall>q\<in>set (pt_pages (phys u) 2 pt @ (ps @ [p]) @ fs'). \<not> in_rng q 4096 x) \<longrightarrow> phys t x = phys u x"
    unfolding gives_up_def by blast
  have us: "set (pt_pages (phys u) 2 pt) = set (pt_pages (phys s) 2 pt @ new)"
    using pg by (metis set_append set_mset_mset set_mset_union)
  have xs: "xlate (phys t) 2 pt va = without_pages (xlate (phys s) 2 pt) a0 (length ps) va" if "va < MAXVA" for va
  proof -
    obtain c where c: "unat a = 4096 * c"
      using a by (metis aligned_dvd dvd_add dvd_def dvd_triv_right)
    have "unat va div 4096 = c \<longleftrightarrow> 4096 * c \<le> unat va \<and> unat va < 4096 * c + 4096" by auto
    then show ?thesis using t(4) x [OF that] nv that a(2) c
      by (cases "unat va div 4096 = c") (auto simp: without_pages_def)
  qed
  have o: "phys t x = phys s x" if "\<forall>q\<in>set (pt_pages (phys s) 2 pt @ ps @ p # fs). \<not> in_rng q 4096 x" for x
  proof -
    have "\<forall>q\<in>set (pt_pages (phys u) 2 pt @ (ps @ [p]) @ fs'). \<not> in_rng q 4096 x" using that new us by auto
    moreover have "\<forall>q\<in>set (pt_pages (phys s) 2 pt @ p # new). \<not> in_rng q 4096 x" using that new by auto
    ultimately show ?thesis using t(5) out by simp
  qed
  have "mset (pt_pages (phys t) 2 pt @ fs'') = mset (pt_pages (phys s) 2 pt @ ps @ p # fs)"
    using t(3) pg new by simp
  with t(2) xs o show ?thesis unfolding gives_up_def
    by (intro conjI mem_step_trans [OF ms t(1)] exI [of _ fs'']) auto
qed

lemma uvmalloc_loop_spec:
  assumes "space s pt a0 ps fs" "aligned 4096 a0" "unat a0 + (length ps + m) * 4096 \<le> 2 ^ 38"
    and "a = a0 + of_nat (length ps) * PGSIZE" "unat xperm < 2 ^ 10" "m \<le> n"
    and "unat newsz \<le> unat a0 + (length ps + m) * 4096" "0 < m \<longrightarrow> unat a0 + (length ps + m - 1) * 4096 < unat newsz"
    and "\<forall>va. unat a \<le> unat va \<and> unat va < unat a + m * 4096 \<longrightarrow> xlate (phys s) 2 pt va = 0"
  shows "\<exists>r t. uvmalloc_loop n pt a a0 newsz xperm s = Ok (r, t) \<and>
    (r = newsz \<and> grows s t pt a0 ps fs m \<or> r = 0 \<and> gives_up s t pt a0 ps fs)"
  using assms
proof (induction m arbitrary: n a s ps fs)
  case 0
  have "unat a = unat a0 + length ps * 4096" unfolding "0.prems"(4) by (rule unat_pages) (use "0.prems"(3) in simp)
  with "0.prems"(7) have "\<not> a < newsz" by (simp add: word_less_nat_alt)
  with grows_0 [OF "0.prems"(1)] show ?case by (subst uvmalloc_loop.simps) simp
next
  case (Suc m n a s ps fs)
  note prems = Suc.prems
  have ua: "unat a = unat a0 + length ps * 4096" unfolding prems(4) by (rule unat_pages) (use prems(3) in simp)
  have lt: "a < newsz" using prems(8) ua by (simp add: word_less_nat_alt)
  obtain n' where n: "n = Suc n'" using prems(6) by (cases n) auto
  obtain c where c: "unat a = 4096 * c" using prems(2) ua by (metis aligned_dvd dvd_add dvd_def dvd_triv_right)
  have nv: "\<forall>va. unat va div 4096 = unat a div 4096 \<longrightarrow> xlate (phys s) 2 pt va = 0"
  proof (intro allI impI)
    fix va :: u64 assume "unat va div 4096 = unat a div 4096"
    then have "unat va div 4096 = c" using c by simp
    then have "4096 * c \<le> unat va" "unat va < 4096 * c + 4096" by auto
    then show "xlate (phys s) 2 pt va = 0" using prems(9) c by simp
  qed
  show ?case
  proof (cases fs)
    case Nil
    show ?thesis
    proof (rule alloc_none [OF prems(1) [unfolded Nil] prems(2)])
      fix t r w assume "kalloc s = Ok (0, t)" "uvmdealloc pt (a0 + of_nat (length ps) * PGSIZE) a0 t = Ok (r, w)"
        "gives_up s w pt a0 ps []"
      with lt n Nil prems(4) show ?thesis by (subst uvmalloc_loop.simps) simp
    qed (use prems(3) in simp)
  next
    case (Cons p fs1)
    have b: "unat a0 + Suc (length ps) * 4096 \<le> 2 ^ 38" using prems(3) by simp
    show ?thesis
    proof (rule grow_one [OF prems(1) [unfolded Cons] prems(2) b prems(4) nv prems(5)])
      fix t u new fs' assume st: "kalloc s = Ok (p, t)" "p \<noteq> 0"
        "mappages pt a PGSIZE p (PTE_R OR PTE_U OR xperm) (t\<lparr>phys := memset (phys t) p 0 PGSIZE\<rparr>) = Ok (0, u)"
        and u: "fs1 = new @ fs'" "space u pt a0 (ps @ [p]) fs'" "mem_step s u"
          "mset (pt_pages (phys u) 2 pt) = mset (pt_pages (phys s) 2 pt) + mset new"
          "\<And>x. in_rng p 4096 x \<Longrightarrow> phys u x = 0"
          "\<And>va. va < MAXVA \<Longrightarrow> unat va div 4096 \<noteq> unat a div 4096 \<Longrightarrow> xlate (phys u) 2 pt va = xlate (phys s) 2 pt va"
          "\<And>x. \<forall>q\<in>set (pt_pages (phys s) 2 pt @ p # new). \<not> in_rng q 4096 x \<Longrightarrow> phys u x = phys s x"
      have ua': "unat (a + PGSIZE) = unat a + 4096" using prems(3) ua by (intro unat_add_PGSIZE) simp
      have "\<exists>r w. uvmalloc_loop n' pt (a + PGSIZE) a0 newsz xperm u = Ok (r, w) \<and>
        (r = newsz \<and> grows u w pt a0 (ps @ [p]) fs' m \<or> r = 0 \<and> gives_up u w pt a0 (ps @ [p]) fs')"
      proof (rule Suc.IH [OF u(2) prems(2)])
        show "\<forall>va. unat (a + PGSIZE) \<le> unat va \<and> unat va < unat (a + PGSIZE) + m * 4096 \<longrightarrow> xlate (phys u) 2 pt va = 0"
        proof (intro allI impI)
          fix va :: u64 assume va: "unat (a + PGSIZE) \<le> unat va \<and> unat va < unat (a + PGSIZE) + m * 4096"
          then have "va < MAXVA" using prems(3) ua ua' by (simp add: word_less_nat_alt unat_MAXVA)
          moreover have "unat va div 4096 \<noteq> unat a div 4096"
            using va ua' div_le_mono [of "unat a + 4096" "unat va" 4096] by simp
          ultimately show "xlate (phys u) 2 pt va = 0" using u(6) prems(9) va ua' by simp
        qed
      qed (use prems n in \<open>auto simp: algebra_simps\<close>)
      then obtain r w where w: "uvmalloc_loop n' pt (a + PGSIZE) a0 newsz xperm u = Ok (r, w)"
        "r = newsz \<and> grows u w pt a0 (ps @ [p]) fs' m \<or> r = 0 \<and> gives_up u w pt a0 (ps @ [p]) fs'" by blast
      then have "r = newsz \<and> grows s w pt a0 ps fs (Suc m) \<or> r = 0 \<and> gives_up s w pt a0 ps fs"
        using grows_Suc [OF u(1,3,4,5,6,7) prems(2) ua u(2)] gives_up_Suc [OF u(1,3,4,6,7) prems(2) ua nv] Cons by blast
      moreover have "uvmalloc_loop n pt a a0 newsz xperm s = Ok (r, w)"
        using lt n st w(1) by (subst uvmalloc_loop.simps) simp
      ultimately show ?thesis by blast
    next
      fix t u v r w assume "kalloc s = Ok (p, t)" "p \<noteq> 0"
        "mappages pt a PGSIZE p (PTE_R OR PTE_U OR xperm) (t\<lparr>phys := memset (phys t) p 0 PGSIZE\<rparr>) = Ok (-1, u)"
        "kfree p u = Ok v" "uvmdealloc pt a a0 v = Ok (r, w)" "gives_up s w pt a0 ps (p # fs1)"
      with lt n Cons show ?thesis by (subst uvmalloc_loop.simps) simp
    qed
  qed
qed

section \<open>Properties\<close>

text \<open>
  C13: \<open>mappages\<close> on an unmapped range never panics or hangs. It maps each page of the range to the
  corresponding physical page with the given permissions and returns 0; or it runs out of memory, returns
  -1 and has mapped a prefix. In both cases every other translation is unchanged, and the pages it
  allocated became part of the page table.
\<close>

theorem mappages_maps:
  assumes ok: "tree_ok s 2 pt fs" and va: "aligned 4096 va" "0 < n" "unat va + n * 4096 \<le> 2 ^ 38"
    and free: "\<forall>a. unat va \<le> unat a \<and> unat a < unat va + n * 4096 \<longrightarrow> \<not> valid (xlate (phys s) 2 pt a)"
  shows "\<exists>r t k new fs'. mappages pt va (of_nat n * PGSIZE) pa perm s = Ok (r, t) \<and> fs = new @ fs' \<and>
    tree_ok t 2 pt fs' \<and> mset (pt_pages (phys t) 2 pt) = mset (pt_pages (phys s) 2 pt) + mset new \<and>
    (r = 0 \<and> k = n \<or> r = -1 \<and> k < n \<and> fs' = []) \<and>
    (\<forall>a. a < MAXVA \<longrightarrow> xlate (phys t) 2 pt a =
      (if unat va \<le> unat a \<and> unat a < unat va + k * 4096
       then PA2PTE (pa + (PGROUNDDOWN a - va)) OR perm OR PTE_V else xlate (phys s) 2 pt a))"
proof -
  obtain m where n: "n = Suc m" using va(2) by (cases n) auto
  have u: "unat (of_nat n * PGSIZE :: u64) = n * 4096" using unat_pages [of 0 n] va(3) by simp
  then have sz: "of_nat n * PGSIZE \<noteq> (0 :: u64)" "(of_nat n * PGSIZE :: u64) mod PGSIZE = 0"
    "unat ((of_nat n * PGSIZE :: u64) div PGSIZE) = n"
    using va(2) by (auto simp: word_unat_eq_iff unat_mod_distrib unat_div_distrib simp del: mod_eq_0_iff_dvd)
  have l: "va + of_nat n * PGSIZE - PGSIZE = va + of_nat m * PGSIZE" by (simp add: n algebra_simps)
  have va0: "va mod PGSIZE = 0" using va(1) by (simp only: page_ok_mod)
  have eq: "mappages pt va (of_nat n * PGSIZE) pa perm s = mappages_loop n pt va (va + of_nat n * PGSIZE - PGSIZE) pa perm s"
    by (simp only: mappages_def va0 sz simp_thms if_False)
  have "\<exists>r t k new fs'. mappages_loop (Suc m) pt va (va + of_nat n * PGSIZE - PGSIZE) pa perm s = Ok (r, t) \<and> fs = new @ fs' \<and>
      remapped s t pt (with_pages (xlate (phys s) 2 pt) va k pa perm) new fs' \<and> (r = 0 \<and> k = Suc m \<or> r = -1 \<and> k \<le> m \<and> fs' = [])"
    by (rule mappages_loop_spec [OF ok va(1) _ l]) (use va free n in auto)
  then obtain r t k new fs' where m0: "mappages_loop (Suc m) pt va (va + of_nat n * PGSIZE - PGSIZE) pa perm s = Ok (r, t)"
      "fs = new @ fs'" "remapped s t pt (with_pages (xlate (phys s) 2 pt) va k pa perm) new fs'"
      "r = 0 \<and> k = Suc m \<or> r = -1 \<and> k \<le> m \<and> fs' = []" by blast
  then have m: "mappages pt va (of_nat n * PGSIZE) pa perm s = Ok (r, t)" "fs = new @ fs'"
      "remapped s t pt (with_pages (xlate (phys s) 2 pt) va k pa perm) new fs'" "r = 0 \<and> k = n \<or> r = -1 \<and> k < n \<and> fs' = []"
    using eq by (simp_all add: n less_Suc_eq_le)
  then have "tree_ok t 2 pt fs'" using ok by (auto simp: remapped_def intro: extended_tree_ok)
  with m show ?thesis by (intro exI [of _ r] exI [of _ t] exI [of _ k] exI [of _ new] exI [of _ fs'])
      (auto simp: remapped_def extended_def with_pages_def)
qed

lemma one_page_tree: "space one_page 0x87ffe000 0 [] [0x87fff000]"
proof -
  have z: "pt_pages (phys one_page) 2 0x87ffe000 = [0x87ffe000]" by (rule zero_page) (simp add: one_page_def)
  have "page_ok one_page 0x87ffe000" by (simp add: one_page_def page_ok_def aligned_def PHYSTOP_def KERNBASE_def)
  then show ?thesis using one_page_inv by (simp add: space_def z)
qed

lemma one_page_xlate: "xlate (phys one_page) 2 0x87ffe000 va = 0"
  by (rule zero_page) (simp add: one_page_def)

theorem mappages_maps_witness:
  "\<exists>r t k new fs'. mappages 0x87ffe000 0x1000 (of_nat 3 * PGSIZE) 0x80022000 (PTE_R OR PTE_U) one_page = Ok (r, t) \<and>
    [0x87fff000] = new @ fs' \<and> tree_ok t 2 0x87ffe000 fs' \<and> (r = 0 \<and> k = (3 :: nat) \<or> r = -1 \<and> k < 3 \<and> fs' = [])"
proof -
  have a: "aligned 4096 (0x1000 :: u64)" "(0 :: nat) < 3" "unat (0x1000 :: u64) + 3 * 4096 \<le> 2 ^ 38" by (simp_all add: aligned_def)
  have f: "\<forall>a. unat (0x1000 :: u64) \<le> unat a \<and> unat a < unat (0x1000 :: u64) + 3 * 4096 \<longrightarrow>
      \<not> valid (xlate (phys one_page) 2 0x87ffe000 a)" by (simp add: one_page_xlate valid_def)
  from mappages_maps [OF space_tree_ok [OF one_page_tree] a f, of "0x80022000" "PTE_R OR PTE_U"]
  show ?thesis by (elim exE conjE) (intro exI conjI)
qed

text \<open>
  C12: \<open>uvmalloc\<close> is all or nothing. It returns without a panic; either it returns the new size, every
  page between the old and the new size is mapped to a page of its own that is filled with zeros, and no
  other memory or translation changed (\<open>grows\<close>); or it returns 0, every page it had allocated for the
  process is back on the free list and every translation is as before (\<open>gives_up\<close>). Page-table pages that
  were added on the way stay part of the table, so no page is lost.
\<close>

theorem uvmalloc_all_or_nothing:
  assumes sp: "space s pt (PGROUNDUP oldsz) [] fs" and sz: "oldsz \<le> newsz" "newsz \<le> MAXVA" and xp: "unat xperm < 2 ^ 10"
    and free: "\<forall>va. PGROUNDUP oldsz \<le> va \<and> va < PGROUNDUP newsz \<longrightarrow> xlate (phys s) 2 pt va = 0"
  shows "\<exists>r t. uvmalloc pt oldsz newsz xperm s = Ok (r, t) \<and>
    (r = newsz \<and> grows s t pt (PGROUNDUP oldsz) [] fs (unat (PGROUNDUP newsz - PGROUNDUP oldsz) div 4096) \<or>
     r = 0 \<and> gives_up s t pt (PGROUNDUP oldsz) [] fs)"
proof -
  define c0 where "c0 = (unat oldsz + 4095) div 4096"
  define c1 where "c1 = (unat newsz + 4095) div 4096"
  have le: "unat oldsz \<le> unat newsz" "unat newsz \<le> 2 ^ 38" using sz by (simp_all add: word_le_nat_alt unat_MAXVA)
  have u: "unat (PGROUNDUP oldsz) = c0 * 4096" "unat (PGROUNDUP newsz) = c1 * 4096"
    unfolding c0_def c1_def by (rule unat_PGROUNDUP; use le in simp)+
  have c: "c0 \<le> c1" unfolding c0_def c1_def using le by (intro div_le_mono) simp
  have "c1 < Suc (2 ^ 26)" unfolding c1_def by (rule less_mult_imp_div_less) (use le in simp)
  then have c2: "c1 * 4096 \<le> 2 ^ 38" by simp
  have b: "unat newsz \<le> c1 * 4096" "c1 * 4096 < unat newsz + 4096" unfolding c1_def
    using div_mult_mod_eq [of "unat newsz + 4095" 4096] mod_less_divisor [of 4096 "unat newsz + 4095"] by linarith+
  have m: "unat (PGROUNDUP newsz - PGROUNDUP oldsz) div 4096 = c1 - c0"
    using c u by (simp add: unat_diff_le word_le_nat_alt diff_mult_distrib [symmetric])
  have fuel: "c1 \<le> Suc (unat newsz div 4096)" unfolding c1_def by simp
  have "\<exists>r t. uvmalloc_loop (Suc (unat newsz div 4096)) pt (PGROUNDUP oldsz) (PGROUNDUP oldsz) newsz xperm s = Ok (r, t) \<and>
    (r = newsz \<and> grows s t pt (PGROUNDUP oldsz) [] fs (c1 - c0) \<or> r = 0 \<and> gives_up s t pt (PGROUNDUP oldsz) [] fs)"
  proof (rule uvmalloc_loop_spec [OF sp PGROUNDUP_aligned _ _ xp])
    show "\<forall>va. unat (PGROUNDUP oldsz) \<le> unat va \<and> unat va < unat (PGROUNDUP oldsz) + (c1 - c0) * 4096 \<longrightarrow>
        xlate (phys s) 2 pt va = 0"
      using free c u by (auto simp: word_le_nat_alt word_less_nat_alt diff_mult_distrib)
    show "0 < c1 - c0 \<longrightarrow> unat (PGROUNDUP oldsz) + (length [] + (c1 - c0) - 1) * 4096 < unat newsz"
      using b(2) c u by (auto simp: diff_mult_distrib)
  qed (use c c2 u b fuel in \<open>auto simp: diff_mult_distrib\<close>)
  then show ?thesis using sz(1) by (auto simp: uvmalloc_def Let_def m linorder_not_less [symmetric])
qed

theorem uvmalloc_all_or_nothing_witness:
  "\<exists>r t. uvmalloc 0x87ffe000 0 0x2345 PTE_W one_page = Ok (r, t) \<and>
     (r = 0x2345 \<and> grows one_page t 0x87ffe000 0 [] [0x87fff000] 3 \<or> r = 0 \<and> gives_up one_page t 0x87ffe000 0 [] [0x87fff000])"
proof -
  have z: "PGROUNDUP 0 = 0" "PGROUNDUP 0x2345 = 0x3000" by (simp_all add: PGROUNDUP_def)
  have "space one_page 0x87ffe000 (PGROUNDUP 0) [] [0x87fff000]" using one_page_tree by (simp only: z)
  moreover have "(0 :: u64) \<le> 0x2345" "(0x2345 :: u64) \<le> MAXVA" "unat PTE_W < 2 ^ 10" by (simp_all add: MAXVA_def)
  moreover have "\<forall>va. PGROUNDUP 0 \<le> va \<and> va < PGROUNDUP 0x2345 \<longrightarrow> xlate (phys one_page) 2 0x87ffe000 va = 0"
    by (simp add: one_page_xlate)
  ultimately have "\<exists>r t. uvmalloc 0x87ffe000 0 0x2345 PTE_W one_page = Ok (r, t) \<and>
    (r = 0x2345 \<and> grows one_page t 0x87ffe000 (PGROUNDUP 0) [] [0x87fff000] (unat (PGROUNDUP 0x2345 - PGROUNDUP 0) div 4096) \<or>
     r = 0 \<and> gives_up one_page t 0x87ffe000 (PGROUNDUP 0) [] [0x87fff000])" by (rule uvmalloc_all_or_nothing)
  moreover have "unat (PGROUNDUP 0x2345 - PGROUNDUP 0) div 4096 = 3" by (simp add: z)
  ultimately show ?thesis by (simp only: z)
qed

end
