(* ===== verification/Ucopy.thy ===== *)
theory Ucopy
  imports Uvm
begin

text \<open>
  copyin, copyinstr and copyout of kernel/vm.c against the memory a process sees through its page table.
\<close>

section \<open>What the kernel sees of user memory\<close>

text \<open>
  The byte a process sees at \<open>va\<close>, and whether the kernel lets it be read (written) for the process. \<open>walkaddr\<close>
  looks at PTE_V and PTE_U alone: the kernel gives PTE_R to every page that it maps for a process.
\<close>

definition ubyte :: "'a kmem_st_scheme \<Rightarrow> addr \<Rightarrow> u64 \<Rightarrow> u8" where
  "ubyte s pt va = phys s (PTE2PA (xlate (phys s) 2 pt va) + (va - PGROUNDDOWN va))"

definition ureadable :: "'a kmem_st_scheme \<Rightarrow> addr \<Rightarrow> u64 \<Rightarrow> bool" where
  "ureadable s pt va \<longleftrightarrow> va < MAXVA \<and> (let e = xlate (phys s) 2 pt va
     in valid e \<and> e AND PTE_U \<noteq> 0 \<and> PTE2PA e \<noteq> 0)"

lemma xlate_page: "va < MAXVA \<Longrightarrow> va' < MAXVA \<Longrightarrow> unat va div 4096 = unat va' div 4096 \<Longrightarrow>
   xlate m 2 pt va = xlate m 2 pt va'"
proof -
  assume "va < MAXVA" "va' < MAXVA" "unat va div 4096 = unat va' div 4096"
  then have "same_page 2 va va'" by (simp add: same_page_iff)
  then have "\<forall>k\<le>2. idx k va = idx k va'" by (simp add: same_page_def)
  then have "xlate m l pt va = xlate m l pt va'" if "l \<le> 2" for l
    using that by (induction l arbitrary: pt) (auto simp: Let_def)
  then show ?thesis by simp
qed

lemma div_PGROUNDDOWN: "unat (PGROUNDDOWN va) div 4096 = unat va div 4096"
  by (simp add: unat_PGROUNDDOWN)

lemma PGROUNDDOWN_MAXVA: "PGROUNDDOWN va < MAXVA \<longleftrightarrow> va < MAXVA"
proof -
  have "unat va div 4096 * 4096 < 2 ^ 38 \<longleftrightarrow> unat va < 2 ^ 38"
  proof
    assume "unat va div 4096 * 4096 < 2 ^ 38"
    then have "unat va div 4096 < 2 ^ 26" by simp
    then show "unat va < 2 ^ 38" by (simp add: div_less_iff_less_mult)
  next
    assume "unat va < 2 ^ 38"
    then show "unat va div 4096 * 4096 < 2 ^ 38" by (meson div_times_less_eq_dividend le_less_trans)
  qed
  then show ?thesis by (simp add: word_less_nat_alt unat_PGROUNDDOWN unat_MAXVA)
qed

lemma walkaddr_eq:
  assumes ok: "tree_ok s 2 pt fs"
  shows "walkaddr pt (PGROUNDDOWN va) s =
    Ok (if ureadable s pt va then PTE2PA (xlate (phys s) 2 pt va) else 0, s)"
proof (cases "va < MAXVA")
  case True
  then have lt: "PGROUNDDOWN va < MAXVA" by (simp add: PGROUNDDOWN_MAXVA)
  have eq: "xlate (phys s) 2 pt (PGROUNDDOWN va) = xlate (phys s) 2 pt va"
    by (rule xlate_page) (simp_all add: lt True div_PGROUNDDOWN)
  show ?thesis
  proof (cases "leaf_slot (phys s) 2 pt (PGROUNDDOWN va)")
    case None
    then have "xlate (phys s) 2 pt va = 0" using leaf_slot_None eq by metis
    then show ?thesis using None walk_lookup [OF lt, of pt s] lt
      by (simp add: walkaddr_def ureadable_def valid_def linorder_not_le [symmetric])
  next
    case (Some r)
    then have "load64 (phys s) r = xlate (phys s) 2 pt va" using leaf_slot_load eq by metis
    then show ?thesis using Some leaf_slot_nonzero [OF ok Some] walk_lookup [OF lt, of pt s] lt True
      by (auto simp: walkaddr_def ureadable_def valid_def Let_def linorder_not_le [symmetric])
  qed
next
  case False
  then have "MAXVA \<le> PGROUNDDOWN va" using PGROUNDDOWN_MAXVA [of va] by simp
  with False show ?thesis by (simp add: walkaddr_def ureadable_def)
qed

text \<open>Offsets inside a page.\<close>

lemma page_split:
  assumes "i < 4096 - unat (va - PGROUNDDOWN va)"
  shows "unat (va + of_nat i) = unat va + i" "PGROUNDDOWN (va + of_nat i) = PGROUNDDOWN va"
    "unat (va + of_nat i) div 4096 = unat va div 4096"
proof -
  have i: "unat va mod 4096 + i < 4096" using assms by (simp add: page_offset)
  have "unat va div 4096 < 0x10000000000000"
    using unsigned_less [where w = va and ?'a = nat] by (simp add: div_less_iff_less_mult)
  then have "unat va + i < 0x10000000000000000" using i div_mult_mod_eq [of "unat va" 4096] by linarith
  then show u: "unat (va + of_nat i) = unat va + i" using unat_add_of_nat [of va i] by simp
  have "4096 * (unat va div 4096) \<le> unat va + i" "unat va + i < 4096 * (unat va div 4096) + 4096"
    using i div_mult_mod_eq [of "unat va" 4096] by linarith+
  then have "(unat va + i) div 4096 = unat va div 4096" by (intro div_nat_eqI) simp_all
  then show "unat (va + of_nat i) div 4096 = unat va div 4096" "PGROUNDDOWN (va + of_nat i) = PGROUNDDOWN va"
    by (simp_all add: word_unat_eq_iff unat_PGROUNDDOWN u)
qed

lemma ureadable_page:
  assumes "i < 4096 - unat (va - PGROUNDDOWN va)"
  shows "ureadable s pt (va + of_nat i) = ureadable s pt va"
proof -
  have "va + of_nat i < MAXVA \<longleftrightarrow> va < MAXVA"
    using PGROUNDDOWN_MAXVA [of "va + of_nat i"] PGROUNDDOWN_MAXVA [of va] page_split(2) [OF assms] by simp
  moreover have "xlate (phys s) 2 pt (va + of_nat i) = xlate (phys s) 2 pt va" if "va < MAXVA" "va + of_nat i < MAXVA"
    by (rule xlate_page) (use that page_split(3) [OF assms] in simp_all)
  ultimately show ?thesis by (auto simp: ureadable_def)
qed

lemma ubyte_page:
  assumes "i < 4096 - unat (va - PGROUNDDOWN va)" "ureadable s pt va"
  shows "ubyte s pt (va + of_nat i) = phys s (PTE2PA (xlate (phys s) 2 pt va) + (va - PGROUNDDOWN va) + of_nat i)"
proof -
  have "va < MAXVA" "va + of_nat i < MAXVA"
    using assms ureadable_page [OF assms(1), of s pt] by (auto simp: ureadable_def)
  then have "xlate (phys s) 2 pt (va + of_nat i) = xlate (phys s) 2 pt va"
    using page_split(3) [OF assms(1)] by (intro xlate_page) simp_all
  then show ?thesis by (simp add: ubyte_def page_split(2) [OF assms(1)] algebra_simps)
qed

section \<open>copyin\<close>

lemma rd_nth: "i < n \<Longrightarrow> rd m a n ! i = m (a + of_nat i)"
  by (simp add: rd_def ptr_def)

lemma next_page: "PGROUNDDOWN va + PGSIZE = va + of_nat (4096 - unat (va - PGROUNDDOWN va))"
proof -
  let ?d = "va - PGROUNDDOWN va"
  have "unat ?d < 4096" by (simp add: page_offset)
  then have "of_nat (4096 - unat ?d) = (PGSIZE - ?d :: u64)" by (simp add: of_nat_diff)
  then show ?thesis by simp
qed

lemma page_rest: "0 < 4096 - unat (va - PGROUNDDOWN va)" "unat (va - PGROUNDDOWN va) < 4096"
  by (simp_all add: page_offset)

definition chunk :: "u64 \<Rightarrow> nat \<Rightarrow> nat" where
  "chunk va len = (if len < 4096 - unat (va - PGROUNDDOWN va) then len else 4096 - unat (va - PGROUNDDOWN va))"

lemma chunk_bounds: "0 < len \<Longrightarrow> 0 < chunk va len" "chunk va len \<le> len"
  "i < chunk va len \<Longrightarrow> i < 4096 - unat (va - PGROUNDDOWN va)"
  using page_rest(1) [of va] by (auto simp: chunk_def split: if_splits)

definition ubytes :: "'a kmem_st_scheme \<Rightarrow> addr \<Rightarrow> u64 \<Rightarrow> nat \<Rightarrow> bytes" where
  "ubytes s pt va n = map (\<lambda>i. ubyte s pt (va + of_nat i)) [0..<n]"

lemma ubytes_add: "ubytes s pt va (m + n) = ubytes s pt va m @ ubytes s pt (va + of_nat m) n"
  by (induction n) (simp_all add: ubytes_def add.assoc)

lemma rd_ubytes:
  assumes "ureadable s pt va"
  shows "rd (phys s) (PTE2PA (xlate (phys s) 2 pt va) + (va - PGROUNDDOWN va)) (chunk va len) = ubytes s pt va (chunk va len)"
  by (rule nth_equalityI) (auto simp: ubytes_def rd_nth ubyte_page [OF chunk_bounds(3) assms])

lemma copyin_0 [simp]: "copyin pt va 0 s = Ok ((0, []), s)"
  by (subst copyin.simps) simp

lemma copyin_unfold:
  assumes "tree_ok s 2 pt fs" "0 < len"
  shows "copyin pt va len s =
    (if ureadable s pt va
     then bnd (copyin pt (va + of_nat (chunk va len)) (len - chunk va len) s) (\<lambda>((r, rest), s').
       Ok ((r, ubytes s pt va (chunk va len) @ rest), s'))
     else Ok ((-1, []), s))"
proof -
  have pa: "ureadable s pt va \<Longrightarrow> PTE2PA (xlate (phys s) 2 pt va) \<noteq> 0" by (simp add: ureadable_def Let_def)
  have nxt: "copyin pt (PGROUNDDOWN va + PGSIZE) (len - chunk va len) s =
      copyin pt (va + of_nat (chunk va len)) (len - chunk va len) s"
    by (cases "len < 4096 - unat (va - PGROUNDDOWN va)") (simp_all add: chunk_def next_page)
  show ?thesis
  proof (cases "ureadable s pt va")
    case True
    then have "copyin pt va len s = bnd (copyin pt (PGROUNDDOWN va + PGSIZE) (len - chunk va len) s) (\<lambda>((r, rest), s').
       Ok ((r, ubytes s pt va (chunk va len) @ rest), s'))"
      using assms(2) pa by (subst copyin.simps)
        (simp only: walkaddr_eq [OF assms(1)] Let_def bnd.simps prod.case chunk_def [symmetric] rd_ubytes if_True if_False
          not_gr_zero less_numeral_extra(3) simp_thms neq0_conv [symmetric])
    then show ?thesis using True nxt by simp
  next
    case False
    then show ?thesis using assms(2) by (subst copyin.simps) (simp add: walkaddr_eq [OF assms(1)])
  qed
qed

lemma copyin_readable:
  assumes ok: "tree_ok s 2 pt fs" and all: "\<forall>i<len. ureadable s pt (va + of_nat i)"
  shows "copyin pt va len s = Ok ((0, ubytes s pt va len), s)"
  using all
proof (induction len arbitrary: va rule: less_induct)
  case (less len)
  show ?case
  proof (cases "len = 0")
    case True
    then show ?thesis by (simp add: ubytes_def)
  next
    case False
    let ?n = "chunk va len"
    have n: "0 < ?n" "?n \<le> len" using False chunk_bounds(1,2) by auto
    have rest: "copyin pt (va + of_nat ?n) (len - ?n) s = Ok ((0, ubytes s pt (va + of_nat ?n) (len - ?n)), s)"
    proof (rule less.IH)
      show "\<forall>i<len - ?n. ureadable s pt (va + of_nat ?n + of_nat i)"
      proof (intro allI impI)
        fix i assume "i < len - ?n"
        then have "?n + i < len" by simp
        with less.prems have "ureadable s pt (va + of_nat (?n + i))" by blast
        then show "ureadable s pt (va + of_nat ?n + of_nat i)" by (simp only: of_nat_add add.assoc)
      qed
    qed (use n in simp)
    have "ureadable s pt (va + of_nat 0)" using less.prems False by blast
    then have "copyin pt va len s = Ok ((0, ubytes s pt va ?n @ ubytes s pt (va + of_nat ?n) (len - ?n)), s)"
      using copyin_unfold [OF ok, of len va] False rest by simp
    then show ?thesis using ubytes_add [of s pt va ?n "len - ?n"] n by simp
  qed
qed

lemma copyin_unreadable:
  assumes ok: "tree_ok s 2 pt fs" and bad: "k < len" "\<not> ureadable s pt (va + of_nat k)"
  shows "\<exists>bs. copyin pt va len s = Ok ((-1, bs), s)"
  using bad
proof (induction len arbitrary: va k rule: less_induct)
  case (less len)
  let ?n = "chunk va len"
  have n: "0 < ?n" "?n \<le> len" using less.prems chunk_bounds(1,2) by auto
  show ?case
  proof (cases "ureadable s pt va")
    case True
    have k: "?n \<le> k"
    proof (rule ccontr)
      assume "\<not> ?n \<le> k"
      then have "k < 4096 - unat (va - PGROUNDDOWN va)" by (intro chunk_bounds(3) [of k va len]) simp
      from ureadable_page [OF this] True less.prems(2) show False by blast
    qed
    then have "va + of_nat k = va + of_nat ?n + of_nat (k - ?n)" by (simp add: of_nat_diff)
    then have "\<exists>bs. copyin pt (va + of_nat ?n) (len - ?n) s = Ok ((-1, bs), s)"
      using less.prems k n by (intro less.IH [of _ "k - ?n"]) simp_all
    with copyin_unfold [OF ok, of len va] True less.prems(1) show ?thesis by auto
  next
    case False
    then show ?thesis using copyin_unfold [OF ok, of len va] less.prems(1) by auto
  qed
qed

section \<open>copyout\<close>

definition uwritable :: "'a kmem_st_scheme \<Rightarrow> addr \<Rightarrow> u64 \<Rightarrow> bool" where
  "uwritable s pt va \<longleftrightarrow> va < MAXVA \<and> (let e = xlate (phys s) 2 pt va
     in valid e \<and> e AND PTE_U \<noteq> 0 \<and> e AND PTE_W \<noteq> 0)"

lemma copyout_Nil [simp]: "copyout pt va [] s = Ok (0, s)"
  by (subst copyout.simps) simp

lemma copyout_unfold:
  assumes ok: "tree_ok s 2 pt fs" and ne: "bs \<noteq> []"
  shows "copyout pt va bs s =
    (if uwritable s pt va
     then copyout pt (va + of_nat (chunk va (length bs))) (drop (chunk va (length bs)) bs)
       (s\<lparr>phys := wr (phys s) (PTE2PA (xlate (phys s) 2 pt va) + (va - PGROUNDDOWN va)) (take (chunk va (length bs)) bs)\<rparr>)
     else Ok (-1, s))"
proof (cases "va < MAXVA")
  case False
  then have "MAXVA \<le> PGROUNDDOWN va" using PGROUNDDOWN_MAXVA [of va] by simp
  with False ne show ?thesis by (subst copyout.simps) (simp add: uwritable_def)
next
  case True
  then have lt: "PGROUNDDOWN va < MAXVA" by (simp add: PGROUNDDOWN_MAXVA)
  have eq: "xlate (phys s) 2 pt (PGROUNDDOWN va) = xlate (phys s) 2 pt va"
    by (rule xlate_page) (simp_all add: lt True div_PGROUNDDOWN)
  show ?thesis
  proof (cases "leaf_slot (phys s) 2 pt (PGROUNDDOWN va)")
    case None
    then have "xlate (phys s) 2 pt va = 0" using leaf_slot_None eq by metis
    then show ?thesis using None walk_lookup [OF lt, of pt s] lt ne
      by (subst copyout.simps) (simp add: uwritable_def valid_def linorder_not_le [symmetric])
  next
    case (Some r)
    then have ld: "load64 (phys s) r = xlate (phys s) 2 pt va" using leaf_slot_load eq by metis
    have w: "walk pt (PGROUNDDOWN va) False s = Ok (r, s)" using Some walk_lookup [OF lt, of pt s] by simp
    have nz: "r \<noteq> 0" using leaf_slot_nonzero [OF ok Some] .
    have nxt: "copyout pt (PGROUNDDOWN va + PGSIZE) (drop (chunk va (length bs)) bs) u =
        copyout pt (va + of_nat (chunk va (length bs))) (drop (chunk va (length bs)) bs) u" for u :: "'a kmem_st_scheme"
      by (cases "length bs < 4096 - unat (va - PGROUNDDOWN va)") (simp_all add: chunk_def next_page)
    show ?thesis
    proof (cases "uwritable s pt va")
      case True
      then have v: "xlate (phys s) 2 pt va AND PTE_V \<noteq> 0" "xlate (phys s) 2 pt va AND PTE_U \<noteq> 0"
        "xlate (phys s) 2 pt va AND PTE_W \<noteq> 0" by (simp_all add: uwritable_def valid_def Let_def)
      have "copyout pt va bs s = copyout pt (PGROUNDDOWN va + PGSIZE) (drop (chunk va (length bs)) bs)
          (s\<lparr>phys := wr (phys s) (PTE2PA (xlate (phys s) 2 pt va) + (va - PGROUNDDOWN va)) (take (chunk va (length bs)) bs)\<rparr>)"
        using ne nz v lt [unfolded linorder_not_le [symmetric]]
        by (subst copyout.simps) (simp only: w Let_def bnd.simps prod.case ld chunk_def [symmetric] length_0_conv
            if_False simp_thms)
      then show ?thesis using True nxt by simp
    next
      case False
      then show ?thesis using ne lt w ld True
        by (subst copyout.simps) (auto simp: uwritable_def valid_def Let_def linorder_not_le [symmetric])
    qed
  qed
qed

lemma owned_nth:
  "owned s pt a ps \<Longrightarrow> k < length ps \<Longrightarrow>
   (let e = xlate (phys s) 2 pt (a + of_nat k * PGSIZE) in valid e \<and> PTE2PA e = ps ! k \<and> page_ok s (ps ! k))"
proof (induction ps arbitrary: a k)
  case (Cons p ps)
  show ?case
  proof (cases k)
    case 0
    with Cons.prems show ?thesis by (simp add: Let_def)
  next
    case (Suc j)
    have "a + PGSIZE + of_nat j * PGSIZE = a + of_nat (Suc j) * PGSIZE" by (simp add: algebra_simps)
    with Cons.IH [of "a + PGSIZE" j] Cons.prems Suc show ?thesis by (simp only: owned.simps nth_Cons_Suc length_Cons)
  qed
qed simp

lemma user_page:
  assumes "space s pt 0 ps fs" "unat va < length ps * 4096" "length ps * 4096 \<le> 2 ^ 38"
  shows "va < MAXVA" "unat va div 4096 < length ps" "PTE2PA (xlate (phys s) 2 pt va) = ps ! (unat va div 4096)"
    "page_ok s (ps ! (unat va div 4096))"
proof -
  show lt: "va < MAXVA" using assms(2,3) by (simp add: word_less_nat_alt unat_MAXVA)
  show k: "unat va div 4096 < length ps" using assms(2) by (simp add: div_less_iff_less_mult)
  let ?a = "0 + of_nat (unat va div 4096) * PGSIZE :: u64"
  have u: "unat ?a = unat va div 4096 * 4096"
    using unat_pages [of 0 "unat va div 4096"] assms(2,3) k by simp
  then have "?a < MAXVA" using assms(2,3) by (simp add: word_less_nat_alt unat_MAXVA)
  then have "xlate (phys s) 2 pt ?a = xlate (phys s) 2 pt va" using lt u by (intro xlate_page) simp_all
  with owned_nth [of s pt 0 ps "unat va div 4096"] k assms(1)
  show "PTE2PA (xlate (phys s) 2 pt va) = ps ! (unat va div 4096)" "page_ok s (ps ! (unat va div 4096))"
    by (auto simp: space_def Let_def)
qed

text \<open>A write inside one user page.\<close>

lemma space_write:
  assumes sp: "space s pt a ps fs" and p: "p \<in> set ps" and a: "unat a + length ps * 4096 \<le> 2 ^ 38"
    and out: "\<And>x. \<not> in_rng p 4096 x \<Longrightarrow> m x = phys s x"
  shows "space (s\<lparr>phys := m\<rparr>) pt a ps fs" "xlate m 2 pt va = xlate (phys s) 2 pt va"
proof -
  have ok: "page_ok s p" using sp p owned_page_ok [of s pt a ps p] by (simp add: space_def)
  have d: "p \<notin> set (pt_pages (phys s) 2 pt)" "p \<notin> set fs" using sp p by (auto simp: space_def)
  have "same_on (phys s) m (set (pt_pages (phys s) 2 pt))"
    by (rule same_on_apart [where Q = "{p}"])
      (use out ok d tree_ok_apart [OF space_tree_ok [OF sp]] in \<open>auto simp: apart_def page_ok_def\<close>)
  from tree_frame [OF this] have fr: "pt_pages m 2 pt = pt_pages (phys s) 2 pt"
    "\<And>va. xlate m 2 pt va = xlate (phys s) 2 pt va" by simp_all
  show "xlate m 2 pt va = xlate (phys s) 2 pt va" by (rule fr)
  have "kmem_inv (s\<lparr>phys := m\<rparr>) fs"
    by (rule kmem_inv_elsewhere [where Q = "{p}"]) (use sp out ok d in \<open>auto simp: space_def apart_def page_ok_def\<close>)
  moreover have "owned (s\<lparr>phys := m\<rparr>) pt a ps"
    by (rule owned_same [OF _ a]) (use sp fr in \<open>auto simp: space_def\<close>)
  ultimately show "space (s\<lparr>phys := m\<rparr>) pt a ps fs"
    by (intro space_conserve [OF sp]) (use fr in simp_all)
qed

lemma ubyte_write:
  assumes sp: "space s pt 0 ps fs" and b: "length ps * 4096 \<le> 2 ^ 38"
    and va: "unat va < length ps * 4096" "unat va' < length ps * 4096"
    and n: "length bs \<le> 4096 - unat (va - PGROUNDDOWN va)"
    and m: "m = wr (phys s) (PTE2PA (xlate (phys s) 2 pt va) + (va - PGROUNDDOWN va)) bs"
  shows "ubyte (s\<lparr>phys := m\<rparr>) pt va' =
    (if unat va \<le> unat va' \<and> unat va' < unat va + length bs then bs ! (unat va' - unat va) else ubyte s pt va')"
    and "space (s\<lparr>phys := m\<rparr>) pt 0 ps fs" "xlate m 2 pt va'' = xlate (phys s) 2 pt va''"
proof -
  let ?p = "ps ! (unat va div 4096)" and ?q = "ps ! (unat va' div 4096)"
  note pg = user_page [OF sp va(1) b] and qg = user_page [OF sp va(2) b]
  let ?o = "va - PGROUNDDOWN va" and ?o' = "va' - PGROUNDDOWN va'"
  have uo: "unat ?o = unat va mod 4096" "unat ?o' = unat va' mod 4096" by (simp_all add: page_offset)
  have al: "aligned 4096 ?p" "aligned 4096 ?q" using pg(4) qg(4) by (simp_all add: page_ok_def)
  have inp: "in_rng ?p 4096 x" if x: "in_rng (?p + ?o) (length bs) x" for x
  proof -
    obtain k where k: "k < length bs" "x = ?p + ?o + of_nat k" using x by (auto simp: in_rng_iff)
    then have "x = ?p + of_nat (unat ?o + k)" by (simp add: add.assoc)
    moreover have "unat ?o + k < 4096" using k(1) n page_rest(2) [of va] by linarith
    ultimately show ?thesis by (auto simp: in_rng_iff)
  qed
  have out: "m x = phys s x" if "\<not> in_rng ?p 4096 x" for x
    using that inp [of x] unfolding m by (auto simp: wr_def pg(3))
  note sw = space_write [OF sp nth_mem [OF pg(2)] _ out]
  show "space (s\<lparr>phys := m\<rparr>) pt 0 ps fs" "xlate m 2 pt va'' = xlate (phys s) 2 pt va''" using sw b by simp_all
  have ub: "ubyte (s\<lparr>phys := m\<rparr>) pt va' = m (?q + ?o')" "ubyte s pt va' = phys s (?q + ?o')"
    using sw(2) b by (simp_all add: ubyte_def qg(3))
  have inq: "in_rng ?q 4096 (?q + ?o')" using uo(2) by (simp add: in_rng_def)
  show "ubyte (s\<lparr>phys := m\<rparr>) pt va' =
    (if unat va \<le> unat va' \<and> unat va' < unat va + length bs then bs ! (unat va' - unat va) else ubyte s pt va')"
  proof (cases "unat va div 4096 = unat va' div 4096")
    case True
    have "unat va' - unat va = unat ?o' - unat ?o" "unat va \<le> unat va' \<longleftrightarrow> unat ?o \<le> unat ?o'"
      using True uo div_mult_mod_eq [of "unat va" 4096] div_mult_mod_eq [of "unat va'" 4096] by linarith+
    moreover have "?q + ?o' - (?p + ?o) = ?o' - ?o" using True by simp
    moreover have "unat (?o' - ?o) = (if unat ?o \<le> unat ?o' then unat ?o' - unat ?o else unat ?o' + 2 ^ 64 - unat ?o)"
      by (simp add: unat_sub_if')
    moreover have "length bs \<le> 4096" "unat ?o < 4096" "unat va' < unat va + length bs \<longleftrightarrow> unat ?o' < unat ?o + length bs"
      using n page_rest(2) [of va] True uo div_mult_mod_eq [of "unat va" 4096] div_mult_mod_eq [of "unat va'" 4096] by linarith+
    ultimately show ?thesis unfolding ub unfolding m wr_def pg(3) in_rng_def by (auto simp: less_diff_conv2)
  next
    case False
    then have ne: "?p \<noteq> ?q" using sp pg(2) qg(2) by (simp add: space_def nth_eq_iff_index_eq)
    then have "\<not> in_rng ?p 4096 (?q + ?o')" using in_rng_disjoint [OF al(2,1) _ _ _ inq] by auto
    then have "ubyte (s\<lparr>phys := m\<rparr>) pt va' = ubyte s pt va'" using out ub by simp
    moreover have "\<not> (unat va \<le> unat va' \<and> unat va' < unat va + length bs)"
    proof
      assume h: "unat va \<le> unat va' \<and> unat va' < unat va + length bs"
      then have "unat va' < unat va div 4096 * 4096 + 4096" using n uo(1) div_mult_mod_eq [of "unat va" 4096]
          page_rest(2) [of va] by linarith
      then have "unat va' div 4096 \<le> unat va div 4096" by (simp add: div_less_iff_less_mult flip: less_Suc_eq_le)
      moreover have "unat va div 4096 \<le> unat va' div 4096" using h by (intro div_le_mono) simp
      ultimately show False using False by simp
    qed
    ultimately show ?thesis by (simp only: if_False)
  qed
qed

lemma copyout_writes:
  assumes "space s pt 0 ps fs" "length ps * 4096 \<le> 2 ^ 38" "unat va + length bs \<le> length ps * 4096"
    and "\<forall>i<length bs. uwritable s pt (va + of_nat i)"
  shows "\<exists>t. copyout pt va bs s = Ok (0, t) \<and> space t pt 0 ps fs \<and> mem_step s t \<and>
    (\<forall>va'. xlate (phys t) 2 pt va' = xlate (phys s) 2 pt va') \<and>
    (\<forall>va'. unat va' < length ps * 4096 \<longrightarrow> ubyte t pt va' =
      (if unat va \<le> unat va' \<and> unat va' < unat va + length bs then bs ! (unat va' - unat va) else ubyte s pt va'))"
  using assms
proof (induction "length bs" arbitrary: va bs s rule: less_induct)
  case less
  show ?case
  proof (cases "bs = []")
    case True
    with less.prems show ?thesis by auto
  next
    case False
    let ?n = "chunk va (length bs)"
    let ?m = "wr (phys s) (PTE2PA (xlate (phys s) 2 pt va) + (va - PGROUNDDOWN va)) (take ?n bs)"
    let ?s = "s\<lparr>phys := ?m\<rparr>"
    have n: "0 < ?n" "?n \<le> length bs" using False chunk_bounds(1,2) by auto
    have l: "length (take ?n bs) = ?n" using n by simp
    have va: "unat va < length ps * 4096" using less.prems(3) False by (cases bs) auto
    have cb: "length (take ?n bs) \<le> 4096 - unat (va - PGROUNDDOWN va)" by (simp add: chunk_def)
    note w = ubyte_write [OF less.prems(1,2) va _ cb refl]
    have sp: "space ?s pt 0 ps fs" using w(2) va by blast
    have x: "xlate ?m 2 pt va' = xlate (phys s) 2 pt va'" for va' using w(3) va by blast
    have un: "unat (va + of_nat ?n) = unat va + ?n"
      by (rule unat_add_of_nat) (use less.prems(2,3) n in simp)
    have "0 < length bs" using False by simp
    with less.prems(4) have "uwritable s pt (va + of_nat 0)" by blast
    then have wr0: "uwritable s pt va" by simp
    have "\<exists>t. copyout pt (va + of_nat ?n) (drop ?n bs) ?s = Ok (0, t) \<and> space t pt 0 ps fs \<and> mem_step ?s t \<and>
      (\<forall>va'. xlate (phys t) 2 pt va' = xlate (phys ?s) 2 pt va') \<and>
      (\<forall>va'. unat va' < length ps * 4096 \<longrightarrow> ubyte t pt va' =
        (if unat (va + of_nat ?n) \<le> unat va' \<and> unat va' < unat (va + of_nat ?n) + length (drop ?n bs)
         then drop ?n bs ! (unat va' - unat (va + of_nat ?n)) else ubyte ?s pt va'))"
    proof (rule less.hyps [OF _ sp less.prems(2)])
      show "\<forall>i<length (drop ?n bs). uwritable ?s pt (va + of_nat ?n + of_nat i)"
      proof (intro allI impI)
        fix i assume "i < length (drop ?n bs)"
        then have "?n + i < length bs" by simp
        then have "uwritable s pt (va + of_nat (?n + i))" using less.prems(4) by blast
        then show "uwritable ?s pt (va + of_nat ?n + of_nat i)" by (simp add: uwritable_def x add.assoc)
      qed
    qed (use n un less.prems(3) in simp_all)
    moreover have dl: "unat va + ?n + length (drop ?n bs) = unat va + length bs" using n by simp
    ultimately obtain t where t: "copyout pt (va + of_nat ?n) (drop ?n bs) ?s = Ok (0, t)" "space t pt 0 ps fs" "mem_step ?s t"
      "\<forall>va'. xlate (phys t) 2 pt va' = xlate (phys ?s) 2 pt va'"
      "\<forall>va'. unat va' < length ps * 4096 \<longrightarrow> ubyte t pt va' =
        (if unat va + ?n \<le> unat va' \<and> unat va' < unat va + length bs
         then drop ?n bs ! (unat va' - (unat va + ?n)) else ubyte ?s pt va')" unfolding un dl by blast
    have "ubyte t pt va' = (if unat va \<le> unat va' \<and> unat va' < unat va + length bs then bs ! (unat va' - unat va)
      else ubyte s pt va')" if "unat va' < length ps * 4096" for va'
      using t(5) [rule_format, OF that] w(1) [OF that] n unfolding l by (auto simp: nth_drop)
    moreover have "mem_step s t" using t(3) mem_step_trans [of s ?s t] by simp
    moreover have "copyout pt va bs s = Ok (0, t)"
      using copyout_unfold [OF space_tree_ok [OF less.prems(1)] False, of va] wr0 t(1) by simp
    ultimately show ?thesis using t(2,4) x by auto
  qed
qed

section \<open>A process of one page\<close>

text \<open>A page table of three levels that maps the page at 0, readable and writable for the user.\<close>

definition one_user_page :: kmem_st where
  "one_user_page = one_page\<lparr>freelist := 0, phys :=
     store64 (store64 (store64 (\<lambda>_. 0) (eaddr 0x87ffe000 0) (PA2PTE 0x87ffd000 OR PTE_V))
       (eaddr 0x87ffd000 0) (PA2PTE 0x87ffc000 OR PTE_V))
       (eaddr 0x87ffc000 0) (PA2PTE 0x87ffb000 OR (PTE_R OR PTE_U OR PTE_W) OR PTE_V)\<rparr>"

lemma one_user_page_entries:
  "i < 512 \<Longrightarrow> entry (phys one_user_page) 0x87ffe000 i = (if i = 0 then PA2PTE 0x87ffd000 OR PTE_V else 0)"
  "i < 512 \<Longrightarrow> entry (phys one_user_page) 0x87ffd000 i = (if i = 0 then PA2PTE 0x87ffc000 OR PTE_V else 0)"
  "i < 512 \<Longrightarrow> entry (phys one_user_page) 0x87ffc000 i =
     (if i = 0 then PA2PTE 0x87ffb000 OR (PTE_R OR PTE_U OR PTE_W) OR PTE_V else 0)"
proof -
  have z: "entry (\<lambda>_. 0) p i = 0" for p i by (simp add: entry_def)
  have o: "entry (store64 m (eaddr p 0) v) q i = entry m q i" if "aligned 4096 p" "aligned 4096 q" "p \<noteq> q" "i < 512" for m p q v i
    using that in_rng_disjoint [of 4096 q p]
    by (intro entry_cong) (auto simp: store_def dest: entry_in_page [of 0, simplified])
  have s: "entry (store64 m (eaddr p 0) v) p i = (if i = 0 then v else entry m p i)" if "i < 512" for m p v i
    using that by (cases "i = 0") (simp_all add: entry_store_other)
  have al: "aligned 4096 (0x87ffe000 :: u64)" "aligned 4096 (0x87ffd000 :: u64)" "aligned 4096 (0x87ffc000 :: u64)"
    by (simp_all add: aligned_def)
  show "entry (phys one_user_page) 0x87ffe000 i = (if i = 0 then PA2PTE 0x87ffd000 OR PTE_V else 0)" if "i < 512" for i
    using that al by (simp add: one_user_page_def one_page_def o s z)
  show "entry (phys one_user_page) 0x87ffd000 i = (if i = 0 then PA2PTE 0x87ffc000 OR PTE_V else 0)" if "i < 512" for i
    using that al by (simp add: one_user_page_def one_page_def o s z)
  show "entry (phys one_user_page) 0x87ffc000 i =
     (if i = 0 then PA2PTE 0x87ffb000 OR (PTE_R OR PTE_U OR PTE_W) OR PTE_V else 0)" if "i < 512" for i
    using that al by (simp add: one_user_page_def one_page_def o s z)
qed

lemma concat_first: "(\<And>i. 0 < i \<Longrightarrow> i < 512 \<Longrightarrow> f i = []) \<Longrightarrow> concat (map f [0..<512]) = f 0"
proof -
  assume z: "\<And>i. 0 < i \<Longrightarrow> i < 512 \<Longrightarrow> f i = []"
  have "[0..<512] = 0 # [1..<512]" by (simp add: upt_conv_Cons)
  moreover have "concat (map f [1..<512]) = []" using z by simp
  ultimately show ?thesis by (simp only: list.map concat.simps append_Nil2)
qed

lemma one_table:
  assumes "\<And>i. i < 512 \<Longrightarrow> entry m pt i = (if i = 0 then PA2PTE p OR PTE_V else 0)" "aligned 4096 p" "unat p < 2 ^ 56"
  shows "pt_pages m (Suc l) pt = pt # pt_pages m l p" "idx (Suc l) va = 0 \<Longrightarrow> xlate m (Suc l) pt va = xlate m l p va"
proof -
  have e: "entry m pt 0 = PA2PTE p OR PTE_V" using assms(1) [of 0] by simp
  have p: "PTE2PA (PA2PTE p OR PTE_V) = p" by (rule PTE2PA_make) (use assms in simp_all)
  have "concat (map (subtree m l pt) [0..<512]) = subtree m l pt 0"
    by (rule concat_first) (use assms(1) in \<open>simp add: subtree_def valid_def\<close>)
  then show "pt_pages m (Suc l) pt = pt # pt_pages m l p" by (simp add: pt_pages_Suc subtree_def e p)
  show "xlate m (Suc l) pt va = xlate m l p va" if "idx (Suc l) va = 0" using that by (simp add: e p Let_def)
qed

lemma one_user_page_valid: "valid (PA2PTE 0x87ffb000 OR 23)"
  by (simp add: valid_def PA2PTE_def)

lemma one_user_page_space:
  "space one_user_page 0x87ffe000 0 [0x87ffb000] []"
  "unat va < 4096 \<Longrightarrow> xlate (phys one_user_page) 2 0x87ffe000 va = PA2PTE 0x87ffb000 OR (PTE_R OR PTE_U OR PTE_W) OR PTE_V"
proof -
  let ?m = "phys one_user_page"
  have t: "pt_pages ?m (Suc l) 0x87ffe000 = 0x87ffe000 # pt_pages ?m l 0x87ffd000"
    "pt_pages ?m (Suc l) 0x87ffd000 = 0x87ffd000 # pt_pages ?m l 0x87ffc000" for l
    by (rule one_table; use one_user_page_entries in \<open>simp add: aligned_def\<close>)+
  have "pt_pages ?m (Suc (Suc 0)) 0x87ffe000 = [0x87ffe000, 0x87ffd000, 0x87ffc000]" by (simp only: t pt_pages.simps(1))
  then have pg: "pt_pages ?m 2 0x87ffe000 = [0x87ffe000, 0x87ffd000, 0x87ffc000]" by (simp only: numeral_2_eq_2)
  have i0: "idx k va = 0" if "unat va < 4096" for k va
    using that by (simp add: idx_eq power_add div_mult2_eq)
  have x: "xlate ?m (Suc (Suc 0)) 0x87ffe000 va = PA2PTE 0x87ffb000 OR (PTE_R OR PTE_U OR PTE_W) OR PTE_V" if "unat va < 4096" for va
  proof -
    have "xlate ?m (Suc (Suc 0)) 0x87ffe000 va = xlate ?m (Suc 0) 0x87ffd000 va"
      by (rule one_table; use one_user_page_entries i0 [OF that] in \<open>simp add: aligned_def\<close>)
    also have "\<dots> = xlate ?m 0 0x87ffc000 va"
      by (rule one_table; use one_user_page_entries i0 [OF that] in \<open>simp add: aligned_def\<close>)
    finally show ?thesis using one_user_page_entries(3) [of 0] i0 [OF that] by simp
  qed
  then show x2: "unat va < 4096 \<Longrightarrow> xlate ?m 2 0x87ffe000 va = PA2PTE 0x87ffb000 OR (PTE_R OR PTE_U OR PTE_W) OR PTE_V" for va
    by (simp only: numeral_2_eq_2)
  have ok: "page_ok one_user_page 0x87ffe000" "page_ok one_user_page 0x87ffd000" "page_ok one_user_page 0x87ffc000"
    "page_ok one_user_page 0x87ffb000"
    by (simp_all add: one_user_page_def one_page_def page_ok_def aligned_def PHYSTOP_def KERNBASE_def)
  have "kmem_inv one_user_page []"
    by (simp add: one_user_page_def one_page_def kmem_inv_def hart_ok_def mycpu_def)
  moreover have "owned one_user_page 0x87ffe000 0 [0x87ffb000]"
    using x2 [of 0] PTE_FLAGS_leaf(1) [of PTE_W "0x87ffb000"] PTE_FLAGS_leaf(2) [OF _ ok(4), of PTE_W] ok(4) one_user_page_valid by (simp add: Let_def)
  ultimately show "space one_user_page 0x87ffe000 0 [0x87ffb000] []" using ok by (simp add: space_def pg)
qed

section \<open>Properties\<close>

text \<open>
  C11: what \<open>copyout\<close> stores in a process, \<open>copyin\<close> reads back. If the destination lies in the process's
  memory and is writable, \<open>copyout\<close> returns 0; then \<open>copyin\<close> of the same range returns 0 and the same bytes,
  and the process sees no other byte change.
\<close>

theorem copyout_copyin:
  assumes sp: "space s pt 0 ps fs" "length ps * 4096 \<le> 2 ^ 38" "unat va + length bs \<le> length ps * 4096"
    and w: "\<forall>i<length bs. uwritable s pt (va + of_nat i)"
  shows "\<exists>t. copyout pt va bs s = Ok (0, t) \<and> copyin pt va (length bs) t = Ok ((0, bs), t) \<and>
    (\<forall>va'. unat va' < length ps * 4096 \<longrightarrow> \<not> (unat va \<le> unat va' \<and> unat va' < unat va + length bs) \<longrightarrow>
      ubyte t pt va' = ubyte s pt va')"
proof -
  from copyout_writes [OF sp w] obtain t where t: "copyout pt va bs s = Ok (0, t)" "space t pt 0 ps fs" "mem_step s t"
    "\<forall>va'. xlate (phys t) 2 pt va' = xlate (phys s) 2 pt va'"
    "\<forall>va'. unat va' < length ps * 4096 \<longrightarrow> ubyte t pt va' =
      (if unat va \<le> unat va' \<and> unat va' < unat va + length bs then bs ! (unat va' - unat va) else ubyte s pt va')" by blast
  have u: "unat (va + of_nat i) = unat va + i" if "i < length bs" for i
    by (rule unat_add_of_nat) (use that sp(2,3) in simp)
  have rd: "ureadable t pt (va + of_nat i)" if "i < length bs" for i
  proof -
    have lt: "unat (va + of_nat i) < length ps * 4096" using u [OF that] that sp(3) by simp
    note pg = user_page [OF t(2) lt sp(2)]
    have "PTE2PA (xlate (phys t) 2 pt (va + of_nat i)) \<noteq> 0" using pg(3,4) t(2) by (auto simp: space_def kmem_inv_def dest: page_okD)
    with w that t(4) show ?thesis by (simp add: ureadable_def uwritable_def Let_def)
  qed
  have "ubytes t pt va (length bs) = bs"
    by (rule nth_equalityI) (use t(5) u sp(3) in \<open>auto simp: ubytes_def\<close>)
  with copyin_readable [OF space_tree_ok [OF t(2)], of "length bs" va] rd have "copyin pt va (length bs) t = Ok ((0, bs), t)"
    by simp
  with t show ?thesis by auto
qed

theorem copyout_copyin_witness:
  "\<exists>t. copyout 0x87ffe000 0xffe [1, 2] one_user_page = Ok (0, t) \<and> copyin 0x87ffe000 0xffe (Suc (Suc 0)) t = Ok ((0, [1, 2]), t)"
proof -
  have "uwritable one_user_page 0x87ffe000 (0xffe + of_nat i)" if "i < 2" for i
  proof -
    have "unat (0xffe + of_nat i :: u64) < 4096" using that by (cases i) (auto simp: less_Suc_eq)
    moreover have "0xffe + of_nat i < MAXVA" using that by (cases i) (auto simp: MAXVA_def less_Suc_eq)
    moreover have "(PA2PTE 0x87ffb000 OR (PTE_R OR PTE_U OR PTE_W) OR PTE_V) AND PTE_U \<noteq> 0"
      "(PA2PTE 0x87ffb000 OR (PTE_R OR PTE_U OR PTE_W) OR PTE_V) AND PTE_W \<noteq> 0" by (simp_all add: PA2PTE_def)
    ultimately show ?thesis using one_user_page_space(2) one_user_page_valid by (simp add: uwritable_def Let_def)
  qed
  with copyout_copyin [OF one_user_page_space(1), of "0xffe" "[1, 2]"] show ?thesis by auto
qed

text \<open>
  C10: \<open>copyin\<close> checks every page it reads: it never panics, it returns 0 exactly if the process can read
  every byte of the range, with those bytes as they are, and -1 otherwise; it changes nothing.
\<close>

theorem copyin_checks:
  assumes ok: "tree_ok s 2 pt fs"
  shows "\<exists>r bs. copyin pt va len s = Ok ((r, bs), s) \<and>
    r = (if \<forall>i<len. ureadable s pt (va + of_nat i) then 0 else -1) \<and> (r = 0 \<longrightarrow> bs = ubytes s pt va len)"
  using copyin_readable [OF ok, of len va] copyin_unreadable [OF ok, of _ len va]
  by (cases "\<forall>i<len. ureadable s pt (va + of_nat i)") auto

theorem copyin_checks_witness:
  "\<exists>r bs. copyin 0x87ffe000 5 7 one_page = Ok ((r, bs), one_page) \<and> r = -1"
proof -
  have "\<not> (\<forall>i<7. ureadable one_page 0x87ffe000 (5 + of_nat i))"
    by (auto simp: ureadable_def one_page_xlate valid_def intro!: exI [of _ 0])
  with copyin_checks [OF space_tree_ok [OF one_page_tree], of 5 7] show ?thesis by auto
qed

end
