(* ===== verification/Pipes.thy ===== *)
theory Pipes
  imports Pipe Ring Logop Ucopy
begin

text \<open>
  A pipe is a queue of at most \<open>PIPESIZE\<close> bytes. \<open>pipe_holds s pi q\<close> abstracts the ring buffer of the pipe at
  \<open>pi\<close>, with its indices that wrap around, to the list \<open>q\<close> of its unread bytes.
\<close>

section \<open>The pipes are independent of the hart and of memory\<close>

lemma hart_upd_pipe [simp]:
  "push_off (upd_pipe a f s) = upd_pipe a f (push_off s)" "pop_off (upd_pipe a f s) = bnd (pop_off s) (\<lambda>s. Ok (upd_pipe a f s))"
  "mycpu (upd_pipe a f s) = mycpu s" "calm (upd_pipe a f s) = calm s" "tp (upd_pipe a f s) = tp s"
  "upd_pipe a f (procs_update g s) = procs_update g (upd_pipe a f s)"
  "upd_pipe a f (freelist_update h s) = freelist_update h (upd_pipe a f s)"
  "upd_pipe a f (phys_update k s) = phys_update k (upd_pipe a f s)"
  by (simp_all add: upd_pipe_def hart_defs calm_iff)

lemma fields_upd_pipe [simp]:
  "procs (upd_pipe a f s) = procs s" "phys (upd_pipe a f s) = phys s" "kend (upd_pipe a f s) = kend s"
  "freelist (upd_pipe a f s) = freelist s" "kmem_lock (upd_pipe a f s) = kmem_lock s"
  by (simp_all add: upd_pipe_def)

lemma pipes_push_off [simp]: "pipes (push_off s) = pipes s"
  by (simp add: hart_defs)

lemma the_pipe_push_off [simp]: "the_pipe a (push_off s) = the_pipe a s"
  by (simp add: the_pipe_def)

lemma the_pipe_other [simp]:
  "the_pipe a (procs_update f s) = the_pipe a s" "the_pipe a (phys_update g s) = the_pipe a s"
  "the_pipe a (freelist_update h s) = the_pipe a s"
  by (simp_all add: the_pipe_def)

lemma the_pipe_upd [simp]: "pipes s a \<noteq> None \<Longrightarrow> the_pipe a (upd_pipe a f s) = f (the_pipe a s)"
  by (auto simp: the_pipe_def upd_pipe_def)

lemma pipes_upd_None [simp]: "pipes (upd_pipe a f s) a = None \<longleftrightarrow> pipes s a = None"
  by (simp add: upd_pipe_def)

lemma upd_pipe_comp [simp]: "upd_pipe a f (upd_pipe a g s) = upd_pipe a (\<lambda>p. f (g p)) s"
  by (simp add: upd_pipe_def option.map_comp comp_def)

lemma upd_pipe_cong: "f (the_pipe a s) = g (the_pipe a s) \<Longrightarrow> upd_pipe a f s = upd_pipe a g s"
  by (cases "pipes s a") (simp_all add: upd_pipe_def the_pipe_def)

lemma hart_ok_upd_pipe [simp]: "hart_ok (upd_pipe a f s) = hart_ok s"
  by (simp add: hart_ok_def upd_pipe_def mycpu_def intr_get_def)

lemma tree_ok_upd_pipe [simp]: "tree_ok (upd_pipe a f s) l pt fs = tree_ok s l pt fs"
  by (simp add: tree_ok_def kmem_inv_def page_ok_def)

lemma user_upd_pipe [simp]:
  "ubyte (upd_pipe a f s) pt va = ubyte s pt va" "ureadable (upd_pipe a f s) pt va = ureadable s pt va"
  "uwritable (upd_pipe a f s) pt va = uwritable s pt va" "ubytes (upd_pipe a f s) pt va n = ubytes s pt va n"
  by (simp_all add: ubyte_def ureadable_def uwritable_def ubytes_def)

lemma killed_calm [simp]:
  assumes "calm s" "p < length (procs s)" "lock_free (p_lock (procs s ! p))"
  shows "killed p s = Ok (p_killed (procs s ! p), s)"
  using assms by (simp add: killed_def Let_def upd_proc_def release_in_held [where l = "p_lock (procs s ! p)"])

section \<open>The queue\<close>

definition pipe_holds :: "'a pipe_st_scheme \<Rightarrow> addr \<Rightarrow> bytes \<Rightarrow> bool" where
  "pipe_holds s pi q \<longleftrightarrow> pipes s pi \<noteq> None \<and> length (pi_data (the_pipe pi s)) = PIPESIZE \<and> length q \<le> PIPESIZE \<and>
     ring_contents PIPESIZE (pi_data (the_pipe pi s)) (pi_nread (the_pipe pi s)) (pi_nwrite (the_pipe pi s)) = q"

lemma pipe_holds_upd:
  "pipe_holds (upd_pipe pi f s) pi q \<longleftrightarrow> pipes s pi \<noteq> None \<and> length (pi_data (f (the_pipe pi s))) = PIPESIZE \<and> length q \<le> PIPESIZE \<and>
     ring_contents PIPESIZE (pi_data (f (the_pipe pi s))) (pi_nread (f (the_pipe pi s))) (pi_nwrite (f (the_pipe pi s))) = q"
  by (cases "pipes s pi = None") (auto simp: pipe_holds_def)

lemma pipe_holds_other [simp]:
  "pipe_holds (procs_update f s) pi q = pipe_holds s pi q" "pipe_holds (freelist_update g s) pi q = pipe_holds s pi q"
  "pipe_holds (phys_update h s) pi q = pipe_holds s pi q"
  by (simp_all add: pipe_holds_def)

lemma pipe_holds_size:
  assumes "pipe_holds s pi q"
  shows "unat (pi_nwrite (the_pipe pi s) - pi_nread (the_pipe pi s)) = length q"
  using assms length_ring_contents by (auto simp: pipe_holds_def)

lemma pipe_full:
  assumes "pipe_holds s pi q"
  shows "pi_nwrite (the_pipe pi s) = pi_nread (the_pipe pi s) + of_nat PIPESIZE \<longleftrightarrow> length q = PIPESIZE"
  using pipe_ring.full_iff [of "pi_nwrite (the_pipe pi s)" "pi_nread (the_pipe pi s)"] pipe_holds_size [OF assms]
  by (simp add: PIPESIZE_def)

lemma pipe_empty:
  assumes "pipe_holds s pi q"
  shows "pi_nread (the_pipe pi s) = pi_nwrite (the_pipe pi s) \<longleftrightarrow> q = []"
proof -
  have "q = [] \<longleftrightarrow> unat (pi_nwrite (the_pipe pi s) - pi_nread (the_pipe pi s)) = 0" using pipe_holds_size [OF assms] by simp
  then show ?thesis by (auto simp: unat_eq_zero)
qed

lemma pipe_put:
  assumes "pipe_holds s pi q" "length q < PIPESIZE"
  shows "pipe_holds (upd_pipe pi (\<lambda>p. p\<lparr>pi_data := (pi_data p)[unat (pi_nwrite p) mod PIPESIZE := c], pi_nwrite := pi_nwrite p + 1\<rparr>) s)
    pi (q @ [c])"
  using assms pipe_ring.put [of "pi_data (the_pipe pi s)" "pi_nwrite (the_pipe pi s)" "pi_nread (the_pipe pi s)" c] pipe_holds_size [OF assms(1)]
  by (simp add: pipe_holds_upd) (simp add: pipe_holds_def PIPESIZE_def)

lemma pipe_get:
  assumes "pipe_holds s pi (c # q)"
  shows "pi_data (the_pipe pi s) ! (unat (pi_nread (the_pipe pi s)) mod PIPESIZE) = c"
    "pipe_holds (upd_pipe pi (\<lambda>p. p\<lparr>pi_nread := pi_nread p + 1\<rparr>) s) pi q"
proof -
  have "pi_nwrite (the_pipe pi s) \<noteq> pi_nread (the_pipe pi s)" using pipe_empty [OF assms] by simp
  from pipe_ring.get [OF this, of "pi_data (the_pipe pi s)"]
  show "pi_data (the_pipe pi s) ! (unat (pi_nread (the_pipe pi s)) mod PIPESIZE) = c"
    "pipe_holds (upd_pipe pi (\<lambda>p. p\<lparr>pi_nread := pi_nread p + 1\<rparr>) s) pi q"
    using assms by (simp_all add: pipe_holds_upd pipe_holds_def PIPESIZE_def)
qed

section \<open>Writing\<close>

lemma ubytes_Suc: "ubytes s pt va (Suc k) = ubyte s pt va # ubytes s pt (va + 1) k"
proof -
  have "ubytes s pt va 1 = [ubyte s pt va]" by (simp add: ubytes_def)
  then show ?thesis using ubytes_add [of s pt va 1 k] by simp
qed

text \<open>A process that may write: it is not killed, the read end is open, and its buffer is readable.\<close>

definition may_write :: "'a pipe_st_scheme \<Rightarrow> addr \<Rightarrow> nat \<Rightarrow> addr list \<Rightarrow> bool" where
  "may_write s pi pr fs \<longleftrightarrow> calm s \<and> cpu_proc (mycpu s) = Some pr \<and> pr < NPROC \<and> free_plocks (procs s) \<and> p_killed (procs s ! pr) = 0 \<and>
     pi_readopen (the_pipe pi s) \<and> tree_ok s 2 (p_pagetable (procs s ! pr)) fs"

lemma pipewrite_step:
  assumes w: "may_write s pi pr fs" and q: "pipe_holds s pi q" "length q < PIPESIZE"
    and rd: "ureadable s (p_pagetable (procs s ! pr)) (addr + of_nat i)"
  defines "c \<equiv> ubyte s (p_pagetable (procs s ! pr)) (addr + of_nat i)"
  shows "pipewrite_turn (Suc n) i pi pr addr s = pipewrite_turn n (Suc i) pi pr addr
    (upd_pipe pi (\<lambda>p. p\<lparr>pi_data := (pi_data p)[unat (pi_nwrite p) mod PIPESIZE := c], pi_nwrite := pi_nwrite p + 1\<rparr>) s)"
proof -
  have k: "killed pr s = Ok (0, s)" using w by (simp add: may_write_def free_plocks_def)
  have nf: "pi_nwrite (the_pipe pi s) \<noteq> pi_nread (the_pipe pi s) + of_nat PIPESIZE" using pipe_full [OF q(1)] q(2) by simp
  have "tree_ok s 2 (p_pagetable (procs s ! pr)) fs" using w by (simp add: may_write_def)
  from copyin_readable [OF this, of 1 "addr + of_nat i"] rd
  have "copyin (p_pagetable (procs s ! pr)) (addr + of_nat i) 1 s = Ok ((0, [c]), s)" by (simp add: ubytes_def c_def)
  then show ?thesis using w k nf by (simp add: may_write_def Let_def)
qed

lemma pipewrite_steps:
  assumes "may_write s pi pr fs" "pipe_holds s pi q" "length q + k \<le> PIPESIZE" "k \<le> n"
    "\<forall>j<k. ureadable s (p_pagetable (procs s ! pr)) (addr + of_nat (i + j))"
  shows "\<exists>d. let t = upd_pipe pi (\<lambda>p. p\<lparr>pi_data := d, pi_nwrite := pi_nwrite p + of_nat k\<rparr>) s in
    pipewrite_turn n i pi pr addr s = pipewrite_turn (n - k) (i + k) pi pr addr t \<and>
    pipe_holds t pi (q @ ubytes s (p_pagetable (procs s ! pr)) (addr + of_nat i) k)"
  using assms
proof (induction k arbitrary: i n s q)
  case 0
  have "upd_pipe pi (\<lambda>p. p\<lparr>pi_data := pi_data (the_pipe pi s), pi_nwrite := pi_nwrite p + of_nat 0\<rparr>) s = upd_pipe pi (\<lambda>p. p) s"
    by (rule upd_pipe_cong) simp
  moreover have "upd_pipe pi (\<lambda>p. p) s = s" by (simp add: upd_pipe_def option.map_ident)
  ultimately show ?case using 0 by (intro exI [of _ "pi_data (the_pipe pi s)"]) (simp add: Let_def ubytes_def)
next
  case (Suc k)
  then obtain m where n: "n = Suc m" by (cases n) auto
  let ?pt = "p_pagetable (procs s ! pr)" and ?c = "ubyte s (p_pagetable (procs s ! pr)) (addr + of_nat i)"
  let ?f = "\<lambda>p. p\<lparr>pi_data := (pi_data p)[unat (pi_nwrite p) mod PIPESIZE := ?c], pi_nwrite := pi_nwrite p + 1\<rparr>"
  let ?u = "upd_pipe pi ?f s"
  have some: "pipes s pi \<noteq> None" using Suc.prems(2) by (simp add: pipe_holds_def)
  have st: "pipewrite_turn n i pi pr addr s = pipewrite_turn m (Suc i) pi pr addr ?u"
    unfolding n by (rule pipewrite_step [OF Suc.prems(1,2)]) (use Suc.prems(3,5) in auto)
  have "may_write ?u pi pr fs" using Suc.prems(1) some by (simp add: may_write_def)
  moreover have "pipe_holds ?u pi (q @ [?c])" by (rule pipe_put [OF Suc.prems(2)]) (use Suc.prems(3) in simp)
  moreover have "\<forall>j<k. ureadable s ?pt (addr + of_nat (Suc i + j))" using Suc.prems(5) by (metis Suc_less_eq add_Suc_shift)
  ultimately obtain d where d: "pipewrite_turn m (Suc i) pi pr addr ?u = pipewrite_turn (m - k) (Suc i + k) pi pr addr
      (upd_pipe pi (\<lambda>p. p\<lparr>pi_data := d, pi_nwrite := pi_nwrite p + of_nat k\<rparr>) ?u)"
    "pipe_holds (upd_pipe pi (\<lambda>p. p\<lparr>pi_data := d, pi_nwrite := pi_nwrite p + of_nat k\<rparr>) ?u) pi
      ((q @ [?c]) @ ubytes s ?pt (addr + of_nat (Suc i)) k)"
    using Suc.IH [of ?u "q @ [?c]" m "Suc i"] Suc.prems(3,4) n by (auto simp: Let_def)
  have "upd_pipe pi (\<lambda>p. p\<lparr>pi_data := d, pi_nwrite := pi_nwrite p + of_nat k\<rparr>) ?u =
      upd_pipe pi (\<lambda>p. p\<lparr>pi_data := d, pi_nwrite := pi_nwrite p + of_nat (Suc k)\<rparr>) s"
    unfolding upd_pipe_comp by (rule upd_pipe_cong) (simp add: add.assoc)
  moreover have "ubytes s ?pt (addr + of_nat i) (Suc k) = ?c # ubytes s ?pt (addr + of_nat (Suc i)) k"
    unfolding ubytes_Suc by (simp add: add.assoc add.commute [of 1])
  ultimately show ?case using d st n by (intro exI [of _ d]) (simp add: Let_def)
qed

lemma pipewrite_fits:
  assumes s: "may_write s pi pr fs" "pipe_holds s pi q" "lock_free (pi_lock (the_pipe pi s))"
    and n: "0 \<le> n" "length q + nat n \<le> PIPESIZE"
    and rd: "\<forall>j<nat n. ureadable s (p_pagetable (procs s ! pr)) (addr + of_nat j)"
  shows "\<exists>d. let t = upd_pipe pi (\<lambda>p. p\<lparr>pi_data := d, pi_nwrite := pi_nwrite p + of_int n\<rparr>) s in
    pipewrite pi addr n s = Ok (n, t\<lparr>procs := woken (chan_nread pi) (Some pr) (procs s)\<rparr>) \<and>
    pipe_holds t pi (q @ ubytes s (p_pagetable (procs s ! pr)) addr (nat n))"
proof -
  let ?l = "pi_lock (the_pipe pi s)" and ?pt = "p_pagetable (procs s ! pr)"
  let ?h = "upd_pipe pi (\<lambda>p. p\<lparr>pi_lock := held_by (tp s) ?l\<rparr>) (push_off s)"
  have some: "pipes s pi \<noteq> None" using s(2) by (simp add: pipe_holds_def)
  have ur: "ubyte (push_off s) pt va = ubyte s pt va" "ureadable (push_off s) pt va = ureadable s pt va"
    "ubytes (push_off s) pt va k = ubytes s pt va k" for pt va k by (simp_all add: ubyte_def ureadable_def ubytes_def)
  have "tree_ok (push_off s) 2 pt fs = tree_ok s 2 pt fs" for pt
    using s(1) by (auto simp: tree_ok_def kmem_inv_def page_ok_def may_write_def push_off_hart_ok calm_def)
  then have w: "may_write ?h pi pr fs" using s(1) some by (simp add: may_write_def)
  have h: "pipe_holds ?h pi q" using s(2) by (simp add: pipe_holds_upd) (simp add: pipe_holds_def)
  obtain d where d: "pipewrite_turn (nat n) 0 pi pr addr ?h = pipewrite_turn (nat n - nat n) (0 + nat n) pi pr addr
      (upd_pipe pi (\<lambda>p. p\<lparr>pi_data := d, pi_nwrite := pi_nwrite p + of_nat (nat n)\<rparr>) ?h)"
    "pipe_holds (upd_pipe pi (\<lambda>p. p\<lparr>pi_data := d, pi_nwrite := pi_nwrite p + of_nat (nat n)\<rparr>) ?h) pi (q @ ubytes s ?pt addr (nat n))"
    using pipewrite_steps [OF w h n(2), of "nat n" addr 0] rd by (auto simp: Let_def ur)
  let ?t = "upd_pipe pi (\<lambda>p. p\<lparr>pi_data := d, pi_nwrite := pi_nwrite p + of_int n\<rparr>) s"
  have on: "(of_nat (nat n) :: u32) = of_int n" using n(1) by simp
  have "upd_pipe pi (\<lambda>p. p\<lparr>pi_lock := held_by (tp s) ?l, pi_data := d, pi_nwrite := pi_nwrite p + of_int n, pi_lock := ?l\<rparr>) s = ?t"
    by (rule upd_pipe_cong) simp
  then have "pipewrite pi addr n s = Ok (n, ?t\<lparr>procs := woken (chan_nread pi) (Some pr) (procs s)\<rparr>)"
    using s some d(1) n(1) on by (simp add: pipewrite_def may_write_def release_in_held [where l = ?l])
  moreover have "pipe_holds ?t pi (q @ ubytes s ?pt addr (nat n))"
    using d(2) on by (simp add: pipe_holds_upd)
  ultimately show ?thesis by (auto simp: Let_def)
qed

section \<open>Reading\<close>

definition may_read :: "'a pipe_st_scheme \<Rightarrow> nat \<Rightarrow> addr list \<Rightarrow> addr list \<Rightarrow> bool" where
  "may_read s pr ps fs \<longleftrightarrow> calm s \<and> cpu_proc (mycpu s) = Some pr \<and> pr < NPROC \<and> free_plocks (procs s) \<and>
     space s (p_pagetable (procs s ! pr)) 0 ps fs \<and> length ps * 4096 \<le> 2 ^ 38"

text \<open>\<open>filled s t pt va bs\<close>: the process with page table \<open>pt\<close> sees \<open>bs\<close> at \<open>va\<close> in \<open>t\<close>, and all else as in \<open>s\<close>.\<close>

definition filled :: "'a kmem_st_scheme \<Rightarrow> 'a kmem_st_scheme \<Rightarrow> addr \<Rightarrow> nat \<Rightarrow> u64 \<Rightarrow> bytes \<Rightarrow> bool" where
  "filled s t pt sz va bs \<longleftrightarrow> (\<forall>a. unat a < sz \<longrightarrow> ubyte t pt a =
     (if unat va \<le> unat a \<and> unat a < unat va + length bs then bs ! (unat a - unat va) else ubyte s pt a))"

lemma filled_Nil [simp]: "filled s s pt sz va []"
  by (auto simp: filled_def)

lemma filled_append:
  assumes "filled s t pt sz va xs" "filled t u pt sz (va + of_nat (length xs)) ys" "unat va + length xs < 2 ^ 64"
  shows "filled s u pt sz va (xs @ ys)"
proof -
  have "unat (va + of_nat (length xs)) = unat va + length xs" by (rule unat_add_of_nat) (use assms(3) in simp)
  then show ?thesis using assms(1,2) by (auto simp: filled_def nth_append)
qed

text \<open>An address space depends only on physical memory and its allocator.\<close>

lemma space_cong:
  fixes s :: "'a kmem_st_scheme" and t :: "'b kmem_st_scheme"
  assumes "kend t = kend s" "phys t = phys s" "freelist t = freelist s" "kmem_lock t = kmem_lock s" "hart_ok t = hart_ok s"
  shows "space t pt va ps fs = space s pt va ps fs"
proof -
  have "page_ok t = page_ok s" using assms by (auto simp: page_ok_def fun_eq_iff)
  moreover from this have "owned t pt va ps = owned s pt va ps" using assms by (induction ps arbitrary: va) simp_all
  ultimately show ?thesis using assms by (simp add: space_def kmem_inv_def)
qed

lemma space_upd_pipe [simp]: "space (upd_pipe a f s) pt va ps fs = space s pt va ps fs"
  by (rule space_cong) simp_all

lemma calm_hart_ok: "calm s \<Longrightarrow> hart_ok s"
  by (simp add: calm_def)

lemma calm_kmem [simp]: "calm (freelist_update f s) = calm s" "calm (phys_update g s) = calm s"
  "mycpu (freelist_update f s) = mycpu s" "mycpu (phys_update g s) = mycpu s"
  by (simp_all add: calm_iff mycpu_def)

lemma filled_upd_pipe [simp]: "filled (upd_pipe a f s) t pt sz va bs = filled s t pt sz va bs"
  by (simp add: filled_def)

lemma copyout_byte:
  assumes r: "may_read s pr ps fs" and va: "unat va < length ps * 4096" "uwritable s (p_pagetable (procs s ! pr)) va"
  obtains fl m where "copyout (p_pagetable (procs s ! pr)) va [c] s = Ok (0, s\<lparr>freelist := fl, phys := m\<rparr>)"
    "may_read (s\<lparr>freelist := fl, phys := m\<rparr>) pr ps fs"
    "filled s (s\<lparr>freelist := fl, phys := m\<rparr>) (p_pagetable (procs s ! pr)) (length ps * 4096) va [c]"
    "\<And>a. uwritable (s\<lparr>freelist := fl, phys := m\<rparr>) (p_pagetable (procs s ! pr)) a = uwritable s (p_pagetable (procs s ! pr)) a"
proof -
  let ?pt = "p_pagetable (procs s ! pr)"
  have sp: "space s ?pt 0 ps fs" "length ps * 4096 \<le> 2 ^ 38" and c: "calm s" using r by (auto simp: may_read_def)
  obtain t where t: "copyout ?pt va [c] s = Ok (0, t)" "space t ?pt 0 ps fs" "mem_step s t"
    "\<forall>a. xlate (phys t) 2 ?pt a = xlate (phys s) 2 ?pt a"
    "\<forall>a. unat a < length ps * 4096 \<longrightarrow> ubyte t ?pt a = (if unat va \<le> unat a \<and> unat a < unat va + length [c] then [c] ! (unat a - unat va) else ubyte s ?pt a)"
    using copyout_writes [OF sp, of va "[c]"] va by auto
  obtain fl m where eq: "t = s\<lparr>freelist := fl, phys := m\<rparr>" using t(3) c by (auto simp: mem_step_def calm_def)
  have "calm t = calm s" "mycpu t = mycpu s" "procs t = procs s" unfolding eq by (simp_all add: calm_iff mycpu_def)
  then have "may_read t pr ps fs" using r t(2) by (simp add: may_read_def)
  moreover have "uwritable t ?pt a = uwritable s ?pt a" for a using t(4) by (simp add: uwritable_def)
  ultimately show ?thesis using that [of m fl] t(1,5) unfolding eq filled_def by blast
qed

lemma piperead_steps:
  assumes "may_read s pr ps fs" "pipe_holds s pi q" "unat addr + i + n \<le> length ps * 4096"
    "\<forall>j<n. uwritable s (p_pagetable (procs s ! pr)) (addr + of_nat (i + j))"
  shows "\<exists>fl m. let k = min n (length q); t = upd_pipe pi (\<lambda>p. p\<lparr>pi_nread := pi_nread p + of_nat k\<rparr>) (s\<lparr>freelist := fl, phys := m\<rparr>) in
    piperead_loop n i pi pr addr s = Ok (i + k, t) \<and> may_read t pr ps fs \<and> pipe_holds t pi (drop k q) \<and>
    filled s t (p_pagetable (procs s ! pr)) (length ps * 4096) (addr + of_nat i) (take k q)"
  using assms
proof (induction n arbitrary: i s q)
  case 0
  have "upd_pipe pi (\<lambda>p. p) s = s" by (simp add: upd_pipe_def option.map_ident)
  then show ?case using 0 by (intro exI [of _ "freelist s"] exI [of _ "phys s"]) (simp add: Let_def)
next
  case (Suc n)
  let ?pt = "p_pagetable (procs s ! pr)" and ?sz = "length ps * 4096"
  show ?case
  proof (cases q)
    case Nil
    have "upd_pipe pi (\<lambda>p. p) s = s" by (simp add: upd_pipe_def option.map_ident)
    then show ?thesis using Suc.prems pipe_empty [OF Suc.prems(2)] Nil
      by (intro exI [of _ "freelist s"] exI [of _ "phys s"]) (simp add: Let_def)
  next
    case (Cons c q')
    let ?u = "upd_pipe pi (\<lambda>p. p\<lparr>pi_nread := pi_nread p + 1\<rparr>) s"
    note G = pipe_get [OF Suc.prems(2) [unfolded Cons]]
    have lim: "length ps * 4096 \<le> 2 ^ 38" using Suc.prems(1) by (simp add: may_read_def)
    have ua: "unat (addr + of_nat i) = unat addr + i" by (rule unat_add_of_nat) (use Suc.prems(3) lim in simp)
    have ru: "may_read ?u pr ps fs" using Suc.prems(1) by (simp add: may_read_def)
    obtain fl m where C: "copyout ?pt (addr + of_nat i) [c] ?u = Ok (0, ?u\<lparr>freelist := fl, phys := m\<rparr>)"
      "may_read (?u\<lparr>freelist := fl, phys := m\<rparr>) pr ps fs"
      "filled ?u (?u\<lparr>freelist := fl, phys := m\<rparr>) ?pt ?sz (addr + of_nat i) [c]"
      "\<And>a. uwritable (?u\<lparr>freelist := fl, phys := m\<rparr>) ?pt a = uwritable ?u ?pt a"
      by (rule copyout_byte [OF ru, of "addr + of_nat i" c]) (use Suc.prems(3,4) ua in auto)
    let ?v = "?u\<lparr>freelist := fl, phys := m\<rparr>" and ?k = "min n (length q')"
    have v: "procs ?v = procs s" "pipe_holds ?v pi q'" using G(2) by simp_all
    have "\<forall>j<n. uwritable ?v ?pt (addr + of_nat (Suc i + j))"
      using Suc.prems(4) C(4) by (metis (no_types, lifting) Suc_less_eq add_Suc_shift user_upd_pipe(3))
    then obtain fl' m' where I: "piperead_loop n (Suc i) pi pr addr ?v =
        Ok (Suc i + ?k, upd_pipe pi (\<lambda>p. p\<lparr>pi_nread := pi_nread p + of_nat ?k\<rparr>) (?v\<lparr>freelist := fl', phys := m'\<rparr>))"
      "may_read (upd_pipe pi (\<lambda>p. p\<lparr>pi_nread := pi_nread p + of_nat ?k\<rparr>) (?v\<lparr>freelist := fl', phys := m'\<rparr>)) pr ps fs"
      "pipe_holds (upd_pipe pi (\<lambda>p. p\<lparr>pi_nread := pi_nread p + of_nat ?k\<rparr>) (?v\<lparr>freelist := fl', phys := m'\<rparr>)) pi (drop ?k q')"
      "filled ?v (upd_pipe pi (\<lambda>p. p\<lparr>pi_nread := pi_nread p + of_nat ?k\<rparr>) (?v\<lparr>freelist := fl', phys := m'\<rparr>)) ?pt ?sz
        (addr + of_nat (Suc i)) (take ?k q')"
      using Suc.IH [OF C(2) v(2), of "Suc i"] Suc.prems(3) v(1) by (auto simp: Let_def)
    let ?t = "upd_pipe pi (\<lambda>p. p\<lparr>pi_nread := pi_nread p + of_nat (Suc ?k)\<rparr>) (s\<lparr>freelist := fl', phys := m'\<rparr>)"
    have t: "upd_pipe pi (\<lambda>p. p\<lparr>pi_nread := pi_nread p + of_nat ?k\<rparr>) (?v\<lparr>freelist := fl', phys := m'\<rparr>) = ?t"
      by (simp add: add.assoc)
    have sx: "addr + of_nat i + of_nat (length [c]) = addr + of_nat (Suc i)" by (simp add: add.assoc add.commute)
    have "filled ?u ?t ?pt ?sz (addr + of_nat i) ([c] @ take ?k q')"
      by (rule filled_append [OF C(3)], unfold sx, rule I(4) [unfolded t]) (use ua Suc.prems(3) lim in simp)
    moreover have "pi_nread (the_pipe pi s) \<noteq> pi_nwrite (the_pipe pi s)" using pipe_empty [OF Suc.prems(2)] Cons by simp
    then have "piperead_loop (Suc n) i pi pr addr s = Ok (i + Suc ?k, ?t)"
      using G(1) C(1) I(1) unfolding t by (simp add: Let_def)
    ultimately show ?thesis using I(2,3) unfolding t Cons
      by (intro exI [of _ fl'] exI [of _ m']) (simp add: Let_def)
  qed
qed

lemma may_read_push_off: "may_read s pr ps fs \<Longrightarrow> may_read (push_off s) pr ps fs"
proof -
  assume r: "may_read s pr ps fs"
  then have "hart_ok (push_off s) = hart_ok s" using calm_hart_ok [of s] calm_hart_ok [of "push_off s"] by (simp add: may_read_def)
  then have "space (push_off s) pt va ps fs = space s pt va ps fs" for pt va by (intro space_cong) simp_all
  with r show ?thesis by (simp add: may_read_def)
qed

lemma may_read_upd_pipe [simp]: "may_read (upd_pipe a f s) pr ps fs = may_read s pr ps fs"
  by (simp add: may_read_def)

lemma may_read_woken: "may_read s pr ps fs \<Longrightarrow> may_read (s\<lparr>procs := woken ch me (procs s)\<rparr>) pr ps fs"
proof -
  assume r: "may_read s pr ps fs"
  have "space (s\<lparr>procs := qs\<rparr>) pt va ps fs = space s pt va ps fs" for qs pt va
    by (intro space_cong) (simp_all add: hart_ok_def mycpu_def intr_get_def)
  then show ?thesis using r by (auto simp: may_read_def nth_woken free_plocks_def)
qed

lemma piperead_spec:
  assumes s: "may_read s pr ps fs" "pipe_holds s pi q" "lock_free (pi_lock (the_pipe pi s))"
    and ne: "q \<noteq> [] \<or> \<not> pi_writeopen (the_pipe pi s)" and n: "0 \<le> n" "unat addr + nat n \<le> length ps * 4096"
    and wr: "\<forall>j<nat n. uwritable s (p_pagetable (procs s ! pr)) (addr + of_nat j)"
  defines "k \<equiv> min (nat n) (length q)"
  obtains t where "piperead pi addr n s = Ok (int k, t)" "may_read t pr ps fs" "pipe_holds t pi (drop k q)"
    "filled s t (p_pagetable (procs s ! pr)) (length ps * 4096) addr (take k q)"
proof -
  let ?l = "pi_lock (the_pipe pi s)" and ?pt = "p_pagetable (procs s ! pr)"
  let ?h = "upd_pipe pi (\<lambda>p. p\<lparr>pi_lock := held_by (tp s) ?l\<rparr>) (push_off s)"
  have some: "pipes s pi \<noteq> None" using s(2) by (simp add: pipe_holds_def)
  have h: "pipe_holds ?h pi q" using s(2) by (simp add: pipe_holds_upd) (simp add: pipe_holds_def)
  have r: "may_read ?h pr ps fs" using may_read_push_off [OF s(1)] by simp
  have "\<forall>j<nat n. uwritable ?h ?pt (addr + of_nat (0 + j))" using wr by (simp add: uwritable_def)
  then obtain fl m where L: "piperead_loop (nat n) 0 pi pr addr ?h = Ok (k, upd_pipe pi (\<lambda>p. p\<lparr>pi_nread := pi_nread p + of_nat k\<rparr>) (?h\<lparr>freelist := fl, phys := m\<rparr>))"
    "may_read (upd_pipe pi (\<lambda>p. p\<lparr>pi_nread := pi_nread p + of_nat k\<rparr>) (?h\<lparr>freelist := fl, phys := m\<rparr>)) pr ps fs"
    "pipe_holds (upd_pipe pi (\<lambda>p. p\<lparr>pi_nread := pi_nread p + of_nat k\<rparr>) (?h\<lparr>freelist := fl, phys := m\<rparr>)) pi (drop k q)"
    "filled ?h (upd_pipe pi (\<lambda>p. p\<lparr>pi_nread := pi_nread p + of_nat k\<rparr>) (?h\<lparr>freelist := fl, phys := m\<rparr>)) ?pt (length ps * 4096) addr (take k q)"
    using piperead_steps [OF r h, of addr 0 "nat n"] n(2) by (auto simp: Let_def k_def)
  let ?u = "upd_pipe pi (\<lambda>p. p\<lparr>pi_lock := held_by (tp s) ?l, pi_nread := pi_nread p + of_nat k, pi_lock := ?l\<rparr>) (s\<lparr>freelist := fl, phys := m\<rparr>)"
  let ?t = "?u\<lparr>procs := woken (chan_nwrite pi) (Some pr) (procs s)\<rparr>"
  have c: "free_plocks (procs s)" "calm s" "cpu_proc (mycpu s) = Some pr" using s(1) by (simp_all add: may_read_def)
  have u: "?u = upd_pipe pi (\<lambda>p. p\<lparr>pi_nread := pi_nread p + of_nat k\<rparr>) (s\<lparr>freelist := fl, phys := m\<rparr>)"
    by (rule upd_pipe_cong) simp
  have "piperead pi addr n s = Ok (int k, ?t)"
    using c s(3) some ne L(1) pipe_empty [OF s(2)] by (cases "q = []") (simp_all add: piperead_def release_in_held [where l = ?l])
  moreover have "may_read ?t pr ps fs"
  proof -
    let ?v = "upd_pipe pi (\<lambda>p. p\<lparr>pi_nread := pi_nread p + of_nat k\<rparr>) (?h\<lparr>freelist := fl, phys := m\<rparr>)"
    have "hart_ok (push_off s) = hart_ok s" using c(2) calm_hart_ok [of s] calm_hart_ok [of "push_off s"] by simp
    then have "space ?u pt 0 ps fs = space ?v pt 0 ps fs" for pt by (intro space_cong) simp_all
    then have "may_read ?u pr ps fs" using L(2) c s(1) by (simp add: may_read_def)
    from may_read_woken [OF this] show ?thesis by simp
  qed
  moreover have "pipe_holds ?t pi (drop k q)" using L(3) by (simp add: pipe_holds_upd)
  moreover have "filled s ?t ?pt (length ps * 4096) addr (take k q)" using L(4) by (simp add: filled_def ubyte_def)
  ultimately show ?thesis by (rule that)
qed

section \<open>A concrete process with a pipe\<close>

text \<open>One process runs on the hart, with one writable page at address 0.\<close>

definition user_st :: "(addr \<Rightarrow> pipe option) \<Rightarrow> 'a \<Rightarrow> 'a pipe_st_scheme" where
  "user_st ps x =
    (boot_st demo_disk (log_st_ext demo_log (fs_st_ext demo_sb (initlock ''itable'') []
      (cons_st_ext (\<lambda>_. 0) 0 0 [] [] 1 (initlock ''uart'') (replicate 32 0) 0 0 False (initlock ''cons'') (replicate 128 0) 0 0 0
         [] [] (pipe_st_ext ps x)))))
    \<lparr>procs := replicate NPROC (idle_proc\<lparr>p_pid := 1, p_state := RUNNING, p_pagetable := 0x87ffe000\<rparr>),
      kend := kend one_user_page, freelist := freelist one_user_page, phys := phys one_user_page\<rparr>"

lemma user_st_fields [simp]:
  "calm (user_st ps x)" "cpu_proc (mycpu (user_st ps x)) = Some 0" "free_plocks (procs (user_st ps x))"
  "p_killed (procs (user_st ps x) ! 0) = 0" "p_pagetable (procs (user_st ps x) ! 0) = 0x87ffe000" "pipes (user_st ps x) = ps"
  "phys (user_st ps x) = phys one_user_page"
  by (simp_all add: user_st_def boot_st_def calm_iff mycpu_def free_plocks_def idle_proc_def NPROC_def)

lemma user_st_space [simp]: "space (user_st ps x) 0x87ffe000 0 [0x87ffb000] []"
proof -
  have "space (user_st ps x) 0x87ffe000 0 [0x87ffb000] [] = space one_user_page 0x87ffe000 0 [0x87ffb000] []"
    by (rule space_cong) (simp_all add: user_st_def boot_st_def one_user_page_def one_page_def hart_ok_def mycpu_def intr_get_def)
  then show ?thesis using one_user_page_space(1) by simp
qed

lemma user_st_access:
  assumes "unat va < 4096"
  shows "ureadable (user_st ps x) 0x87ffe000 va" "uwritable (user_st ps x) 0x87ffe000 va"
proof -
  have va: "va < MAXVA" using assms by (simp add: MAXVA_def word_less_nat_alt)
  have e: "(PA2PTE 0x87ffb000 OR (PTE_R OR PTE_U OR PTE_W) OR PTE_V) AND PTE_U \<noteq> 0"
      "(PA2PTE 0x87ffb000 OR (PTE_R OR PTE_U OR PTE_W) OR PTE_V) AND PTE_W \<noteq> 0"
      "PTE2PA (PA2PTE 0x87ffb000 OR (PTE_R OR PTE_U OR PTE_W) OR PTE_V) \<noteq> 0" by (simp_all add: PA2PTE_def PTE2PA_def)
  show "ureadable (user_st ps x) 0x87ffe000 va" "uwritable (user_st ps x) 0x87ffe000 va"
    using va e one_user_page_space(2) [OF assms] one_user_page_valid by (simp_all add: ureadable_def uwritable_def Let_def)
qed

lemma user_st_range:
  assumes "unat va + n \<le> 4096"
  shows "\<forall>j<n. ureadable (user_st ps x) 0x87ffe000 (va + of_nat j)" "\<forall>j<n. uwritable (user_st ps x) 0x87ffe000 (va + of_nat j)"
proof -
  have "unat (va + of_nat j) = unat va + j" if "j < n" for j by (rule unat_add_of_nat) (use assms that in simp)
  then show "\<forall>j<n. ureadable (user_st ps x) 0x87ffe000 (va + of_nat j)" "\<forall>j<n. uwritable (user_st ps x) 0x87ffe000 (va + of_nat j)"
    using assms by (simp_all add: user_st_access)
qed

lemma user_st_beyond: "\<not> uwritable (user_st ps x) 0x87ffe000 0x1000"
proof -
  let ?m = "phys one_user_page"
  have i: "idx (Suc (Suc 0)) (0x1000 :: u64) = 0" "idx (Suc 0) (0x1000 :: u64) = 0" "idx 0 (0x1000 :: u64) = 1" by (simp_all add: idx_eq)
  have "xlate ?m (Suc (Suc 0)) 0x87ffe000 0x1000 = xlate ?m (Suc 0) 0x87ffd000 0x1000"
    by (rule one_table; use one_user_page_entries i in \<open>simp add: aligned_def\<close>)
  also have "\<dots> = xlate ?m 0 0x87ffc000 0x1000"
    by (rule one_table; use one_user_page_entries i in \<open>simp add: aligned_def\<close>)
  also have "\<dots> = 0" using one_user_page_entries(3) [of 1] i by simp
  finally show ?thesis by (simp add: uwritable_def numeral_2_eq_2 valid_def)
qed

lemma user_st_may_read: "may_read (user_st ps x) 0 [0x87ffb000] []"
  by (simp add: may_read_def NPROC_def)

lemma user_st_may_write: "pi_readopen (the_pipe pi (user_st ps x)) \<Longrightarrow> may_write (user_st ps x) pi 0 []"
  using space_tree_ok [OF user_st_space] by (simp add: may_write_def NPROC_def)

text \<open>A pipe whose indices are about to wrap around at 2^32, with one unread byte.\<close>

definition demo_pipe :: pipe where
  "demo_pipe = \<lparr>pi_lock = initlock ''pipe'', pi_data = (replicate PIPESIZE 0)[510 := 42], pi_nread = 0xfffffffe, pi_nwrite = 0xffffffff,
     pi_readopen = True, pi_writeopen = True\<rparr>"

abbreviation demo_pipes :: "addr \<Rightarrow> pipe option" where
  "demo_pipes \<equiv> (\<lambda>_. None)(0x87ffa000 := Some demo_pipe)"

lemma demo_pipe_at [simp]: "the_pipe 0x87ffa000 (user_st demo_pipes x) = demo_pipe"
  by (simp add: the_pipe_def)

lemma demo_pipe_holds: "pipe_holds (user_st demo_pipes x) 0x87ffa000 [42]"
  by (simp add: pipe_holds_def) (simp add: demo_pipe_def PIPESIZE_def ring_contents_def)

lemma demo_pipe_free [simp]: "lock_free (pi_lock demo_pipe)" "pi_readopen demo_pipe"
  by (simp_all add: demo_pipe_def)

section \<open>Properties\<close>

text \<open>
  C17: \<open>pipewrite\<close> of bytes that fit returns their number and appends them to the queue in order, whatever the
  values of the two indices, which wrap around at 2^32; bytes that were not read yet are kept.
\<close>

theorem pipewrite_appends:
  assumes "may_write s pi pr fs" "pipe_holds s pi q" "lock_free (pi_lock (the_pipe pi s))" "0 \<le> n" "length q + nat n \<le> PIPESIZE"
    "\<forall>j<nat n. ureadable s (p_pagetable (procs s ! pr)) (addr + of_nat j)"
  shows "\<exists>t. pipewrite pi addr n s = Ok (n, t) \<and> pipe_holds t pi (q @ ubytes s (p_pagetable (procs s ! pr)) addr (nat n))"
  using pipewrite_fits [OF assms] by (auto simp: Let_def)

theorem pipewrite_appends_witness:
  "\<exists>t. pipewrite 0x87ffa000 0xffe 2 (user_st demo_pipes ()) = Ok (2, t) \<and> pipe_holds t 0x87ffa000
     ([42] @ ubytes (user_st demo_pipes ()) 0x87ffe000 0xffe 2)"
proof -
  note user_st_range(1) [of "0xffe" "nat 2" demo_pipes "()"]
  then show ?thesis
    using pipewrite_appends [OF user_st_may_write demo_pipe_holds, where n = 2 and addr = "0xffe"] by (simp add: PIPESIZE_def)
qed

text \<open>
  C18: \<open>piperead\<close> takes the oldest bytes off the queue, as many as there are up to \<open>n\<close>, stores them in order at
  the address given, changes no other byte of the process, and returns their number; at the end of file, when
  the queue is empty and the write end is closed, it returns 0.
\<close>

theorem piperead_takes:
  assumes "may_read s pr ps fs" "pipe_holds s pi q" "lock_free (pi_lock (the_pipe pi s))"
    "q \<noteq> [] \<or> \<not> pi_writeopen (the_pipe pi s)" "0 \<le> n" "unat addr + nat n \<le> length ps * 4096"
    "\<forall>j<nat n. uwritable s (p_pagetable (procs s ! pr)) (addr + of_nat j)"
  shows "\<exists>t. piperead pi addr n s = Ok (int (min (nat n) (length q)), t) \<and> pipe_holds t pi (drop (nat n) q) \<and>
    filled s t (p_pagetable (procs s ! pr)) (length ps * 4096) addr (take (nat n) q)"
proof -
  obtain t where "piperead pi addr n s = Ok (int (min (nat n) (length q)), t)" "pipe_holds t pi (drop (min (nat n) (length q)) q)"
    "filled s t (p_pagetable (procs s ! pr)) (length ps * 4096) addr (take (min (nat n) (length q)) q)"
    by (rule piperead_spec [OF assms]) blast
  moreover have "drop (min a (length q)) q = drop a q" "take (min a (length q)) q = take a q" for a by (simp_all add: min_def)
  ultimately show ?thesis by auto
qed

theorem piperead_takes_witness:
  "\<exists>t. piperead 0x87ffa000 0 5 (user_st demo_pipes ()) = Ok (1, t) \<and> pipe_holds t 0x87ffa000 [] \<and> ubyte t 0x87ffe000 0 = 42"
proof -
  note user_st_range(2) [of 0 "nat 5" demo_pipes "()"]
  then obtain t where t: "piperead 0x87ffa000 0 5 (user_st demo_pipes ()) = Ok (1, t)" "pipe_holds t 0x87ffa000 []"
    "filled (user_st demo_pipes ()) t 0x87ffe000 4096 0 [42]"
    using piperead_takes [OF user_st_may_read [of demo_pipes "()"] demo_pipe_holds, where n = 5 and addr = 0] by auto
  then have "ubyte t 0x87ffe000 0 = 42" by (simp add: filled_def)
  with t show ?thesis by blast
qed

text \<open>
  C16: what a process writes to an empty pipe it reads back: \<open>pipewrite\<close> of \<open>n\<close> bytes from \<open>src\<close> and then
  \<open>piperead\<close> of \<open>n\<close> bytes to \<open>dst\<close> both return \<open>n\<close>, the bytes at \<open>dst\<close> are those that were at \<open>src\<close>, and
  the pipe is empty again.
\<close>

theorem pipe_roundtrip:
  assumes s: "may_write s pi pr fs" "may_read s pr ps fs" "pipe_holds s pi []" "lock_free (pi_lock (the_pipe pi s))"
    and n: "0 < n" "nat n \<le> PIPESIZE" "unat dst + nat n \<le> length ps * 4096"
    and rd: "\<forall>j<nat n. ureadable s (p_pagetable (procs s ! pr)) (src + of_nat j)"
    and wr: "\<forall>j<nat n. uwritable s (p_pagetable (procs s ! pr)) (dst + of_nat j)"
  shows "\<exists>u t. pipewrite pi src n s = Ok (n, u) \<and> piperead pi dst n u = Ok (n, t) \<and> pipe_holds t pi [] \<and>
    ubytes t (p_pagetable (procs s ! pr)) dst (nat n) = ubytes s (p_pagetable (procs s ! pr)) src (nat n)"
proof -
  let ?pt = "p_pagetable (procs s ! pr)"
  let ?q = "ubytes s ?pt src (nat n)"
  obtain d where W: "pipewrite pi src n s = Ok (n, (upd_pipe pi (\<lambda>p. p\<lparr>pi_data := d, pi_nwrite := pi_nwrite p + of_int n\<rparr>) s)
      \<lparr>procs := woken (chan_nread pi) (Some pr) (procs s)\<rparr>)"
    "pipe_holds (upd_pipe pi (\<lambda>p. p\<lparr>pi_data := d, pi_nwrite := pi_nwrite p + of_int n\<rparr>) s) pi ?q"
    using pipewrite_fits [OF s(1,3,4), of n src] n(1,2) rd by (auto simp: Let_def)
  let ?v = "upd_pipe pi (\<lambda>p. p\<lparr>pi_data := d, pi_nwrite := pi_nwrite p + of_int n\<rparr>) s"
  let ?u = "?v\<lparr>procs := woken (chan_nread pi) (Some pr) (procs s)\<rparr>"
  have some: "pipes s pi \<noteq> None" using s(3) by (simp add: pipe_holds_def)
  have pr: "length (procs s) = NPROC" "pr < NPROC" using s(2) by (simp_all add: may_read_def free_plocks_def)
  have ru: "may_read ?u pr ps fs" using may_read_woken [of ?v pr ps fs] s(2) by simp
  have pt: "p_pagetable (procs ?u ! pr) = ?pt" using pr by (simp add: nth_woken)
  have us: "ubyte ?u ?pt a = ubyte s ?pt a" "uwritable ?u ?pt a = uwritable s ?pt a" for a by (simp_all add: ubyte_def uwritable_def)
  have lq: "length ?q = nat n" by (simp add: ubytes_def)
  obtain t where t: "piperead pi dst n ?u = Ok (int (min (nat n) (length ?q)), t)" "pipe_holds t pi (drop (min (nat n) (length ?q)) ?q)"
    "filled ?u t ?pt (length ps * 4096) dst (take (min (nat n) (length ?q)) ?q)"
    by (rule piperead_spec [OF ru, of pi ?q n dst]) (use W(2) s(4) n wr pt us lq some in auto)
  have lim: "length ps * 4096 \<le> 2 ^ 38" using s(2) by (simp add: may_read_def)
  have "ubyte t ?pt (dst + of_nat j) = ?q ! j" if "j < nat n" for j
  proof -
    have "unat (dst + of_nat j) = unat dst + j" by (rule unat_add_of_nat) (use that n(3) lim in simp)
    then show ?thesis using t(3) that n(3) lq by (simp add: filled_def)
  qed
  then have "ubytes t ?pt dst (nat n) = ?q" by (intro nth_equalityI) (simp_all add: ubytes_def)
  with W(1) t(1,2) lq n(1) show ?thesis by auto
qed

theorem pipe_roundtrip_witness:
  "\<exists>u t. pipewrite 0x87ffa000 0 2 (user_st ((\<lambda>_. None)(0x87ffa000 := Some (demo_pipe\<lparr>pi_nread := 0xffffffff\<rparr>))) ()) = Ok (2, u) \<and>
     piperead 0x87ffa000 8 2 u = Ok (2, t) \<and> pipe_holds t 0x87ffa000 []"
proof -
  let ?s = "user_st ((\<lambda>_. None)(0x87ffa000 := Some (demo_pipe\<lparr>pi_nread := 0xffffffff\<rparr>))) ()"
  have p: "the_pipe 0x87ffa000 ?s = demo_pipe\<lparr>pi_nread := 0xffffffff\<rparr>" by (simp add: the_pipe_def)
  then have w: "may_write ?s 0x87ffa000 0 []" by (intro user_st_may_write) simp
  have h: "pipe_holds ?s 0x87ffa000 []"
    using p by (simp add: pipe_holds_def) (simp add: demo_pipe_def PIPESIZE_def)
  have "\<forall>j<nat 2. ureadable ?s 0x87ffe000 (0 + of_nat j)" "\<forall>j<nat 2. uwritable ?s 0x87ffe000 (8 + of_nat j)"
    by (rule user_st_range, simp)+
  with pipe_roundtrip [OF w user_st_may_read h, of 2 8 0] p show ?thesis by (auto simp: PIPESIZE_def)
qed

text \<open>
  C27: when the reader's buffer cannot be written, \<open>piperead\<close> returns 0 although it has removed a byte from the
  queue: the byte is lost.
\<close>

theorem piperead_loses_byte:
  assumes s: "calm s" "cpu_proc (mycpu s) = Some pr" "free_plocks (procs s)" "pipe_holds s pi (c # q)" "lock_free (pi_lock (the_pipe pi s))"
    "tree_ok s 2 (p_pagetable (procs s ! pr)) fs" and n: "0 < n" "\<not> uwritable s (p_pagetable (procs s ! pr)) addr"
  shows "\<exists>t. piperead pi addr n s = Ok (0, t) \<and> pipe_holds t pi q"
proof -
  let ?l = "pi_lock (the_pipe pi s)" and ?pt = "p_pagetable (procs s ! pr)"
  let ?h = "upd_pipe pi (\<lambda>p. p\<lparr>pi_lock := held_by (tp s) ?l\<rparr>) (push_off s)"
  let ?f = "\<lambda>p. p\<lparr>pi_nread := pi_nread p + 1\<rparr>"
  have some: "pipes s pi \<noteq> None" using s(4) by (simp add: pipe_holds_def)
  have "hart_ok (push_off s) = hart_ok s" using s(1) calm_hart_ok [of s] calm_hart_ok [of "push_off s"] by simp
  then have "tree_ok (push_off s) 2 ?pt fs" using s(6) by (simp add: tree_ok_def kmem_inv_def page_ok_def)
  then have ok: "tree_ok (upd_pipe pi ?f ?h) 2 ?pt fs" by simp
  have "\<not> uwritable (upd_pipe pi ?f ?h) ?pt addr" using n(2) by (simp add: uwritable_def)
  then have co: "copyout ?pt addr [d] (upd_pipe pi ?f ?h) = Ok (-1, upd_pipe pi ?f ?h)" for d
    using copyout_unfold [OF ok, of "[d]" addr] by simp
  have h: "pipe_holds ?h pi (c # q)" using s(4) by (simp add: pipe_holds_upd) (simp add: pipe_holds_def)
  obtain m where m: "nat n = Suc m" using n(1) by (cases "nat n") auto
  have "piperead_loop (nat n) 0 pi pr addr ?h = Ok (0, upd_pipe pi ?f ?h)"
    using pipe_empty [OF h] co unfolding m by (simp add: Let_def)
  moreover have ne: "pi_nread (the_pipe pi s) \<noteq> pi_nwrite (the_pipe pi s)" using pipe_empty [OF s(4)] by simp
  ultimately have "piperead pi addr n s = Ok (0, (upd_pipe pi (\<lambda>p. p\<lparr>pi_nread := pi_nread p + 1, pi_lock := ?l\<rparr>) s)
      \<lparr>procs := woken (chan_nwrite pi) (Some pr) (procs s)\<rparr>)"
    using s some by (simp add: piperead_def release_in_held [where l = ?l])
  moreover have "pipe_holds (upd_pipe pi (\<lambda>p. p\<lparr>pi_nread := pi_nread p + 1, pi_lock := ?l\<rparr>) s) pi q"
    using pipe_get(2) [OF s(4)] by (simp add: pipe_holds_upd)
  ultimately show ?thesis by simp
qed

theorem piperead_loses_byte_witness:
  "\<exists>t. piperead 0x87ffa000 0x1000 1 (user_st demo_pipes ()) = Ok (0, t) \<and> pipe_holds t 0x87ffa000 []"
proof -
  note user_st_beyond [of demo_pipes "()"]
  with piperead_loses_byte [OF _ _ _ demo_pipe_holds, where n = 1 and addr = "0x1000"] space_tree_ok [OF user_st_space] show ?thesis
    by fastforce
qed

end
