(* ===== verification/Logres.thy ===== *)
theory Logres
  imports Logop
begin

text \<open>
  The reservation of log space by \<open>begin_op\<close>: any number of operations share the log, and the blocks that they
  may still log are counted. The first part shows which functions leave the log alone.
\<close>

section \<open>What leaves the log alone\<close>

lemma log_fields_other [simp]:
  "log (bcache_lock_update f s) = log s" "log (upd_proc p g s) = log s" "log (bufs_update h s) = log s"
  "log (disk_update d s) = log s" "log (disk_writes_update w s) = log s"
  by (simp_all add: upd_proc_def)
















lemma link_log [simp]: "log (link_front b s) = log s" "log (unlink b s) = log s"
  by (simp_all add: link_front_def unlink_def Let_def)


section \<open>What the operations do to the log\<close>



lemma write_head_loop_log [simp]: "log (write_head_loop n i b s) = log s"
  by (induction n arbitrary: i s) auto












section \<open>Operations that share the log\<close>










text \<open>The machine after a boot from a disk of 62 blocks with a log of 30 blocks.\<close>

definition idle_log :: log_t where
  "idle_log = \<lparr>lg_lock = initlock ''log'', lg_start = 2, lg_size = 30, lg_outstanding = 0, lg_committing = False,
     lg_dev = 1, lh_n = 0, lh_block = replicate 30 0\<rparr>"

definition idle_st :: log_st where
  "idle_st = binit (boot_st (replicate 62 (replicate BSIZE 0)) (log_st.fields idle_log))"

lemma idle_fields: "log idle_st = idle_log" "disk idle_st = replicate 62 (replicate BSIZE 0)"
  by (simp_all add: idle_st_def log_boot binit_fields [OF boot_bufs])

lemma idle_cache: "cache_inv idle_st 1 0 {} (\<lambda>_. 0)"
  unfolding idle_st_def by (rule cache_inv_boot(1)) simp

lemma idle_txn: "txn idle_st 0 loc []"
  using idle_cache get32_zero [of 0 BSIZE]
  by (simp add: txn_def quiet_def located_def pins_of_empty log_ready_def log_fits_def idle_fields)
    (simp add: idle_log_def NBUF_def BSIZE_def)


text \<open>A sequence of updates of blocks.\<close>

primrec stores :: "(u32 \<times> bytes) list \<Rightarrow> 'a log_st_scheme \<Rightarrow> 'a log_st_scheme outcome" where
  "stores [] s = Ok s"
| "stores (w # ws) s = bnd (log_store (fst w) (snd w) s) (stores ws)"

lemma stores_append: "stores (vs @ ws) s = bnd (stores vs s) (stores ws)"
proof (induction vs arbitrary: s)
  case (Cons v vs)
  then show ?case by (cases "log_store (fst v) (snd v) s") simp_all
qed simp

text \<open>The blocks that are updated have to be outside the log.\<close>

definition homes :: "'a log_st_scheme \<Rightarrow> (u32 \<times> bytes) list \<Rightarrow> bool" where
  "homes s ws \<longleftrightarrow> (\<forall>(n, d)\<in>set ws. unat n < length (disk s) \<and> \<not> in_log (lg_start (log s)) (logsz s) (unat n) \<and> length d = BSIZE)"

lemma stores_fill:
  assumes "in_op s p {} loc L" "homes s ws" "distinct (L @ map fst ws)" "length L + length ws < LOGSIZE" "lg_size (log s) = int LOGSIZE"
  shows "\<exists>t loc'. stores ws s = Ok t \<and> in_op t p {} loc' (L @ map fst ws) \<and> disk t = disk s \<and> lg_start (log t) = lg_start (log s) \<and>
    lg_size (log t) = lg_size (log s)"
  using assms
proof (induction ws arbitrary: s loc L)
  case (Cons w ws)
  obtain n d where w: "w = (n, d)" by force
  have n: "unat n < length (disk s)" "\<not> in_log (lg_start (log s)) (logsz s) (unat n)" "length d = BSIZE"
    using Cons.prems(2) w by (auto simp: homes_def)
  have room: "log_room s L" using Cons.prems(4,5) by (auto simp: log_room_def NBUF_def LOGSIZE_def)
  obtain t loc' where t: "log_store n d s = Ok t" "in_op t p {} loc' (absorb L n)" "disk t = disk s"
    "lg_start (log t) = lg_start (log s)" "lg_size (log t) = lg_size (log s)"
    by (rule log_store_spec [OF Cons.prems(1) room n]) blast
  have a: "absorb L n = L @ [n]" using Cons.prems(3) w by (simp add: absorb_def)
  have "homes t ws" using Cons.prems(2) t(3-5) by (auto simp: homes_def)
  then have "\<exists>u loc''. stores ws t = Ok u \<and> in_op u p {} loc'' ((L @ [n]) @ map fst ws) \<and> disk u = disk t \<and>
      lg_start (log u) = lg_start (log t) \<and> lg_size (log u) = lg_size (log t)"
    using t a Cons.prems w by (intro Cons.IH) auto
  then show ?case using t w by auto
qed auto

lemma store_full:
  assumes t: "in_op s p {} loc L" and n: "unat n < length (disk s)" and L: "length L = LOGSIZE - 1" "lg_size (log s) = int LOGSIZE"
  shows "log_store n d s = Panic ''too big a transaction''"
proof -
  have "card (set L) < NBUF" using L(1) card_length [of L] by (simp add: LOGSIZE_def NBUF_def)
  then obtain b s1 where B: "bread (lg_dev (log s)) n s = Ok (b, s1)" "bio_rest s1 = bio_rest s"
    by (rule bread1 [OF in_op_quiet [OF t] n]) blast
  have "log s1 = log s" by (rule bio_rest_log [OF B(2)])
  moreover have "lock_free (lg_lock (log s))" "lh_n (log s) = int (length L)" using t by (auto simp: in_op_def log_ready_def)
  ultimately show ?thesis using B(1) L by (simp add: log_store_def log_write_def LOGSIZE_def)
qed

text \<open>
  C26: the block that is missing is missed. On a disk whose log has LOGSIZE blocks, as mkfs makes it, three
  operations are let in one after the other by \<open>begin_op\<close>, and together update 30 different blocks, which are no more
  than MAXOPBLOCKS each: 29 updates succeed, and the last one panics.
\<close>

theorem log_reservation_exceeds_log:
  assumes "txn s p loc []" "lock_free (lg_lock (log s))" "length (lh_block (log s)) = LOGSIZE"
    and "lg_outstanding (log s) = 0" "\<not> lg_committing (log s)" "lg_size (log s) = int LOGSIZE"
    and "homes s ws" "distinct (map fst ws)" "int (length ws) = 3 * MAXOPBLOCKS"
  shows "\<exists>u t. bnd (bnd (begin_op s) begin_op) begin_op = Ok u \<and> stores (butlast ws) u = Ok t \<and>
    stores ws u = Panic ''too big a transaction''"
proof -
  let ?u = "upd_log (\<lambda>l. l\<lparr>lg_outstanding := 3\<rparr>) s"
  have q: "quiet s (lg_dev (log s)) p loc {}" and r: "log_ready s []" using assms(1) by (auto simp: txn_def)
  then have "calm s" "lh_n (log s) = 0" using cache_invD(1) by (auto simp: quiet_def log_ready_def)
  then have b: "bnd (bnd (begin_op s) begin_op) begin_op = Ok ?u"
    using assms(2,4,5) by (simp add: begin_op_eq LOGSIZE_def MAXOPBLOCKS_def) (rule upd_log_cong, simp)
  have u: "in_op ?u p {} loc []" using q r assms(2,3) by (simp add: in_op_def quiet_def log_ready_def)
  obtain vs w where ws: "ws = vs @ [w]" using assms(9) by (cases ws rule: rev_cases) (auto simp: MAXOPBLOCKS_def)
  have len: "length vs = LOGSIZE - 1" using assms(9) ws by (simp add: MAXOPBLOCKS_def LOGSIZE_def)
  have h: "homes ?u vs" "unat (fst w) < length (disk s)" using assms(7) ws by (auto simp: homes_def)
  obtain t loc' where t: "stores vs ?u = Ok t" "in_op t p {} loc' (map fst vs)" "disk t = disk s" "lg_size (log t) = int LOGSIZE"
    using stores_fill [OF u h(1)] assms(6,8) ws len by (auto simp: LOGSIZE_def)
  have "log_store (fst w) (snd w) t = Panic ''too big a transaction''"
    by (rule store_full [OF t(2)]) (use h(2) t(3,4) len in simp_all)
  then show ?thesis using b t(1) ws by (intro exI [of _ ?u] exI [of _ t]) (simp add: stores_append)
qed

theorem log_reservation_exceeds_log_witness:
  "\<exists>u t. bnd (bnd (begin_op idle_st) begin_op) begin_op = Ok u \<and>
     stores (butlast (map (\<lambda>i. (of_nat (32 + i), replicate BSIZE 1)) [0..<30])) u = Ok t \<and>
     stores (map (\<lambda>i. (of_nat (32 + i), replicate BSIZE 1)) [0..<30]) u = Panic ''too big a transaction''"
proof (rule log_reservation_exceeds_log [OF idle_txn])
  let ?ws = "map (\<lambda>i. (of_nat (32 + i) :: u32, replicate BSIZE (1 :: u8))) [0..<30]"
  have u: "unat (of_nat (32 + i) :: u32) = 32 + i" if "i < 30" for i using that by (subst unat_of_nat) (simp add: take_bit_nat_eq_self)
  show "homes idle_st ?ws" unfolding homes_def idle_fields by (auto simp: u in_log_def idle_log_def simp del: of_nat_add)
  show "distinct (map fst ?ws)"
    unfolding distinct_map by (auto simp: inj_on_def comp_def simp del: of_nat_add) (metis u add_left_imp_eq)
qed (simp_all add: idle_fields idle_log_def LOGSIZE_def MAXOPBLOCKS_def)

end
