(* ===== verification/Scheduler.thy ===== *)
theory Scheduler
  imports Locks
begin

text \<open>
  The scheduler of kernel/proc.c and the threads it switches between, on any number of harts. The locks of
  the process table keep a process from running on two harts: \<open>scheduler\<close> takes \<open>p->lock\<close> before it
  switches to \<open>p\<close>, the thread of \<open>p\<close> releases it; the thread takes it before it switches back, and
  \<open>scheduler\<close> releases it. \<open>sched_step\<close> interleaves the harts, one critical section or context switch at a
  time.
\<close>

section \<open>The scheduler of one hart\<close>

text \<open>
  The body of the inner loop up to \<open>swtch\<close>: \<open>True\<close> if the hart switches to the thread of process \<open>p\<close>, whose
  lock it keeps.
\<close>

definition scheduler_visit :: "nat \<Rightarrow> 'a proc_st_scheme \<Rightarrow> (bool \<times> 'a proc_st_scheme) outcome" where
  "scheduler_visit p s =
     bnd (acquire_p p s) (\<lambda>s.
       if p_state (procs s ! p) = RUNNABLE
       then let s = upd_proc p (\<lambda>q. q\<lparr>p_state := RUNNING\<rparr>) s
            in Ok (True, set_mycpu ((mycpu s)\<lparr>cpu_proc := Some p\<rparr>) s)
       else bnd (release_p p s) (\<lambda>s. Ok (False, s)))"

text \<open>The rest of the body, after the thread has switched back.\<close>

definition scheduler_back :: "nat \<Rightarrow> 'a proc_st_scheme \<Rightarrow> 'a proc_st_scheme outcome" where
  "scheduler_back p s = release_p p (set_mycpu ((mycpu s)\<lparr>cpu_proc := None\<rparr>) s)"

text \<open>
  \<open>scheduler\<close> from the test \<open>p < &proc[NPROC]\<close> to its next switch to a process, which is the result.
  \<open>wfi\<close> waits for an interrupt, which the clock raises at every tick, and changes nothing. The first
  argument bounds the number of tests.
\<close>

fun scheduler_loop :: "nat \<Rightarrow> nat \<Rightarrow> 'a proc_st_scheme \<Rightarrow> (nat \<times> 'a proc_st_scheme) outcome" where
  "scheduler_loop 0 p s = Blocked"
| "scheduler_loop (Suc n) p s =
     (if p < NPROC
      then bnd (scheduler_visit p s) (\<lambda>(found, s). if found then Ok (p, s) else scheduler_loop n (Suc p) s)
      else scheduler_loop n 0 (intr_on s))"

definition scheduler :: "nat \<Rightarrow> 'a proc_st_scheme \<Rightarrow> (nat \<times> 'a proc_st_scheme) outcome" where
  "scheduler n s =
     (let s = set_mycpu ((mycpu s)\<lparr>cpu_proc := None\<rparr>) s
      in scheduler_loop n 0 (intr_on s))"

section \<open>Threads\<close>

text \<open>
  Where the thread of a process is while it does not run: at the start of \<open>forkret\<close>, or in \<open>sched\<close>, called
  from \<open>yield\<close>, \<open>sleep\<close> or \<open>exit\<close>, with the value of its local variable \<open>intena\<close>.
\<close>

datatype resume_pt = AtForkret | AtYield bool | AtSleep bool | AtExit

text \<open>What the thread does first when it runs again. It has the lock of its process from the scheduler.\<close>

definition thread_resume :: "resume_pt \<Rightarrow> nat \<Rightarrow> 'a proc_st_scheme \<Rightarrow> 'a proc_st_scheme outcome" where
  "thread_resume r p s =
     (case r of
        AtForkret \<Rightarrow> bnd (curproc s) (\<lambda>(p, s). release_p p s)
      | AtYield ena \<Rightarrow> release_p p (sched_in ena s)
      | AtSleep ena \<Rightarrow> release_p p (upd_proc p (\<lambda>q. q\<lparr>p_chan := None\<rparr>) (sched_in ena s))
      | AtExit \<Rightarrow> Panic ''zombie exit'')"

section \<open>What a thread does to the other entries of the process table\<close>

text \<open>The body of the loop of \<open>wakeup\<close>.\<close>

definition wakeup_visit :: "nat \<Rightarrow> chan \<Rightarrow> 'a proc_st_scheme \<Rightarrow> 'a proc_st_scheme outcome" where
  "wakeup_visit p ch s =
     bnd (myproc s) (\<lambda>(me, s).
       if me \<noteq> Some p
       then bnd (acquire_p p s) (\<lambda>s.
            let s = (if p_state (procs s ! p) = SLEEPING \<and> p_chan (procs s ! p) = Some ch
                     then upd_proc p (\<lambda>q. q\<lparr>p_state := RUNNABLE\<rparr>) s else s)
            in release_p p s)
       else Ok s)"

lemma wakeup_loop_visit: "wakeup_loop (Suc n) p ch s = bnd (wakeup_visit p ch s) (wakeup_loop n (Suc p) ch)"
  by (auto simp: wakeup_visit_def Let_def bnd_assoc split: prod.splits intro!: arg_cong [where f = "bnd (myproc s)"])

text \<open>The body of the loop of \<open>kill\<close>: whether the process was found.\<close>

definition kill_visit :: "nat \<Rightarrow> u32 \<Rightarrow> 'a proc_st_scheme \<Rightarrow> (bool \<times> 'a proc_st_scheme) outcome" where
  "kill_visit p pid s =
     bnd (acquire_p p s) (\<lambda>s.
       if p_pid (procs s ! p) = pid
       then let s = upd_proc p (\<lambda>q. q\<lparr>p_killed := 1\<rparr>) s;
                s = (if p_state (procs s ! p) = SLEEPING then upd_proc p (\<lambda>q. q\<lparr>p_state := RUNNABLE\<rparr>) s else s)
            in bnd (release_p p s) (\<lambda>s. Ok (True, s))
       else bnd (release_p p s) (\<lambda>s. Ok (False, s)))"

lemma kill_loop_visit:
  "kill_loop (Suc n) p pid s = bnd (kill_visit p pid s) (\<lambda>(found, s). if found then Ok (0, s) else kill_loop n (Suc p) pid s)"
  by (auto simp: kill_visit_def Let_def bnd_assoc intro!: arg_cong [where f = "bnd (acquire_p p s)"])

text \<open>
  A process is made and removed under its lock: \<open>allocproc\<close> takes an unused entry, \<open>fork\<close> and \<open>userinit\<close>
  make it runnable, \<open>wait\<close> removes a zombie. These are the changes of \<open>p->state\<close> they make; the resources of
  the process are the subject of other theories.
\<close>

definition proc_take :: "nat \<Rightarrow> 'a proc_st_scheme \<Rightarrow> (bool \<times> 'a proc_st_scheme) outcome" where
  "proc_take p s =
     bnd (acquire_p p s) (\<lambda>s.
       if p_state (procs s ! p) = UNUSED
       then bnd (release_p p (upd_proc p (\<lambda>q. q\<lparr>p_state := USED\<rparr>) s)) (\<lambda>s. Ok (True, s))
       else bnd (release_p p s) (\<lambda>s. Ok (False, s)))"

definition proc_start :: "nat \<Rightarrow> 'a proc_st_scheme \<Rightarrow> 'a proc_st_scheme outcome" where
  "proc_start p s = bnd (acquire_p p s) (\<lambda>s. release_p p (upd_proc p (\<lambda>q. q\<lparr>p_state := RUNNABLE\<rparr>) s))"

definition proc_reap :: "nat \<Rightarrow> 'a proc_st_scheme \<Rightarrow> (bool \<times> 'a proc_st_scheme) outcome" where
  "proc_reap p s =
     bnd (acquire_p p s) (\<lambda>s.
       if p_state (procs s ! p) = ZOMBIE
       then bnd (release_p p (upd_proc p (\<lambda>q. q\<lparr>p_chan := None, p_killed := 0, p_xstate := 0, p_pid := 0, p_parent := None,
              p_state := UNUSED\<rparr>) s)) (\<lambda>s. Ok (True, s))
       else bnd (release_p p s) (\<lambda>s. Ok (False, s)))"

section \<open>The harts together\<close>

text \<open>
  \<open>klocks\<close> are the spinlocks of the kernel other than those of the processes and \<open>wait_lock\<close>, by their
  address.
\<close>

record sched_st = proc_st +
  klocks :: "nat \<Rightarrow> spinlock"

datatype lock_id = WaitLock | KLock nat

definition get_lk :: "lock_id \<Rightarrow> 'a sched_st_scheme \<Rightarrow> spinlock" where
  "get_lk l s = (case l of WaitLock \<Rightarrow> wait_lock s | KLock n \<Rightarrow> klocks s n)"

definition upd_lk :: "lock_id \<Rightarrow> (spinlock \<Rightarrow> spinlock) \<Rightarrow> 'a sched_st_scheme \<Rightarrow> 'a sched_st_scheme" where
  "upd_lk l f s = (case l of WaitLock \<Rightarrow> s\<lparr>wait_lock := f (wait_lock s)\<rparr> | KLock n \<Rightarrow> s\<lparr>klocks := (klocks s)(n := f (klocks s n))\<rparr>)"

text \<open>
  What a hart does: it is in the loop of \<open>scheduler\<close> at process \<open>p\<close>; it has switched to the thread of \<open>p\<close>,
  which still holds \<open>p->lock\<close>; it runs that thread; it has switched back from the thread, which holds
  \<open>p->lock\<close>; or it has stopped in a panic.
\<close>

datatype hart_loc = Scanning nat | Resuming nat | InKernel nat | Returning nat | Halted string

record sched_sys =
  kst :: sched_st
  hpc :: "nat \<Rightarrow> hart_loc"
  resume :: "nat \<Rightarrow> resume_pt"

definition at_hart :: "nat \<Rightarrow> 'a hart_st_scheme \<Rightarrow> 'a hart_st_scheme" where
  "at_hart h s = s\<lparr>tp := h\<rparr>"

definition held :: "nat \<Rightarrow> 'a sched_st_scheme \<Rightarrow> lock_id set" where
  "held h s = {l. holding (get_lk l s) (at_hart h s)}"

text \<open>Hart \<open>h\<close> runs code with outcome \<open>r\<close>: it goes on as \<open>next\<close> says, or stops, or spins.\<close>

fun hart_does :: "nat \<Rightarrow> sched_sys \<Rightarrow> 'b outcome \<Rightarrow> ('b \<Rightarrow> sched_sys) \<Rightarrow> sched_sys option" where
  "hart_does h s (Ok x) next = Some (next x)"
| "hart_does h s (Panic e) next = Some (s\<lparr>hpc := (hpc s)(h := Halted e)\<rparr>)"
| "hart_does h s Blocked next = None"

definition goto :: "nat \<Rightarrow> hart_loc \<Rightarrow> sched_st \<Rightarrow> sched_sys \<Rightarrow> sched_sys" where
  "goto h l k s = s\<lparr>kst := k, hpc := (hpc s)(h := l)\<rparr>"

definition suspend :: "nat \<Rightarrow> resume_pt \<Rightarrow> sched_sys \<Rightarrow> sched_sys" where
  "suspend p r s = s\<lparr>resume := (resume s)(p := r)\<rparr>"

text \<open>
  The steps. A thread calls \<open>yield\<close> with no spinlock held, \<open>sleep\<close> with just the lock it passes, and the end of
  \<open>exit\<close> with just \<open>wait_lock\<close>. It takes only locks it does not hold, releases only locks it holds, and
  switches interrupts only with no lock held. Interrupt handlers, which call \<open>wakeup\<close>, run on any hart that
  holds no process lock. \<open>fork\<close> starts only a process that it made itself.
\<close>

inductive sched_step :: "sched_sys \<Rightarrow> sched_sys \<Rightarrow> bool" where
  visit: "hpc s h = Scanning p \<Longrightarrow> p < NPROC \<Longrightarrow>
    hart_does h s (scheduler_visit p (at_hart h (kst s)))
      (\<lambda>(found, k). goto h (if found then Resuming p else Scanning (Suc p)) k s) = Some t \<Longrightarrow> sched_step s t"
| again: "hpc s h = Scanning p \<Longrightarrow> \<not> p < NPROC \<Longrightarrow> sched_step s (goto h (Scanning 0) (intr_on (at_hart h (kst s))) s)"
| resumes: "hpc s h = Resuming p \<Longrightarrow>
    hart_does h s (thread_resume (resume s p) p (at_hart h (kst s))) (\<lambda>k. goto h (InKernel p) k s) = Some t \<Longrightarrow> sched_step s t"
| yields: "hpc s h = InKernel p \<Longrightarrow> held h (kst s) = {} \<Longrightarrow>
    hart_does h s (yield_out (at_hart h (kst s))) (\<lambda>(ena, k). suspend p (AtYield ena) (goto h (Returning p) k s)) = Some t \<Longrightarrow>
    sched_step s t"
| sleeps: "hpc s h = InKernel p \<Longrightarrow> held h (kst s) = {l} \<Longrightarrow>
    hart_does h s (sleep_out ch (get_lk l) (upd_lk l) (at_hart h (kst s)))
      (\<lambda>(ena, k). suspend p (AtSleep ena) (goto h (Returning p) k s)) = Some t \<Longrightarrow> sched_step s t"
| exits: "hpc s h = InKernel p \<Longrightarrow> held h (kst s) = {WaitLock} \<Longrightarrow>
    hart_does h s (exit_end status p (at_hart h (kst s))) (\<lambda>(_, k). suspend p AtExit (goto h (Returning p) k s)) = Some t \<Longrightarrow>
    sched_step s t"
| returns: "hpc s h = Returning p \<Longrightarrow>
    hart_does h s (scheduler_back p (at_hart h (kst s))) (\<lambda>k. goto h (Scanning (Suc p)) k s) = Some t \<Longrightarrow> sched_step s t"
| locks: "hpc s h = InKernel p \<Longrightarrow> l \<notin> held h (kst s) \<Longrightarrow>
    hart_does h s (acquire_in (get_lk l) (upd_lk l) (at_hart h (kst s))) (\<lambda>k. goto h (InKernel p) k s) = Some t \<Longrightarrow> sched_step s t"
| unlocks: "hpc s h = InKernel p \<Longrightarrow> l \<in> held h (kst s) \<Longrightarrow>
    hart_does h s (release_in (get_lk l) (upd_lk l) (at_hart h (kst s))) (\<lambda>k. goto h (InKernel p) k s) = Some t \<Longrightarrow> sched_step s t"
| switches: "hpc s h = InKernel p \<Longrightarrow> held h (kst s) = {} \<Longrightarrow>
    sched_step s (goto h (InKernel p) ((if b then intr_on else intr_off) (at_hart h (kst s))) s)"
| wakes: "hpc s h = InKernel p \<or> hpc s h = Scanning p \<Longrightarrow> q < NPROC \<Longrightarrow>
    hart_does h s (wakeup_visit q ch (at_hart h (kst s))) (\<lambda>k. goto h (hpc s h) k s) = Some t \<Longrightarrow> sched_step s t"
| kills: "hpc s h = InKernel p \<Longrightarrow> q < NPROC \<Longrightarrow>
    hart_does h s (kill_visit q pid (at_hart h (kst s))) (\<lambda>(_, k). goto h (InKernel p) k s) = Some t \<Longrightarrow> sched_step s t"
| takes: "hpc s h = InKernel p \<Longrightarrow> q < NPROC \<Longrightarrow>
    hart_does h s (proc_take q (at_hart h (kst s)))
      (\<lambda>(new, k). (if new then suspend q AtForkret else id) (goto h (InKernel p) k s)) = Some t \<Longrightarrow> sched_step s t"
| starts: "hpc s h = InKernel p \<Longrightarrow> q < NPROC \<Longrightarrow> p_state (procs (kst s) ! q) = USED \<Longrightarrow>
    hart_does h s (proc_start q (at_hart h (kst s))) (\<lambda>k. goto h (InKernel p) k s) = Some t \<Longrightarrow> sched_step s t"
| reaps: "hpc s h = InKernel p \<Longrightarrow> q < NPROC \<Longrightarrow>
    hart_does h s (proc_reap q (at_hart h (kst s))) (\<lambda>(_, k). goto h (InKernel p) k s) = Some t \<Longrightarrow> sched_step s t"

text \<open>
  Boot: \<open>main\<close> has initialised the process table, \<open>userinit\<close> has made the first process runnable, and every
  hart enters \<open>scheduler\<close>.
\<close>

definition sched_boot :: "sched_sys \<Rightarrow> bool" where
  "sched_boot s \<longleftrightarrow> length (procs (kst s)) = NPROC \<and>
     (\<forall>q<NPROC. \<not> locked (p_lock (procs (kst s) ! q)) \<and> p_state (procs (kst s) ! q) = (if q = 0 then RUNNABLE else UNUSED) \<and>
        resume s q = AtForkret) \<and>
     (\<forall>l. \<not> locked (get_lk l (kst s))) \<and>
     (\<forall>h. hpc s h = Scanning 0 \<and> cpu_proc (cpus (kst s) h) = None \<and> noff (cpus (kst s) h) = 0)"

inductive sched_reach :: "sched_sys \<Rightarrow> bool" where
  boot: "sched_boot s \<Longrightarrow> sched_reach s"
| step: "sched_reach s \<Longrightarrow> sched_step s t \<Longrightarrow> sched_reach t"

section \<open>The operations on one hart, as equations\<close>

definition popped :: "'a hart_st_scheme \<Rightarrow> 'a hart_st_scheme" where
  "popped s = (let c = (cpus s (tp s))\<lparr>noff := noff (cpus s (tp s)) - 1\<rparr>
     in s\<lparr>cpus := (cpus s)(tp s := c), sie := (if noff c = 0 \<and> intena c then (sie s)(tp s := True) else sie s)\<rparr>)"

lemma pop_off_popped: "\<not> sie s (tp s) \<Longrightarrow> 1 \<le> noff (cpus s (tp s)) \<Longrightarrow> pop_off s = Ok (popped s)"
  by (simp add: popped_def hart_defs)

lemma popped_fields [simp]:
  "tp (popped s) = tp s" "g \<noteq> tp s \<Longrightarrow> cpus (popped s) g = cpus s g" "g \<noteq> tp s \<Longrightarrow> sie (popped s) g = sie s g"
  "noff (cpus (popped s) g) = noff (cpus s g) - (if g = tp s then 1 else 0)" "cpu_proc (cpus (popped s) g) = cpu_proc (cpus s g)"
  "noff (cpus s (tp s)) \<noteq> 1 \<Longrightarrow> sie (popped s) = sie s"
  by (simp_all add: popped_def Let_def)

lemma popped_sie: "sie (popped s) (tp s) \<Longrightarrow> noff (cpus s (tp s)) = 1 \<or> sie s (tp s)"
  by (simp add: popped_def Let_def split: if_splits)

lemma popped_proc [simp]:
  "procs (popped s) = procs s" "wait_lock (popped s) = wait_lock s"
  by (simp_all add: popped_def Let_def)

lemma popped_klocks [simp]: "klocks (popped s) = klocks s" "klocks (push_off s) = klocks s"
  by (simp_all add: popped_def hart_defs)

lemma push_off_fields [simp]:
  "g \<noteq> tp s \<Longrightarrow> cpus (push_off s) g = cpus s g" "sie (push_off s) g = (g \<noteq> tp s \<and> sie s g)"
  "noff (cpus (push_off s) g) = noff (cpus s g) + (if g = tp s then 1 else 0)" "cpu_proc (cpus (push_off s) g) = cpu_proc (cpus s g)"
  by (simp_all add: hart_defs)

lemma at_hart_fields [simp]:
  "tp (at_hart h s) = h" "cpus (at_hart h s) = cpus s" "sie (at_hart h s) = sie s"
  by (simp_all add: at_hart_def)

lemma at_hart_proc [simp]: "procs (at_hart h s) = procs s" "wait_lock (at_hart h s) = wait_lock s"
  by (simp_all add: at_hart_def)

lemma at_hart_klocks [simp]: "klocks (at_hart h s) = klocks s"
  by (simp add: at_hart_def)

lemma settled_fields [simp]:
  "g \<noteq> tp s \<Longrightarrow> cpus (settled s) g = cpus s g" "sie (settled s) = sie s" "noff (cpus (settled s) g) = noff (cpus s g)"
  "cpu_proc (cpus (settled s) g) = cpu_proc (cpus s g)"
  by (simp_all add: settled_def hart_defs)

lemma settled_proc [simp]: "procs (settled s) = procs s" "wait_lock (settled s) = wait_lock s"
  by (simp_all add: settled_def hart_defs)

lemma settled_klocks [simp]: "klocks (settled s) = klocks s"
  by (simp add: settled_def hart_defs)

lemma upd_proc_fields [simp]:
  "tp (upd_proc p f s) = tp s" "cpus (upd_proc p f s) = cpus s" "sie (upd_proc p f s) = sie s"
  "procs (upd_proc p f s) = (procs s)[p := f (procs s ! p)]" "wait_lock (upd_proc p f s) = wait_lock s"
  by (simp_all add: upd_proc_def)

lemma upd_proc_klocks [simp]: "klocks (upd_proc p f s) = klocks s"
  by (simp add: upd_proc_def)

lemma upd_lk_fields [simp]:
  "tp (upd_lk l f s) = tp s" "cpus (upd_lk l f s) = cpus s" "sie (upd_lk l f s) = sie s" "procs (upd_lk l f s) = procs s"
  by (simp_all add: upd_lk_def split: lock_id.splits)

lemma set_mycpu_fields [simp]:
  "tp (set_mycpu c s) = tp s" "cpus (set_mycpu c s) = (cpus s)(tp s := c)" "sie (set_mycpu c s) = sie s"
  by (simp_all add: set_mycpu_def)

lemma set_mycpu_proc [simp]: "procs (set_mycpu c s) = procs s" "wait_lock (set_mycpu c s) = wait_lock s"
  by (simp_all add: set_mycpu_def)

lemma set_mycpu_klocks [simp]: "klocks (set_mycpu c s) = klocks s"
  by (simp add: set_mycpu_def)

lemma intr_fields [simp]:
  "tp (intr_on s) = tp s" "cpus (intr_on s) = cpus s" "sie (intr_on s) = (sie s)(tp s := True)"
  "tp (intr_off s) = tp s" "cpus (intr_off s) = cpus s" "sie (intr_off s) = (sie s)(tp s := False)"
  by (simp_all add: intr_on_def intr_off_def)

lemma intr_proc [simp]: "procs (intr_on s) = procs s" "wait_lock (intr_on s) = wait_lock s"
  "procs (intr_off s) = procs s" "wait_lock (intr_off s) = wait_lock s"
  by (simp_all add: intr_on_def intr_off_def)

lemma intr_klocks [simp]: "klocks (intr_on s) = klocks s" "klocks (intr_off s) = klocks s"
  by (simp_all add: intr_on_def intr_off_def)

lemma acquire_in_eq:
  "acquire_in get upd s = (if holding (get s) s then Panic ''acquire'' else if locked (get s) then Blocked
     else Ok (upd (\<lambda>_. held_by (tp s) (get s)) (push_off s)))"
  by (simp add: acquire_in_def acquire_def holding_def held_by_def Let_def)

lemma release_in_eq:
  "holding (get s) s \<Longrightarrow> \<not> sie s (tp s) \<Longrightarrow> 1 \<le> noff (cpus s (tp s)) \<Longrightarrow>
   release_in get upd s = Ok (upd (\<lambda>_. (get s)\<lparr>lcpu := None, locked := False\<rparr>) (popped s))"
  by (simp add: release_in_def release_def pop_off_popped)

lemma get_upd_lk [simp]: "get_lk l' (upd_lk l f s) = (if l' = l then f (get_lk l s) else get_lk l' s)"
  by (simp add: get_lk_def upd_lk_def split: lock_id.splits)

lemma get_lk_cong: "wait_lock s = wait_lock t \<Longrightarrow> klocks s = klocks t \<Longrightarrow> get_lk l s = get_lk l t"
  by (simp add: get_lk_def split: lock_id.split)

lemma get_lk_other [simp]:
  "get_lk l (push_off s) = get_lk l s" "get_lk l (popped s) = get_lk l s" "get_lk l (at_hart h s) = get_lk l s"
  "get_lk l (settled s) = get_lk l s" "get_lk l (upd_proc p f s) = get_lk l s" "get_lk l (set_mycpu c s) = get_lk l s"
  "get_lk l (intr_on s) = get_lk l s" "get_lk l (intr_off s) = get_lk l s"
  by (rule get_lk_cong; simp)+

lemma held_iff: "l \<in> held h s \<longleftrightarrow> locked (get_lk l s) \<and> lcpu (get_lk l s) = Some h"
  by (simp add: held_def holding_def)

lemma held_cong: "(\<And>l. get_lk l s = get_lk l t) \<Longrightarrow> held h s = held h t"
  by (auto simp: held_iff)

section \<open>The invariant\<close>

fun on_proc :: "hart_loc \<Rightarrow> nat option" where
  "on_proc (Resuming p) = Some p" | "on_proc (InKernel p) = Some p" | "on_proc (Returning p) = Some p" | "on_proc _ = None"

fun keeps :: "hart_loc \<Rightarrow> nat option" where
  "keeps (Resuming p) = Some p" | "keeps (Returning p) = Some p" | "keeps _ = None"

fun runs_proc :: "hart_loc \<Rightarrow> nat option" where
  "runs_proc (Resuming p) = Some p" | "runs_proc (InKernel p) = Some p" | "runs_proc _ = None"

definition hart_part :: "sched_sys \<Rightarrow> nat \<Rightarrow> bool" where
  "hart_part s h \<longleftrightarrow> cpu_proc (cpus (kst s) h) = on_proc (hpc s h) \<and> finite (held h (kst s)) \<and>
     noff (cpus (kst s) h) = int (card (held h (kst s))) + (if keeps (hpc s h) = None then 0 else 1) \<and>
     (0 < noff (cpus (kst s) h) \<longrightarrow> \<not> sie (kst s) h) \<and>
     (case hpc s h of InKernel p \<Rightarrow> True | Halted e \<Rightarrow> False | _ \<Rightarrow> held h (kst s) = {}) \<and>
     (\<forall>p. on_proc (hpc s h) = Some p \<longrightarrow> p < NPROC)"

definition proc_part :: "sched_sys \<Rightarrow> nat \<Rightarrow> bool" where
  "proc_part s q \<longleftrightarrow> (locked (p_lock (procs (kst s) ! q)) \<longleftrightarrow> (\<exists>h. keeps (hpc s h) = Some q)) \<and>
     (\<forall>h. keeps (hpc s h) = Some q \<longrightarrow> lcpu (p_lock (procs (kst s) ! q)) = Some h) \<and>
     (p_state (procs (kst s) ! q) = RUNNING \<longleftrightarrow> (\<exists>h. runs_proc (hpc s h) = Some q)) \<and>
     (p_state (procs (kst s) ! q) \<noteq> ZOMBIE \<longrightarrow> p_state (procs (kst s) ! q) \<noteq> UNUSED \<longrightarrow> resume s q \<noteq> AtExit)"

definition sched_inv :: "sched_sys \<Rightarrow> bool" where
  "sched_inv s \<longleftrightarrow> length (procs (kst s)) = NPROC \<and> (\<forall>h. hart_part s h) \<and> (\<forall>q<NPROC. proc_part s q) \<and>
     (\<forall>h h' q. on_proc (hpc s h) = Some q \<longrightarrow> on_proc (hpc s h') = Some q \<longrightarrow> h = h')"

lemma sched_boot_inv: "sched_boot s \<Longrightarrow> sched_inv s"
proof -
  assume b: "sched_boot s"
  then have "held h (kst s) = {}" for h by (auto simp: sched_boot_def held_iff)
  with b show ?thesis by (auto simp: sched_inv_def sched_boot_def hart_part_def proc_part_def)
qed

text \<open>A step of hart \<open>h\<close> that touches only process \<open>q\<close> keeps the rest of the invariant.\<close>

lemma sched_inv_frame:
  assumes I: "sched_inv s" and t: "hpc t = (hpc s)(h := l)"
    and H: "hart_part t h" "\<And>g. g \<noteq> h \<Longrightarrow> cpus (kst t) g = cpus (kst s) g \<and> sie (kst t) g = sie (kst s) g \<and> held g (kst t) = held g (kst s)"
    and P: "q < NPROC \<Longrightarrow> proc_part t q" "length (procs (kst t)) = NPROC"
      "\<And>q'. q' \<noteq> q \<Longrightarrow> procs (kst t) ! q' = procs (kst s) ! q' \<and> resume t q' = resume s q' \<and>
         (keeps l = Some q' \<longleftrightarrow> keeps (hpc s h) = Some q') \<and> (runs_proc l = Some q' \<longleftrightarrow> runs_proc (hpc s h) = Some q') \<and>
         (on_proc l = Some q' \<longleftrightarrow> on_proc (hpc s h) = Some q')"
    and U: "on_proc l = Some q \<Longrightarrow> on_proc (hpc s h) = Some q \<or> (\<forall>g. g \<noteq> h \<longrightarrow> on_proc (hpc s g) \<noteq> Some q)"
  shows "sched_inv t"
proof -
  have "hart_part t g" for g
  proof (cases "g = h")
    case False
    have "hart_part s g" using I by (simp add: sched_inv_def)
    then show ?thesis using H(2) [OF False] t False by (simp add: hart_part_def split: hart_loc.splits)
  qed (use H(1) in simp)
  moreover have "proc_part t q'" if "q' < NPROC" for q'
  proof (cases "q' = q")
    case False
    have k: "keeps (hpc t g) = Some q' \<longleftrightarrow> keeps (hpc s g) = Some q'" "runs_proc (hpc t g) = Some q' \<longleftrightarrow> runs_proc (hpc s g) = Some q'" for g
      using P(3) [OF False] t by auto
    have "proc_part s q'" using I that by (simp add: sched_inv_def)
    then show ?thesis using P(3) [OF False] unfolding proc_part_def k by simp
  qed (use P(1) that in simp)
  moreover have "g = g'" if "on_proc (hpc t g) = Some p" "on_proc (hpc t g') = Some p" for g g' p
  proof -
    have u: "a = b" if "on_proc (hpc s a) = Some p" "on_proc (hpc s b) = Some p" for a b using I that by (simp add: sched_inv_def)
    show ?thesis
    proof (cases "p = q")
      case True
      then show ?thesis using that u U t by (auto split: if_splits)
    next
      case False
      then show ?thesis using that u P(3) [OF False] t by (auto split: if_splits)
    qed
  qed
  ultimately show ?thesis using P(2) by (auto simp: sched_inv_def)
qed

lemma sched_invD:
  assumes "sched_inv s"
  shows "length (procs (kst s)) = NPROC" "hart_part s h" "q < NPROC \<Longrightarrow> proc_part s q"
    "on_proc (hpc s h) = Some q \<Longrightarrow> on_proc (hpc s h') = Some q \<Longrightarrow> h = h'"
  using assms by (auto simp: sched_inv_def)

lemma hart_fits:
  assumes "sched_inv s"
  shows "0 \<le> noff (cpus (kst s) h)" "0 < noff (cpus (kst s) h) \<Longrightarrow> \<not> sie (kst s) h" "cpu_proc (cpus (kst s) h) = on_proc (hpc s h)"
    "hart_ok (at_hart h (kst s))"
  using sched_invD(2) [OF assms, of h] by (auto simp: hart_part_def hart_ok_def mycpu_def intr_get_def)

section \<open>A section on the lock of a process\<close>

definition taken :: "nat \<Rightarrow> 'a proc_st_scheme \<Rightarrow> 'a proc_st_scheme" where
  "taken q k = upd_proc q (\<lambda>x. x\<lparr>p_lock := held_by (tp k) (p_lock (procs k ! q))\<rparr>) (push_off k)"

definition given :: "nat \<Rightarrow> (proc \<Rightarrow> proc) \<Rightarrow> 'a proc_st_scheme \<Rightarrow> 'a proc_st_scheme" where
  "given q f k = upd_proc q (\<lambda>x. x\<lparr>p_lock := (p_lock (procs k ! q))\<lparr>lcpu := None, locked := False\<rparr>\<rparr>) (popped (upd_proc q f (taken q k)))"

lemma acquire_p_taken:
  "\<not> holding (p_lock (procs k ! q)) k \<Longrightarrow> acquire_p q k = (if locked (p_lock (procs k ! q)) then Blocked else Ok (taken q k))"
  by (simp add: acquire_in_eq taken_def)

lemma release_p_given:
  assumes "q < length (procs k)" "\<And>x. p_lock (f x) = p_lock x" "0 \<le> noff (cpus k (tp k))" "\<not> locked (p_lock (procs k ! q))"
  shows "release_p q (upd_proc q f (taken q k)) = Ok (given q f k)"
  using assms by (subst release_in_eq) (simp_all add: taken_def given_def holding_def held_by_def)

lemma release_p_taken:
  assumes "q < length (procs k)" "0 \<le> noff (cpus k (tp k))" "\<not> locked (p_lock (procs k ! q))"
  shows "release_p q (taken q k) = Ok (given q id k)"
proof -
  have "taken q k = upd_proc q id (taken q k)" by (simp add: upd_proc_def)
  then show ?thesis using release_p_given [OF assms(1) _ assms(2,3), of id] by simp
qed

text \<open>\<open>swept h k k'\<close>: apart from the process table, hart \<open>h\<close> has changed at most its interrupt state.\<close>

definition swept :: "nat \<Rightarrow> 'a sched_st_scheme \<Rightarrow> 'a sched_st_scheme \<Rightarrow> bool" where
  "swept h k k' \<longleftrightarrow> (\<forall>g. g \<noteq> h \<longrightarrow> cpus k' g = cpus k g \<and> sie k' g = sie k g) \<and> cpu_proc (cpus k' h) = cpu_proc (cpus k h) \<and>
     noff (cpus k' h) = noff (cpus k h) \<and> (0 < noff (cpus k' h) \<longrightarrow> \<not> sie k' h) \<and> (\<forall>l. get_lk l k' = get_lk l k)"

lemma swept_trans: "swept h k k' \<Longrightarrow> swept h k' k'' \<Longrightarrow> swept h k k''"
  by (simp add: swept_def)

lemma swept_held: "swept h k k' \<Longrightarrow> held g k' = held g k"
  by (rule held_cong) (simp add: swept_def)

lemma taken_fields [simp]:
  "tp (taken q k) = tp k" "g \<noteq> tp k \<Longrightarrow> cpus (taken q k) g = cpus k g" "sie (taken q k) g = (g \<noteq> tp k \<and> sie k g)"
  "noff (cpus (taken q k) g) = noff (cpus k g) + (if g = tp k then 1 else 0)" "cpu_proc (cpus (taken q k) g) = cpu_proc (cpus k g)"
  "procs (taken q k) = (procs k)[q := (procs k ! q)\<lparr>p_lock := held_by (tp k) (p_lock (procs k ! q))\<rparr>]"
  by (simp_all add: taken_def)

lemma get_lk_taken [simp]: "get_lk l (taken q k) = get_lk l k"
  by (simp add: taken_def)

lemma given_swept: "0 \<le> noff (cpus k (tp k)) \<Longrightarrow> swept (tp k) k (given q f k)"
proof -
  assume n: "0 \<le> noff (cpus k (tp k))"
  have "noff (cpus k (tp k)) = 0" if "sie (popped (upd_proc q f (taken q k))) (tp k)"
    using popped_sie [of "upd_proc q f (taken q k)"] that by simp
  with n show ?thesis unfolding swept_def given_def by auto
qed

lemma given_procs: "q < length (procs k) \<Longrightarrow> procs (given q f k) =
    (procs k)[q := (f ((procs k ! q)\<lparr>p_lock := held_by (tp k) (p_lock (procs k ! q))\<rparr>))\<lparr>p_lock := (p_lock (procs k ! q))\<lparr>lcpu := None, locked := False\<rparr>\<rparr>]"
  by (simp add: given_def)

lemma settled_swept: "hart_ok k \<Longrightarrow> swept (tp k) k (settled k)"
  by (auto simp: swept_def hart_ok_def mycpu_def intr_get_def)

text \<open>A section leaves the invariant if it keeps whether the process runs_proc.\<close>

lemma section_inv:
  assumes I: "sched_inv s" and l: "on_proc l = on_proc (hpc s h)" "keeps l = None" "keeps (hpc s h) = None" "runs_proc l = runs_proc (hpc s h)"
      "case l of InKernel p \<Rightarrow> True | Halted e \<Rightarrow> False | _ \<Rightarrow> held h (kst s) = {}"
    and k: "swept h (kst s) k" "procs k = (procs (kst s))[q := x]"
    and x: "q < NPROC \<Longrightarrow> \<not> locked (p_lock x)" "q < NPROC \<Longrightarrow> \<not> locked (p_lock (procs (kst s) ! q))"
      "q < NPROC \<Longrightarrow> p_state x = RUNNING \<longleftrightarrow> p_state (procs (kst s) ! q) = RUNNING"
      "q < NPROC \<Longrightarrow> p_state x \<noteq> ZOMBIE \<Longrightarrow> p_state x \<noteq> UNUSED \<Longrightarrow> r \<noteq> AtExit"
  shows "sched_inv (suspend q r (goto h l k s))"
proof (rule sched_inv_frame [OF I, where h = h and l = l and q = q])
  let ?t = "suspend q r (goto h l k s)"
  note H = sched_invD(2) [OF I, of h] and L = sched_invD(1) [OF I]
  show "hpc ?t = (hpc s)(h := l)" by (simp add: suspend_def goto_def)
  show "hart_part ?t h" using H l swept_held [OF k(1), of h] k(1) by (auto simp: hart_part_def suspend_def goto_def swept_def split: hart_loc.splits)
  show "cpus (kst ?t) g = cpus (kst s) g \<and> sie (kst ?t) g = sie (kst s) g \<and> held g (kst ?t) = held g (kst s)" if "g \<noteq> h" for g
    using that swept_held [OF k(1), of g] k(1) by (simp add: suspend_def goto_def swept_def)
  show "length (procs (kst ?t)) = NPROC" using L k by (simp add: suspend_def goto_def)
  show "proc_part ?t q" if q: "q < NPROC"
  proof -
    have "runs_proc (hpc ?t g) = runs_proc (hpc s g)" "keeps (hpc ?t g) = keeps (hpc s g)" for g using l by (simp_all add: suspend_def goto_def)
    with sched_invD(3) [OF I q] x q k(2) L show ?thesis unfolding proc_part_def by (simp add: suspend_def goto_def)
  qed
qed (use l k in \<open>auto simp: suspend_def goto_def\<close>)

section \<open>Every step keeps the invariant\<close>

lemma suspend_same [simp]: "suspend q (resume s q) (goto h l k s) = goto h l k s"
  by (simp add: suspend_def goto_def)

text \<open>A hart that holds no process lock can take that of \<open>q\<close> if no other hart holds it.\<close>

lemma not_holding_plock:
  assumes I: "sched_inv s" and l: "keeps (hpc s h) = None" and q: "q < NPROC"
  shows "\<not> holding (p_lock (procs (kst s) ! q)) (at_hart h k)"
  using sched_invD(3) [OF I q] l by (auto simp: holding_def proc_part_def)

lemma section_eqs:
  assumes I: "sched_inv s" and l: "keeps (hpc s h) = None" and q: "q < NPROC" and k: "k = at_hart h (kst s) \<or> k = settled (at_hart h (kst s))"
  shows "acquire_p q k = (if locked (p_lock (procs (kst s) ! q)) then Blocked else Ok (taken q k))"
    "\<not> locked (p_lock (procs (kst s) ! q)) \<Longrightarrow> (\<And>x. p_lock (f x) = p_lock x) \<Longrightarrow> release_p q (upd_proc q f (taken q k)) = Ok (given q f k)"
    "\<not> locked (p_lock (procs (kst s) ! q)) \<Longrightarrow> release_p q (taken q k) = Ok (given q id k)"
    "swept h (kst s) (given q f k)" "procs k = procs (kst s)" "tp k = h"
    "procs (given q f k) = (procs (kst s))[q := (f ((procs (kst s) ! q)\<lparr>p_lock := held_by h (p_lock (procs (kst s) ! q))\<rparr>))
       \<lparr>p_lock := (p_lock (procs (kst s) ! q))\<lparr>lcpu := None, locked := False\<rparr>\<rparr>]"
proof -
  have n: "0 \<le> noff (cpus k (tp k))" and p: "procs k = procs (kst s)" and t: "tp k = h" and L: "q < length (procs k)"
    using k hart_fits(1) [OF I, of h] sched_invD(1) [OF I] q by auto
  have nh: "\<not> holding (p_lock (procs k ! q)) k" using not_holding_plock [OF I l q] p t by (auto simp: holding_def)
  show "acquire_p q k = (if locked (p_lock (procs (kst s) ! q)) then Blocked else Ok (taken q k))"
    using acquire_p_taken [OF nh] p by simp
  show "release_p q (upd_proc q f (taken q k)) = Ok (given q f k)" if "\<not> locked (p_lock (procs (kst s) ! q))" "\<And>x. p_lock (f x) = p_lock x"
    using release_p_given [OF L that(2) n] that(1) p by simp
  show "release_p q (taken q k) = Ok (given q id k)" if "\<not> locked (p_lock (procs (kst s) ! q))"
    using release_p_taken [OF L n] that(1) p by simp
  have "swept h (kst s) k"
    using k hart_fits(2) [OF I, of h] settled_swept [OF hart_fits(4) [OF I, of h]] by (auto simp: swept_def)
  from swept_trans [OF this] show "swept h (kst s) (given q f k)" using given_swept [OF n, of q f] t by simp
  show "procs (given q f k) = (procs (kst s))[q := (f ((procs (kst s) ! q)\<lparr>p_lock := held_by h (p_lock (procs (kst s) ! q))\<rparr>))
       \<lparr>p_lock := (p_lock (procs (kst s) ! q))\<lparr>lcpu := None, locked := False\<rparr>\<rparr>]"
    using given_procs [OF L, of f] p t by simp
qed (use k in auto)

lemma idle_held: "sched_inv s \<Longrightarrow> hpc s h = Scanning p \<Longrightarrow> held h (kst s) = {}"
  using sched_invD(2) [of s h] by (simp add: hart_part_def)

text \<open>Sections of a hart that scans or runs a thread.\<close>

lemma plain_section_inv:
  assumes I: "sched_inv s" and l: "hpc s h = InKernel p \<and> l = InKernel p \<or> hpc s h = Scanning p \<and> l = Scanning p'"
    and q: "q < NPROC" "\<not> locked (p_lock (procs (kst s) ! q))"
    and k: "k = at_hart h (kst s) \<or> k = settled (at_hart h (kst s))"
    and f: "\<And>y. p_state (f ((procs (kst s) ! q)\<lparr>p_lock := y\<rparr>)) = RUNNING \<longleftrightarrow> p_state (procs (kst s) ! q) = RUNNING"
      "\<And>y. p_state (f ((procs (kst s) ! q)\<lparr>p_lock := y\<rparr>)) \<noteq> ZOMBIE \<Longrightarrow> p_state (f ((procs (kst s) ! q)\<lparr>p_lock := y\<rparr>)) \<noteq> UNUSED \<Longrightarrow> r \<noteq> AtExit"
  shows "sched_inv (suspend q r (goto h l (given q f k) s))"
proof -
  have kn: "keeps (hpc s h) = None" using l by auto
  note E = section_eqs [OF I kn q(1) k]
  show ?thesis
    by (rule section_inv [OF I _ _ _ _ _ E(4) E(7)]) (use l q f idle_held [OF I] in auto)
qed

lemma quiet_inv:
  assumes I: "sched_inv s" and l: "on_proc l = on_proc (hpc s h)" "keeps l = None" "keeps (hpc s h) = None" "runs_proc l = runs_proc (hpc s h)"
      "case l of InKernel p \<Rightarrow> True | Halted e \<Rightarrow> False | _ \<Rightarrow> held h (kst s) = {}"
    and k: "swept h (kst s) k" "procs k = procs (kst s)"
  shows "sched_inv (goto h l k s)"
proof -
  have "procs k = (procs (kst s))[NPROC := undefined]" using k(2) sched_invD(1) [OF I] by (simp add: list_update_beyond)
  from section_inv [OF I l k(1) this, of "resume s NPROC"] show ?thesis by simp
qed

lemma myproc_settled: "hart_ok k \<Longrightarrow> myproc k = Ok (cpu_proc (cpus k (tp k)), settled k)"
  by (simp add: myproc_def Let_def pop_push) (simp add: hart_defs)

lemma curproc_settled: "hart_ok k \<Longrightarrow> cpu_proc (cpus k (tp k)) = Some p \<Longrightarrow> curproc k = Ok (p, settled k)"
  by (simp add: curproc_def myproc_settled)

lemma not_exited:
  assumes "sched_inv s" "q < NPROC" "p_state (procs (kst s) ! q) \<noteq> ZOMBIE" "p_state (procs (kst s) ! q) \<noteq> UNUSED"
  shows "resume s q \<noteq> AtExit"
  using sched_invD(3) [OF assms(1,2)] assms(3,4) by (simp add: proc_part_def)

lemma wakes_inv:
  assumes I: "sched_inv s" and h: "hpc s h = InKernel p \<or> hpc s h = Scanning p" "q < NPROC"
    and t: "hart_does h s (wakeup_visit q ch (at_hart h (kst s))) (\<lambda>k. goto h (hpc s h) k s) = Some t"
  shows "sched_inv t"
proof -
  let ?k = "settled (at_hart h (kst s))"
  have kn: "keeps (hpc s h) = None" using h by auto
  note E = section_eqs [OF I kn h(2), of ?k]
  have m: "myproc (at_hart h (kst s)) = Ok (on_proc (hpc s h), ?k)" using hart_fits(3,4) [OF I, of h] by (simp add: myproc_settled)
  show ?thesis
  proof (cases "on_proc (hpc s h) = Some q")
    case True
    have "swept h (kst s) ?k" using E(4,5) hart_fits(2) [OF I, of h] by (auto simp: swept_def)
    then have "sched_inv (goto h (hpc s h) ?k s)" using h kn idle_held [OF I] by (intro quiet_inv [OF I]) auto
    then show ?thesis using t m True by (simp add: wakeup_visit_def)
  next
    case False
    have sec: "sched_inv (goto h (hpc s h) (given q f ?k) s)" if "\<not> locked (p_lock (procs (kst s) ! q))"
      "p_state (procs (kst s) ! q) = SLEEPING \<and> f = p_state_update (\<lambda>_. RUNNABLE) \<or> f = id" for f
      using plain_section_inv [OF I _ h(2) that(1), of h p "hpc s h" p ?k f "resume s q"] h that not_exited [OF I h(2)]
      by auto
    then show ?thesis using t m False E sched_invD(1) [OF I] h(2) by (auto simp: wakeup_visit_def Let_def split: if_splits)
  qed
qed

lemma kills_inv:
  assumes I: "sched_inv s" and h: "hpc s h = InKernel p" "q < NPROC"
    and t: "hart_does h s (kill_visit q pid (at_hart h (kst s))) (\<lambda>(_, k). goto h (InKernel p) k s) = Some t"
  shows "sched_inv t"
proof -
  let ?k = "at_hart h (kst s)" and ?x = "procs (kst s) ! q"
  have kn: "keeps (hpc s h) = None" using h by simp
  note E = section_eqs [OF I kn h(2), of ?k]
  have sec: "sched_inv (goto h (InKernel p) (given q f ?k) s)" if "\<not> locked (p_lock ?x)"
    "f = id \<or> f = p_killed_update (\<lambda>_. 1) \<or> p_state ?x = SLEEPING \<and> f = (\<lambda>y. y\<lparr>p_killed := 1, p_state := RUNNABLE\<rparr>)" for f
    using plain_section_inv [OF I _ h(2) that(1), of h p "InKernel p" p ?k f "resume s q"] h that not_exited [OF I h(2)] by auto
  have c: "upd_proc q (p_state_update (\<lambda>_. RUNNABLE)) (upd_proc q (p_killed_update (\<lambda>_. 1)) (taken q ?k)) =
      upd_proc q (\<lambda>y. y\<lparr>p_killed := 1, p_state := RUNNABLE\<rparr>) (taken q ?k)"
    using h(2) sched_invD(1) [OF I] by (simp add: upd_proc_def)
  show ?thesis using t E c sec sched_invD(1) [OF I] h(2) by (auto simp: kill_visit_def Let_def split: if_splits)
qed

lemma takes_inv:
  assumes I: "sched_inv s" and h: "hpc s h = InKernel p" "q < NPROC"
    and t: "hart_does h s (proc_take q (at_hart h (kst s)))
      (\<lambda>(new, k). (if new then suspend q AtForkret else id) (goto h (InKernel p) k s)) = Some t"
  shows "sched_inv t"
proof -
  let ?k = "at_hart h (kst s)" and ?x = "procs (kst s) ! q"
  have kn: "keeps (hpc s h) = None" using h by simp
  note E = section_eqs [OF I kn h(2), of ?k]
  have "sched_inv (suspend q AtForkret (goto h (InKernel p) (given q (p_state_update (\<lambda>_. USED)) ?k) s))"
    if "\<not> locked (p_lock ?x)" "p_state ?x = UNUSED"
    using plain_section_inv [OF I _ h(2) that(1), of h p "InKernel p" p ?k "p_state_update (\<lambda>_. USED)" AtForkret] h that by simp
  moreover have "sched_inv (goto h (InKernel p) (given q id ?k) s)" if "\<not> locked (p_lock ?x)"
    using plain_section_inv [OF I _ h(2) that(1), of h p "InKernel p" p ?k id "resume s q"] h that not_exited [OF I h(2)] by simp
  ultimately show ?thesis using t E sched_invD(1) [OF I] h(2) by (auto simp: proc_take_def split: if_splits)
qed

lemma starts_inv:
  assumes I: "sched_inv s" and h: "hpc s h = InKernel p" "q < NPROC" "p_state (procs (kst s) ! q) = USED"
    and t: "hart_does h s (proc_start q (at_hart h (kst s))) (\<lambda>k. goto h (InKernel p) k s) = Some t"
  shows "sched_inv t"
proof -
  let ?k = "at_hart h (kst s)" and ?x = "procs (kst s) ! q"
  have kn: "keeps (hpc s h) = None" using h by simp
  note E = section_eqs [OF I kn h(2), of ?k]
  have "sched_inv (goto h (InKernel p) (given q (p_state_update (\<lambda>_. RUNNABLE)) ?k) s)" if "\<not> locked (p_lock ?x)"
    using plain_section_inv [OF I _ h(2) that(1), of h p "InKernel p" p ?k "p_state_update (\<lambda>_. RUNNABLE)" "resume s q"] h
      not_exited [OF I h(2)] by simp
  then show ?thesis using t E by (auto simp: proc_start_def split: if_splits)
qed

lemma reaps_inv:
  assumes I: "sched_inv s" and h: "hpc s h = InKernel p" "q < NPROC"
    and t: "hart_does h s (proc_reap q (at_hart h (kst s))) (\<lambda>(_, k). goto h (InKernel p) k s) = Some t"
  shows "sched_inv t"
proof -
  let ?k = "at_hart h (kst s)" and ?x = "procs (kst s) ! q"
  let ?f = "\<lambda>x. x\<lparr>p_chan := None, p_killed := 0, p_xstate := 0, p_pid := 0, p_parent := None, p_state := UNUSED\<rparr>"
  have kn: "keeps (hpc s h) = None" using h by simp
  note E = section_eqs [OF I kn h(2), of ?k]
  have "sched_inv (goto h (InKernel p) (given q ?f ?k) s)" if "\<not> locked (p_lock ?x)" "p_state ?x = ZOMBIE"
    using plain_section_inv [OF I _ h(2) that(1), of h p "InKernel p" p ?k ?f "resume s q"] h that by simp
  moreover have "sched_inv (goto h (InKernel p) (given q id ?k) s)" if "\<not> locked (p_lock ?x)"
    using plain_section_inv [OF I _ h(2) that(1), of h p "InKernel p" p ?k id "resume s q"] h that not_exited [OF I h(2)] by simp
  ultimately show ?thesis using t E sched_invD(1) [OF I] h(2) by (auto simp: proc_reap_def split: if_splits)
qed

lemma nobody_on:
  assumes "sched_inv s" "q < NPROC" "\<not> locked (p_lock (procs (kst s) ! q))" "p_state (procs (kst s) ! q) \<noteq> RUNNING"
  shows "on_proc (hpc s g) \<noteq> Some q"
proof -
  have "keeps (hpc s g) \<noteq> Some q" "runs_proc (hpc s g) \<noteq> Some q"
    using sched_invD(3) [OF assms(1,2)] assms(3,4) unfolding proc_part_def by blast+
  then show ?thesis by (cases "hpc s g") simp_all
qed

lemma visit_inv:
  assumes I: "sched_inv s" and h: "hpc s h = Scanning p" "p < NPROC"
    and t: "hart_does h s (scheduler_visit p (at_hart h (kst s)))
      (\<lambda>(found, k). goto h (if found then Resuming p else Scanning (Suc p)) k s) = Some t"
  shows "sched_inv t"
proof (cases "p_state (procs (kst s) ! p) = RUNNABLE")
  case False
  let ?k = "at_hart h (kst s)"
  have kn: "keeps (hpc s h) = None" using h by simp
  note E = section_eqs [OF I kn h(2), of ?k]
  have "sched_inv (goto h (Scanning (Suc p)) (given p id ?k) s)" if "\<not> locked (p_lock (procs (kst s) ! p))"
    using plain_section_inv [OF I _ h(2) that(1), of h p "Scanning (Suc p)" "Suc p" ?k id "resume s p"] h that not_exited [OF I h(2)] by simp
  then show ?thesis using t E False sched_invD(1) [OF I] h(2) by (auto simp: scheduler_visit_def split: if_splits)
next
  case True
  let ?k = "at_hart h (kst s)" and ?x = "procs (kst s) ! p"
  have kn: "keeps (hpc s h) = None" using h by simp
  note E = section_eqs [OF I kn h(2), of ?k] and L = sched_invD(1) [OF I]
  let ?k1 = "upd_proc p (p_state_update (\<lambda>_. RUNNING)) (taken p ?k)"
  let ?k2 = "set_mycpu ((mycpu ?k1)\<lparr>cpu_proc := Some p\<rparr>) ?k1"
  have eq: "t = goto h (Resuming p) ?k2 s" and fr: "\<not> locked (p_lock ?x)"
    using t E True L h(2) by (auto simp: scheduler_visit_def Let_def split: if_splits)
  have H: "hart_part s h" by (rule sched_invD(2) [OF I])
  have P: "proc_part s p" by (rule sched_invD(3) [OF I h(2)])
  show ?thesis unfolding eq
  proof (rule sched_inv_frame [OF I, where h = h and l = "Resuming p" and q = p])
    have "held g ?k2 = held g (kst s)" for g by (rule held_cong) simp
    then show "hart_part (goto h (Resuming p) ?k2 s) h"
      "\<And>g. g \<noteq> h \<Longrightarrow> cpus (kst (goto h (Resuming p) ?k2 s)) g = cpus (kst s) g \<and> sie (kst (goto h (Resuming p) ?k2 s)) g = sie (kst s) g \<and>
        held g (kst (goto h (Resuming p) ?k2 s)) = held g (kst s)"
      using H h by (simp_all add: hart_part_def goto_def mycpu_def)
    show "proc_part (goto h (Resuming p) ?k2 s) p"
      using P fr True L h not_exited [OF I h(2)] by (auto simp: proc_part_def goto_def held_by_def)
  qed (use L h nobody_on [OF I h(2) fr] True in \<open>auto simp: goto_def\<close>)
qed

text \<open>A hart releases the process lock that it kept across the switch.\<close>

lemma leave_inv:
  assumes I: "sched_inv s" and l: "hpc s h = Resuming p \<and> l = InKernel p \<or> hpc s h = Returning p \<and> l = Scanning (Suc p)"
    and k: "tp k = h" "\<And>g. g \<noteq> h \<Longrightarrow> cpus k g = cpus (kst s) g" "sie k = sie (kst s)" "cpu_proc (cpus k h) = on_proc l"
      "noff (cpus k h) = noff (cpus (kst s) h)" "\<And>l. get_lk l k = get_lk l (kst s)" "procs k = (procs (kst s))[p := x]"
    and x: "p_lock x = p_lock (procs (kst s) ! p)" "p_state x = p_state (procs (kst s) ! p)"
  shows "\<exists>k'. release_p p k = Ok k' \<and> sched_inv (goto h l k' s)"
proof -
  let ?k = "upd_proc p (\<lambda>x. x\<lparr>p_lock := (p_lock (procs k ! p))\<lparr>lcpu := None, locked := False\<rparr>\<rparr>) (popped k)"
  have H: "hart_part s h" and L: "length (procs (kst s)) = NPROC" by (rule sched_invD [OF I])+
  have p: "p < NPROC" using H l by (auto simp: hart_part_def)
  have P: "proc_part s p" by (rule sched_invD(3) [OF I p])
  have n: "noff (cpus (kst s) h) = 1" "held h (kst s) = {}" "\<not> sie (kst s) h" using H l by (auto simp: hart_part_def)
  have kp: "keeps (hpc s h) = Some p" using l by auto
  have lk: "locked (p_lock (procs (kst s) ! p))" "lcpu (p_lock (procs (kst s) ! p)) = Some h"
    using P kp unfolding proc_part_def by blast+
  have r: "release_p p k = Ok ?k" using lk n k x p L by (subst release_in_eq) (simp_all add: holding_def)
  have hd: "held g ?k = held g (kst s)" for g by (rule held_cong) (simp add: k)
  let ?t = "goto h l ?k s"
  have "g = h" if "keeps (hpc s g) = Some p" for g
    using that sched_invD(4) [OF I, of g p h] l by (cases "hpc s g") auto
  then have nk: "keeps (hpc ?t g) \<noteq> Some p" for g using l by (cases "g = h") (auto simp: goto_def)
  have nr: "runs_proc (hpc ?t g) = runs_proc (hpc s g)" for g using l by (cases "g = h") (auto simp: goto_def)
  have pp: "procs (kst ?t) ! p = x\<lparr>p_lock := (p_lock x)\<lparr>lcpu := None, locked := False\<rparr>\<rparr>" "resume ?t = resume s"
    using L p k by (simp_all add: goto_def)
  have "sched_inv ?t"
  proof (rule sched_inv_frame [OF I, where h = h and l = l and q = p])
    show "hart_part ?t h" using n k hd l p by (auto simp: hart_part_def goto_def)
    show "proc_part ?t p" using P x nk unfolding proc_part_def nr pp by simp
    show "hpc ?t = (hpc s)(h := l)" "length (procs (kst ?t)) = NPROC" using L k by (simp_all add: goto_def)
    show "cpus (kst ?t) g = cpus (kst s) g \<and> sie (kst ?t) g = sie (kst s) g \<and> held g (kst ?t) = held g (kst s)" if "g \<noteq> h" for g
      using that k hd by (simp add: goto_def)
    show "procs (kst ?t) ! q' = procs (kst s) ! q' \<and> resume ?t q' = resume s q' \<and> (keeps l = Some q') = (keeps (hpc s h) = Some q') \<and>
        (runs_proc l = Some q') = (runs_proc (hpc s h) = Some q') \<and> (on_proc l = Some q') = (on_proc (hpc s h) = Some q')" if "q' \<noteq> p" for q'
      using l k that by (auto simp: goto_def)
  qed (use l in auto)
  with r show ?thesis by blast
qed

lemma resumes_inv:
  assumes I: "sched_inv s" and h: "hpc s h = Resuming p"
    and t: "hart_does h s (thread_resume (resume s p) p (at_hart h (kst s))) (\<lambda>k. goto h (InKernel p) k s) = Some t"
  shows "sched_inv t"
proof -
  let ?k = "at_hart h (kst s)" and ?x = "procs (kst s) ! p"
  have H: "hart_part s h" and L: "length (procs (kst s)) = NPROC" by (rule sched_invD [OF I])+
  have p: "p < NPROC" and c: "cpu_proc (cpus (kst s) h) = Some p" and n: "noff (cpus (kst s) h) = 1" using H h by (auto simp: hart_part_def)
  have run: "p_state ?x = RUNNING" using sched_invD(3) [OF I p] h unfolding proc_part_def by (metis runs_proc.simps(1))
  have go: "\<exists>k'. release_p p k = Ok k' \<and> sched_inv (goto h (InKernel p) k' s)" if "tp k = h" "\<And>g. g \<noteq> h \<Longrightarrow> cpus k g = cpus (kst s) g"
    "sie k = sie (kst s)" "cpu_proc (cpus k h) = Some p" "noff (cpus k h) = 1" "\<And>l. get_lk l k = get_lk l (kst s)"
    "procs k = (procs (kst s))[p := x]" "p_lock x = p_lock ?x" "p_state x = p_state ?x" for k x
    using leave_inv [OF I, of h p "InKernel p" k x] h that n by simp
  have id: "(procs (kst s))[p := ?x] = procs (kst s)" by simp
  have cp: "curproc ?k = Ok (p, settled ?k)" using c hart_fits(4) [OF I, of h] by (simp add: curproc_settled)
  show ?thesis
  proof (cases "resume s p")
    case AtForkret
    obtain k' where "release_p p (settled ?k) = Ok k'" "sched_inv (goto h (InKernel p) k' s)"
      using go [of "settled ?k" ?x] c n by auto
    then show ?thesis using t cp AtForkret by (simp add: thread_resume_def)
  next
    case (AtYield e)
    obtain k' where "release_p p (sched_in e ?k) = Ok k'" "sched_inv (goto h (InKernel p) k' s)"
      using go [of "sched_in e ?k" ?x] c n by (auto simp: sched_in_def mycpu_def)
    then show ?thesis using t AtYield by (simp add: thread_resume_def)
  next
    case (AtSleep e)
    obtain k' where "release_p p (upd_proc p (\<lambda>q. q\<lparr>p_chan := None\<rparr>) (sched_in e ?k)) = Ok k'" "sched_inv (goto h (InKernel p) k' s)"
      using go [of "upd_proc p (\<lambda>q. q\<lparr>p_chan := None\<rparr>) (sched_in e ?k)" "?x\<lparr>p_chan := None\<rparr>"] c n by (auto simp: sched_in_def mycpu_def)
    then show ?thesis using t AtSleep by (simp add: thread_resume_def)
  next
    case AtExit
    then show ?thesis using not_exited [OF I p] run by simp
  qed
qed

lemma returns_inv:
  assumes I: "sched_inv s" and h: "hpc s h = Returning p"
    and t: "hart_does h s (scheduler_back p (at_hart h (kst s))) (\<lambda>k. goto h (Scanning (Suc p)) k s) = Some t"
  shows "sched_inv t"
proof -
  let ?k = "set_mycpu ((mycpu (at_hart h (kst s)))\<lparr>cpu_proc := None\<rparr>) (at_hart h (kst s))"
  obtain k' where "release_p p ?k = Ok k'" "sched_inv (goto h (Scanning (Suc p)) k' s)"
    using leave_inv [OF I, of h p "Scanning (Suc p)" ?k "procs (kst s) ! p"] h by (auto simp: mycpu_def)
  then show ?thesis using t by (simp add: scheduler_back_def)
qed

text \<open>A thread that has the lock of its process switches back to the scheduler.\<close>

lemma sched_out_eq:
  assumes "cpu_proc (cpus k (tp k)) = Some p" "holding (p_lock (procs k ! p)) k" "noff (cpus k (tp k)) = 1" "\<not> sie k (tp k)"
    "p_state (procs k ! p) \<noteq> RUNNING"
  shows "sched_out k = Ok (intena (cpus k (tp k)), k)"
proof -
  have "hart_ok k" "settled k = k" using assms by (simp_all add: hart_ok_def mycpu_def intr_get_def settled_def)
  then have "curproc k = Ok (p, k)" using curproc_settled [of k p] assms(1) by simp
  then show ?thesis using assms by (simp add: sched_out_def mycpu_def intr_get_def)
qed

lemma enter_inv:
  assumes I: "sched_inv s" and h: "hpc s h = InKernel p" "\<not> locked (p_lock (procs (kst s) ! p))"
    and k: "\<And>g. g \<noteq> h \<Longrightarrow> cpus k g = cpus (kst s) g \<and> sie k g = sie (kst s) g \<and> held g k = held g (kst s)" "cpu_proc (cpus k h) = Some p"
      "noff (cpus k h) = 1" "\<not> sie k h" "held h k = {}" "procs k = (procs (kst s))[p := x]"
    and x: "locked (p_lock x)" "lcpu (p_lock x) = Some h" "p_state x \<noteq> RUNNING" "r = AtExit \<longrightarrow> p_state x = ZOMBIE"
  shows "sched_inv (suspend p r (goto h (Returning p) k s))"
proof -
  let ?t = "suspend p r (goto h (Returning p) k s)"
  have H: "hart_part s h" and L: "length (procs (kst s)) = NPROC" by (rule sched_invD [OF I])+
  have p: "p < NPROC" using H h by (auto simp: hart_part_def)
  have only: "on_proc (hpc s g) \<noteq> Some p" if "g \<noteq> h" for g using sched_invD(4) [OF I, of g p h] h that by auto
  then have o: "keeps (hpc s g) \<noteq> Some p" "runs_proc (hpc s g) \<noteq> Some p" if "g \<noteq> h" for g using that by (cases "hpc s g"; fastforce)+
  then have kr: "keeps (hpc ?t g) = Some p \<longleftrightarrow> g = h" "runs_proc (hpc ?t g) \<noteq> Some p" for g
    by (auto simp: suspend_def goto_def)
  have pp: "procs (kst ?t) ! p = x" "resume ?t p = r" using L p k by (simp_all add: suspend_def goto_def)
  show ?thesis
  proof (rule sched_inv_frame [OF I, where h = h and l = "Returning p" and q = p])
    show "hpc ?t = (hpc s)(h := Returning p)" "length (procs (kst ?t)) = NPROC" using L k by (simp_all add: suspend_def goto_def)
    show "hart_part ?t h" using k p by (simp add: hart_part_def suspend_def goto_def)
    show "proc_part ?t p" using x kr(2) unfolding proc_part_def kr(1) pp by auto
    show "procs (kst ?t) ! q' = procs (kst s) ! q' \<and> resume ?t q' = resume s q' \<and> (keeps (Returning p) = Some q') = (keeps (hpc s h) = Some q') \<and>
        (runs_proc (Returning p) = Some q') = (runs_proc (hpc s h) = Some q') \<and> (on_proc (Returning p) = Some q') = (on_proc (hpc s h) = Some q')"
      if "q' \<noteq> p" for q'
      using h k that by (simp add: suspend_def goto_def)
    show "cpus (kst ?t) g = cpus (kst s) g \<and> sie (kst ?t) g = sie (kst s) g \<and> held g (kst ?t) = held g (kst s)" if "g \<noteq> h" for g
      using k(1) [OF that] by (simp add: suspend_def goto_def)
  qed (use h in simp)
qed

lemma thread_facts:
  assumes "sched_inv s" "hpc s h = InKernel p"
  shows "p < NPROC" "cpu_proc (cpus (kst s) h) = Some p" "noff (cpus (kst s) h) = int (card (held h (kst s)))" "finite (held h (kst s))"
    "0 < noff (cpus (kst s) h) \<Longrightarrow> \<not> sie (kst s) h" "p_state (procs (kst s) ! p) = RUNNING"
    "curproc (at_hart h (kst s)) = Ok (p, settled (at_hart h (kst s)))"
proof -
  have H: "hart_part s h" by (rule sched_invD [OF assms(1)])
  then show p: "p < NPROC" and c: "cpu_proc (cpus (kst s) h) = Some p"
    and "noff (cpus (kst s) h) = int (card (held h (kst s)))" "finite (held h (kst s))"
    "0 < noff (cpus (kst s) h) \<Longrightarrow> \<not> sie (kst s) h" using assms(2) by (auto simp: hart_part_def)
  show "p_state (procs (kst s) ! p) = RUNNING" using sched_invD(3) [OF assms(1) p] assms(2) unfolding proc_part_def by (metis runs_proc.simps(2))
  show "curproc (at_hart h (kst s)) = Ok (p, settled (at_hart h (kst s)))"
    using c hart_fits(4) [OF assms(1), of h] by (simp add: curproc_settled)
qed

lemma yields_inv:
  assumes I: "sched_inv s" and h: "hpc s h = InKernel p" "held h (kst s) = {}"
    and t: "hart_does h s (yield_out (at_hart h (kst s))) (\<lambda>(ena, k). suspend p (AtYield ena) (goto h (Returning p) k s)) = Some t"
  shows "sched_inv t"
proof -
  let ?k = "settled (at_hart h (kst s))" and ?x = "procs (kst s) ! p"
  note T = thread_facts [OF I h(1)] and L = sched_invD(1) [OF I]
  note E = section_eqs [OF I _ T(1), of h ?k]
  let ?k1 = "upd_proc p (p_state_update (\<lambda>_. RUNNABLE)) (taken p ?k)"
  have "held g ?k1 = held g (kst s)" for g by (rule held_cong) simp
  moreover have "sched_out ?k1 = Ok (intena (cpus ?k1 h), ?k1)"
    using sched_out_eq [of ?k1 p] T h L by (simp add: holding_def held_by_def)
  ultimately show ?thesis using t T h L E(1)
      enter_inv [OF I h(1), of ?k1 "?x\<lparr>p_lock := held_by h (p_lock ?x), p_state := RUNNABLE\<rparr>" "AtYield (intena (cpus ?k1 h))"]
    by (auto simp: yield_out_def held_by_def split: if_splits)
qed

text \<open>The lock that the caller holds is released after that of the process is taken.\<close>

lemma swap_locks:
  assumes I: "sched_inv s" and h: "hpc s h = InKernel p" "held h (kst s) = {l}" and fr: "\<not> locked (p_lock (procs (kst s) ! p))"
    and k: "k = upd_proc p f (taken p (settled (at_hart h (kst s))))"
  defines "k' \<equiv> upd_lk l (\<lambda>_. (get_lk l (kst s))\<lparr>lcpu := None, locked := False\<rparr>) (popped k)"
  shows "release_in (get_lk l) (upd_lk l) k = Ok k'" "tp k' = h" "procs k' = procs k"
    "\<And>g. g \<noteq> h \<Longrightarrow> cpus k' g = cpus (kst s) g \<and> sie k' g = sie (kst s) g \<and> held g k' = held g (kst s)"
    "cpu_proc (cpus k' h) = Some p" "noff (cpus k' h) = 1" "\<not> sie k' h" "held h k' = {}"
proof -
  note T = thread_facts [OF I h(1)]
  have n: "noff (cpus (kst s) h) = 1" "\<not> sie (kst s) h" using T(3,5) h(2) by simp_all
  have l: "locked (get_lk l (kst s))" "lcpu (get_lk l (kst s)) = Some h" using h(2) by (auto simp: held_iff set_eq_iff)
  show "release_in (get_lk l) (upd_lk l) k = Ok k'" unfolding k'_def k
    using n l by (subst release_in_eq) (simp_all add: holding_def)
  show "tp k' = h" "procs k' = procs k" by (simp_all add: k'_def k)
  have "held g k' = held g (kst s) - {l}" for g unfolding set_eq_iff by (auto simp: held_iff k'_def k)
  moreover have "l \<notin> held g (kst s)" if "g \<noteq> h" for g using l that by (simp add: held_iff)
  ultimately show "cpus k' g = cpus (kst s) g \<and> sie k' g = sie (kst s) g \<and> held g k' = held g (kst s)" if "g \<noteq> h" for g
    using that by (simp add: k'_def k)
  show "held h k' = {}" using \<open>\<And>g. held g k' = held g (kst s) - {l}\<close> [of h] h(2) by simp
  show "cpu_proc (cpus k' h) = Some p" "noff (cpus k' h) = 1" using T(2) n by (simp_all add: k'_def k)
  have "sie (popped k) = sie k" by (rule popped_fields(6)) (simp add: k n)
  then show "\<not> sie k' h" by (simp add: k'_def k)
qed

lemma sleeps_inv:
  assumes I: "sched_inv s" and h: "hpc s h = InKernel p" "held h (kst s) = {l}"
    and t: "hart_does h s (sleep_out ch (get_lk l) (upd_lk l) (at_hart h (kst s)))
      (\<lambda>(ena, k). suspend p (AtSleep ena) (goto h (Returning p) k s)) = Some t"
  shows "sched_inv t"
proof (cases "locked (p_lock (procs (kst s) ! p))")
  case True
  note T = thread_facts [OF I h(1)]
  show ?thesis using t T section_eqs(1) [OF I _ T(1), of h "settled (at_hart h (kst s))"] h True by (simp add: sleep_out_def)
next
  case False
  let ?k = "settled (at_hart h (kst s))" and ?x = "procs (kst s) ! p"
  note T = thread_facts [OF I h(1)] and L = sched_invD(1) [OF I]
  note E = section_eqs(1) [OF I _ T(1), of h ?k]
  have up: "upd_proc p id (taken p ?k) = taken p ?k" by (simp add: upd_proc_def)
  note W = swap_locks [OF I h False refl, where f = id, unfolded up]
  let ?k1 = "upd_lk l (\<lambda>_. (get_lk l (kst s))\<lparr>lcpu := None, locked := False\<rparr>) (popped (taken p ?k))"
  let ?k2 = "upd_proc p (\<lambda>q. q\<lparr>p_chan := Some ch, p_state := SLEEPING\<rparr>) ?k1"
  have hd: "held g ?k2 = held g ?k1" for g by (rule held_cong) simp
  have so: "sched_out ?k2 = Ok (intena (cpus ?k2 (tp ?k2)), ?k2)"
    by (rule sched_out_eq [where p = p]) (use T L W in \<open>simp_all add: holding_def held_by_def\<close>)
  have "sched_inv (suspend p (AtSleep e) (goto h (Returning p) ?k2 s))" for e
    by (rule enter_inv [OF I h(1) False, where x = "?x\<lparr>p_lock := held_by h (p_lock ?x), p_chan := Some ch, p_state := SLEEPING\<rparr>"])
      (use W(4-8) hd T(1) L in \<open>simp_all add: held_by_def\<close>)
  then show ?thesis using t T E False W(1) so h(1) by (auto simp: sleep_out_def)
qed

lemma wait_lock_lk: "wait_lock = get_lk WaitLock" "wait_lock_update = upd_lk WaitLock"
  by (simp_all add: get_lk_def upd_lk_def fun_eq_iff)

lemma exits_inv:
  assumes I: "sched_inv s" and h: "hpc s h = InKernel p" "held h (kst s) = {WaitLock}"
    and t: "hart_does h s (exit_end status p (at_hart h (kst s))) (\<lambda>(_, k). suspend p AtExit (goto h (Returning p) k s)) = Some t"
  shows "sched_inv t"
proof (cases "locked (p_lock (procs (kst s) ! p))")
  case True
  note T = thread_facts [OF I h(1)]
  show ?thesis using t T section_eqs(1) [OF I _ T(1), of h "at_hart h (kst s)"] h True by (simp add: exit_end_def)
next
  case False
  let ?k = "at_hart h (kst s)" and ?x = "procs (kst s) ! p"
  let ?f = "\<lambda>q. q\<lparr>p_xstate := status, p_state := ZOMBIE\<rparr>"
  note T = thread_facts [OF I h(1)] and L = sched_invD(1) [OF I]
  note E = section_eqs(1) [OF I _ T(1), of h ?k]
  have se: "settled ?k = ?k" using T(3) h(2) by (simp add: settled_def mycpu_def)
  note W = swap_locks [OF I h False refl, where f = ?f, unfolded se]
  let ?k1 = "upd_lk WaitLock (\<lambda>_. (get_lk WaitLock (kst s))\<lparr>lcpu := None, locked := False\<rparr>) (popped (upd_proc p ?f (taken p ?k)))"
  have so: "sched_out ?k1 = Ok (intena (cpus ?k1 (tp ?k1)), ?k1)"
    by (rule sched_out_eq [where p = p]) (use T L W in \<open>simp_all add: holding_def held_by_def\<close>)
  have "sched_inv (suspend p AtExit (goto h (Returning p) ?k1 s))"
    by (rule enter_inv [OF I h(1) False, where x = "?x\<lparr>p_lock := held_by h (p_lock ?x), p_xstate := status, p_state := ZOMBIE\<rparr>"])
      (use W(4-8) T(1) L in \<open>simp_all add: held_by_def\<close>)
  then show ?thesis using t E False W(1) so h(1) by (auto simp: exit_end_def Let_def wait_lock_lk)
qed

text \<open>Other locks, and the interrupt switch.\<close>

lemma lock_inv:
  assumes I: "sched_inv s" and h: "hpc s h = InKernel p"
    and k: "procs k = procs (kst s)" "\<And>g. g \<noteq> h \<Longrightarrow> cpus k g = cpus (kst s) g \<and> sie k g = sie (kst s) g \<and> held g k = held g (kst s)"
      "cpu_proc (cpus k h) = Some p" "finite (held h k)" "noff (cpus k h) = int (card (held h k))" "0 < noff (cpus k h) \<longrightarrow> \<not> sie k h"
  shows "sched_inv (goto h (InKernel p) k s)"
proof (rule sched_inv_frame [OF I, where h = h and l = "InKernel p" and q = NPROC])
  show "hart_part (goto h (InKernel p) k s) h" using k thread_facts(1) [OF I h] by (simp add: hart_part_def goto_def)
qed (use k h sched_invD(1) [OF I] in \<open>auto simp: goto_def\<close>)

lemma locks_inv:
  assumes I: "sched_inv s" and h: "hpc s h = InKernel p" "l \<notin> held h (kst s)"
    and t: "hart_does h s (acquire_in (get_lk l) (upd_lk l) (at_hart h (kst s))) (\<lambda>k. goto h (InKernel p) k s) = Some t"
  shows "sched_inv t"
proof -
  let ?k = "upd_lk l (\<lambda>_. held_by h (get_lk l (kst s))) (push_off (at_hart h (kst s)))"
  note T = thread_facts [OF I h(1)]
  have t: "t = goto h (InKernel p) ?k s" and fr: "\<not> locked (get_lk l (kst s))"
    using t h(2) by (auto simp: acquire_in_eq holding_def held_iff split: if_splits)
  have "held g ?k = (if g = h then insert l (held g (kst s)) else held g (kst s))" for g
    using fr unfolding set_eq_iff by (auto simp: held_iff held_by_def)
  then show ?thesis unfolding t using T h by (intro lock_inv [OF I h(1)]) simp_all
qed

lemma unlocks_inv:
  assumes I: "sched_inv s" and h: "hpc s h = InKernel p" "l \<in> held h (kst s)"
    and t: "hart_does h s (release_in (get_lk l) (upd_lk l) (at_hart h (kst s))) (\<lambda>k. goto h (InKernel p) k s) = Some t"
  shows "sched_inv t"
proof -
  let ?k = "upd_lk l (\<lambda>_. (get_lk l (kst s))\<lparr>lcpu := None, locked := False\<rparr>) (popped (at_hart h (kst s)))"
  note T = thread_facts [OF I h(1)]
  have c: "1 \<le> card (held h (kst s))" using T(4) h(2) by (metis One_nat_def Suc_leI card_gt_0_iff empty_iff)
  have n: "1 \<le> noff (cpus (kst s) h)" "\<not> sie (kst s) h" using c T(3,5) by simp_all
  have t: "t = goto h (InKernel p) ?k s" using t h(2) n by (simp add: release_in_eq holding_def held_iff)
  have "held g ?k = held g (kst s) - {l}" for g unfolding set_eq_iff by (auto simp: held_iff)
  moreover have "l \<notin> held g (kst s)" if "g \<noteq> h" for g using h(2) that by (simp add: held_iff)
  moreover have "noff (cpus (kst s) h) = 1" if "sie (popped (at_hart h (kst s))) h" using popped_sie [of "at_hart h (kst s)"] that n by simp
  ultimately show ?thesis unfolding t using T h c by (intro lock_inv [OF I h(1)]) auto
qed

lemma switches_inv:
  assumes I: "sched_inv s" and h: "hpc s h = InKernel p" "held h (kst s) = {}"
  shows "sched_inv (goto h (InKernel p) ((if b then intr_on else intr_off) (at_hart h (kst s))) s)"
  using thread_facts [OF I h(1)] h by (intro quiet_inv [OF I]) (auto simp: swept_def)

lemma again_inv:
  assumes I: "sched_inv s" and h: "hpc s h = Scanning p"
  shows "sched_inv (goto h (Scanning 0) (intr_on (at_hart h (kst s))) s)"
proof -
  have "noff (cpus (kst s) h) = 0" using sched_invD(2) [OF I, of h] h by (simp add: hart_part_def)
  then show ?thesis using h idle_held [OF I h] by (intro quiet_inv [OF I]) (auto simp: swept_def)
qed

lemma sched_step_inv:
  assumes "sched_step s t" and I: "sched_inv s"
  shows "sched_inv t"
  using assms(1)
proof (cases rule: sched_step.cases)
  case (visit h p)
  then show ?thesis by (rule visit_inv [OF I])
next
  case (again h p)
  then show ?thesis using again_inv [OF I] by simp
next
  case (resumes h p)
  then show ?thesis by (rule resumes_inv [OF I])
next
  case (yields h p)
  then show ?thesis by (rule yields_inv [OF I])
next
  case (sleeps h p l ch)
  then show ?thesis by (rule sleeps_inv [OF I])
next
  case (exits h p status)
  then show ?thesis by (rule exits_inv [OF I])
next
  case (returns h p)
  then show ?thesis by (rule returns_inv [OF I])
next
  case (locks h p l)
  then show ?thesis by (rule locks_inv [OF I])
next
  case (unlocks h p l)
  then show ?thesis by (rule unlocks_inv [OF I])
next
  case (switches h p b)
  show ?thesis unfolding switches(1) by (rule switches_inv [OF I switches(2,3)])
next
  case (wakes h p q ch)
  then show ?thesis by (rule wakes_inv [OF I])
next
  case (kills h p q pid)
  then show ?thesis by (rule kills_inv [OF I])
next
  case (takes h p q)
  then show ?thesis by (rule takes_inv [OF I])
next
  case (starts h p q)
  then show ?thesis by (rule starts_inv [OF I])
next
  case (reaps h p q)
  then show ?thesis by (rule reaps_inv [OF I])
qed

lemma sched_reach_inv: "sched_reach s \<Longrightarrow> sched_inv s"
  by (induction rule: sched_reach.induct) (auto intro: sched_boot_inv sched_step_inv)

section \<open>The scheduler finds a runnable process\<close>

lemma visit_skips:
  assumes "hart_ok s" "lock_free (p_lock (procs s ! p))" "p < length (procs s)" "p_state (procs s ! p) \<noteq> RUNNABLE"
  shows "scheduler_visit p s = Ok (False, settled s)"
proof -
  have a: "acquire_p p s = Ok (upd_plock p (\<lambda>_. held_by (tp s) (p_lock (procs s ! p))) (push_off s))" using assms(2) by simp
  have "release_p p (upd_plock p (\<lambda>_. held_by (tp s) (p_lock (procs s ! p))) (push_off s)) =
      bnd (pop_off (upd_plock p (\<lambda>_. held_by (tp s) (p_lock (procs s ! p))) (push_off s))) (\<lambda>t. Ok (upd_plock p (\<lambda>_. p_lock (procs s ! p)) t))"
    using assms by (intro release_in_held) simp_all
  also have "\<dots> = Ok (settled s)" using assms pop_push [OF assms(1)] by (simp add: upd_proc_def)
  finally show ?thesis using a assms by (simp add: scheduler_visit_def)
qed

lemma visit_picks:
  assumes "lock_free (p_lock (procs s ! p))" "p < length (procs s)" "p_state (procs s ! p) = RUNNABLE"
  shows "\<exists>t. scheduler_visit p s = Ok (True, t) \<and> tp t = tp s \<and> cpu_proc (mycpu t) = Some p \<and>
    procs t = (procs s)[p := (procs s ! p)\<lparr>p_lock := held_by (tp s) (p_lock (procs s ! p)), p_state := RUNNING\<rparr>]"
  using assms by (simp add: scheduler_visit_def Let_def mycpu_def)

lemma loop_skips:
  assumes "hart_ok s" "free_plocks (procs s)" "\<forall>r. p \<le> r \<and> r < p + k \<longrightarrow> p_state (procs s ! r) \<noteq> RUNNABLE" "p + k \<le> NPROC"
  shows "scheduler_loop (k + n) p s = scheduler_loop n (p + k) (if k = 0 then s else settled s)"
  using assms
proof (induction k arbitrary: p s)
  case (Suc k)
  have v: "scheduler_visit p s = Ok (False, settled s)"
    by (rule visit_skips) (use Suc.prems in \<open>auto simp: free_plocks_def\<close>)
  have "scheduler_loop (k + n) (Suc p) (settled s) = scheduler_loop n (Suc p + k) (settled s)"
    using Suc.IH [of "settled s" "Suc p"] Suc.prems by simp
  then show ?case using v Suc.prems by simp
qed simp

section \<open>A concrete system\<close>

definition fresh_proc :: proc where
  "fresh_proc = \<lparr>p_lock = initlock ''proc'', p_state = UNUSED, p_chan = None, p_killed = 0, p_xstate = 0, p_pid = 0, p_parent = None, p_kstack = 0,
     p_sz = 0, p_pagetable = 0, p_trapframe = 0, p_context = \<lparr>ctx_ra = 0, ctx_sp = 0, ctx_s = []\<rparr>, p_ofile = [], p_cwd = None, p_name = [],
     p_trace_mask = 0\<rparr>"

definition demo_sched :: "proc list \<Rightarrow> sched_st" where
  "demo_sched ps = \<lparr>tp = 0, cpus = (\<lambda>_. \<lparr>cpu_proc = None, noff = 0, intena = False\<rparr>), sie = (\<lambda>_. True), kend = 0, kmem_lock = initlock ''kmem'',
     freelist = 0, phys = (\<lambda>_. 0), etext = 0, trampoline = 0, kernel_pagetable = 0, satp = (\<lambda>_. 0), procs = ps, initproc = Some 0,
     nextpid = 2, pid_lock = initlock ''nextpid'', wait_lock = initlock ''wait_lock'', forkret_pc = 0, klocks = (\<lambda>_. initlock ''lock'')\<rparr>"

definition demo_sys :: sched_sys where
  "demo_sys = \<lparr>kst = demo_sched ((replicate NPROC fresh_proc)[0 := fresh_proc\<lparr>p_state := RUNNABLE\<rparr>]),
     hpc = (\<lambda>_. Scanning 0), resume = (\<lambda>_. AtForkret)\<rparr>"

lemma demo_boot: "sched_boot demo_sys"
  by (simp add: sched_boot_def demo_sys_def demo_sched_def fresh_proc_def get_lk_def initlock_def NPROC_def nth_list_update split: lock_id.split)

lemma demo_running: "\<exists>s. sched_reach s \<and> hpc s 3 = Resuming 0 \<and> hpc s 4 = Scanning 0"
proof -
  have z: "0 < NPROC" by (simp add: NPROC_def)
  obtain k where k: "scheduler_visit 0 (at_hart 3 (kst demo_sys)) = Ok (True, k)"
    using visit_picks [of "at_hart 3 (kst demo_sys)" 0] z
    by (auto simp: demo_sys_def demo_sched_def fresh_proc_def nth_list_update)
  have "sched_step demo_sys (goto 3 (Resuming 0) k demo_sys)"
    by (rule sched_step.visit [of _ 3 0]) (use k z in \<open>simp_all add: demo_sys_def\<close>)
  then have "sched_reach (goto 3 (Resuming 0) k demo_sys)" using demo_boot by (blast intro: sched_reach.intros)
  then show ?thesis by (intro exI [of _ "goto 3 (Resuming 0) k demo_sys"]) (simp add: goto_def demo_sys_def)
qed

section \<open>Properties\<close>

text \<open>
  C2: a process runs on at most one hart. Whatever the interleaving of the harts, at most one of them is
  on the thread of a process, from the switch to it until the scheduler has released the lock of the process;
  a process is in state RUNNING exactly while a hart runs it, so that a process that another thread wakes,
  kills, takes or reaps is on no hart; and its lock is held exactly across the context switches.
\<close>

theorem one_hart_per_process:
  assumes "sched_reach s" "q < NPROC"
  shows "(\<forall>h h'. on_proc (hpc s h) = Some q \<longrightarrow> on_proc (hpc s h') = Some q \<longrightarrow> h = h') \<and>
    (p_state (procs (kst s) ! q) = RUNNING \<longleftrightarrow> (\<exists>h. runs_proc (hpc s h) = Some q)) \<and>
    (locked (p_lock (procs (kst s) ! q)) \<longleftrightarrow> (\<exists>h. keeps (hpc s h) = Some q))"
  using sched_reach_inv [OF assms(1)] assms(2) by (simp add: sched_inv_def proc_part_def)

theorem one_hart_per_process_witness:
  "\<exists>s. sched_reach s \<and> runs_proc (hpc s 3) = Some 0 \<and> p_state (procs (kst s) ! 0) = RUNNING \<and> (\<forall>h. on_proc (hpc s h) = Some 0 \<longrightarrow> h = 3)"
proof -
  obtain s where s: "sched_reach s" "hpc s 3 = Resuming 0" using demo_running by blast
  have z: "0 < NPROC" by (simp add: NPROC_def)
  note T = one_hart_per_process [OF s(1) z]
  have "runs_proc (hpc s 3) = Some 0" "on_proc (hpc s 3) = Some 0" using s(2) by simp_all
  with T s(1) show ?thesis by blast
qed

text \<open>
  C14: the kernel never panics in the code that switches between processes: \<open>sched\<close> finds the lock of the
  process held, no other lock, the state changed and interrupts off; \<open>acquire\<close> and \<open>release\<close> on the locks of the
  process table do not fail; and the thread of a process that has exited is never resumed.
\<close>

theorem sched_no_panic:
  assumes "sched_reach s"
  shows "hpc s h \<noteq> Halted e"
  using sched_invD(2) [OF sched_reach_inv [OF assms], of h] by (auto simp: hart_part_def)

theorem sched_no_panic_witness: "\<exists>s. sched_reach s \<and> hpc s 3 = Resuming 0 \<and> hpc s 3 \<noteq> Halted ''release''"
  using demo_running sched_no_panic [of _ 3 "''release''"] by blast

text \<open>
  C15: a hart in the scheduler switches to a process as soon as there is one to run. If no lock of the table
  is held and some process is runnable, the loop started at entry \<open>p\<close> finds, after at most one round, the first
  runnable process in the circular order of the table from \<open>p\<close> on, marks just this one running, and keeps its
  lock; \<open>i + 2\<close> iterations are enough if it is the \<open>i\<close>-th. As the loop goes on after the process that ran
  last, no runnable process is passed over twice.
\<close>

theorem scheduler_round_robin:
  assumes s: "hart_ok s" "noff (mycpu s) = 0" "free_plocks (procs s)" "p \<le> NPROC"
    and i: "i < NPROC" "p_state (procs s ! ((p + i) mod NPROC)) = RUNNABLE" "\<forall>j<i. p_state (procs s ! ((p + j) mod NPROC)) \<noteq> RUNNABLE"
  shows "\<exists>t. scheduler_loop (i + 2 + n) p s = Ok ((p + i) mod NPROC, t) \<and> tp t = tp s \<and> cpu_proc (mycpu t) = Some ((p + i) mod NPROC) \<and>
    procs t = (procs s)[(p + i) mod NPROC := (procs s ! ((p + i) mod NPROC))
      \<lparr>p_lock := held_by (tp s) (p_lock (procs s ! ((p + i) mod NPROC))), p_state := RUNNING\<rparr>]"
proof -
  define q where "q = (p + i) mod NPROC"
  have q: "q < NPROC" "p_state (procs s ! q) = RUNNABLE" using i by (simp_all add: q_def)
  have pick: "\<exists>t. scheduler_loop (Suc m) q u = Ok (q, t) \<and> tp t = tp s \<and> cpu_proc (mycpu t) = Some q \<and>
      procs t = (procs s)[q := (procs s ! q)\<lparr>p_lock := held_by (tp s) (p_lock (procs s ! q)), p_state := RUNNING\<rparr>]"
    if "procs u = procs s" "tp u = tp s" for u m
  proof -
    have "lock_free (p_lock (procs u ! q))" "q < length (procs u)" "p_state (procs u ! q) = RUNNABLE"
      using that q s(3) by (simp_all add: free_plocks_def)
    from visit_picks [OF this] show ?thesis using that q(1) by auto
  qed
  show ?thesis
  proof (cases "p + i < NPROC")
    case True
    let ?s = "if i = 0 then s else settled s"
    have "p_state (procs s ! r) \<noteq> RUNNABLE" if "p \<le> r" "r < p + i" for r
      using i(3) [rule_format, of "r - p"] that True by simp
    then have "scheduler_loop (i + Suc (Suc n)) p s = scheduler_loop (Suc (Suc n)) (p + i) ?s"
      by (intro loop_skips) (use s True in simp_all)
    then show ?thesis using pick [of ?s "Suc n"] True unfolding q_def by simp
  next
    case False
    then have q': "q = p + i - NPROC" using s(4) i(1) unfolding q_def by (simp add: mod_if [of "p + i"])
    let ?s = "if NPROC - p = 0 then s else settled s"
    let ?u = "if q = 0 then intr_on ?s else settled (intr_on ?s)"
    have n1: "p_state (procs s ! r) \<noteq> RUNNABLE" if "p \<le> r" "r < NPROC" for r
      using i(3) [rule_format, of "r - p"] that False s(4) by simp
    have n2: "p_state (procs s ! r) \<noteq> RUNNABLE" if "r < q" for r
      using i(3) [rule_format, of "NPROC - p + r"] that q' s(4) i(1) by (simp add: mod_if [of "NPROC + r"])
    have "scheduler_loop (NPROC - p + Suc (q + Suc n)) p s = scheduler_loop (Suc (q + Suc n)) (p + (NPROC - p)) ?s"
      by (rule loop_skips) (use s n1 in simp_all)
    also have "\<dots> = scheduler_loop (q + Suc n) 0 (intr_on ?s)" using s(4) by simp
    also have "\<dots> = scheduler_loop (Suc n) (0 + q) ?u"
      by (rule loop_skips) (use s n2 q in \<open>simp_all add: hart_ok_def intr_get_def mycpu_def\<close>)
    finally have "scheduler_loop (NPROC - p + Suc (q + Suc n)) p s = scheduler_loop (Suc n) q ?u" by (simp only: add_0)
    moreover have "NPROC - p + Suc (q + Suc n) = i + 2 + n" using q' False s(4) by simp
    ultimately have e: "scheduler_loop (i + 2 + n) p s = scheduler_loop (Suc n) q ?u" by (simp only:)
    show ?thesis unfolding q_def [symmetric] e by (rule pick) simp_all
  qed
qed

theorem scheduler_round_robin_witness:
  "\<exists>t. scheduler_loop 65 2 (demo_sched ((replicate NPROC fresh_proc)[1 := fresh_proc\<lparr>p_state := RUNNABLE\<rparr>])) = Ok (1, t) \<and>
     cpu_proc (mycpu t) = Some 1"
proof -
  let ?s = "demo_sched ((replicate NPROC fresh_proc)[1 := fresh_proc\<lparr>p_state := RUNNABLE\<rparr>])"
  have n: "p_state (procs ?s ! ((2 + j) mod NPROC)) \<noteq> RUNNABLE" if "j < 63" for j
  proof -
    have "(2 + j) mod NPROC \<noteq> 1" using that by (simp add: NPROC_def mod_if)
    then show ?thesis by (simp add: demo_sched_def fresh_proc_def nth_list_update NPROC_def)
  qed
  have r: "p_state (procs ?s ! ((2 + 63) mod NPROC)) = RUNNABLE" by (simp add: demo_sched_def NPROC_def)
  have f: "hart_ok ?s" "noff (mycpu ?s) = 0" "free_plocks (procs ?s)"
    by (simp_all add: demo_sched_def hart_ok_def mycpu_def free_plocks_def fresh_proc_def nth_list_update NPROC_def)
  have "(2 + 63) mod NPROC = 1" "2 \<le> NPROC" "63 < NPROC" "63 + 2 + 0 = (65::nat)" by (simp_all add: NPROC_def)
  with scheduler_round_robin [OF f _ _ r, of 0] n show ?thesis by (metis (no_types, lifting))
qed

end
