(* ===== verification/Ulib.thy ===== *)
theory Ulib
  imports Cstring Layout
begin

text \<open>
  The library of the user programs: user/user.h, user/ulib.c and user/printf.c. A program is the tree of
  the system calls it makes: each call continues with the value it returns and the bytes that the kernel
  has stored in the buffer passed to it. A string is the list of its characters before the NUL.
\<close>

section \<open>Programs\<close>

datatype syscall_req =
    SFork | SWait | SPipe | SDup int | SClose int | SRead int nat | SWrite int bytes | SOpen bytes u32 | SFstat int
  | SExec bytes "bytes list" | SChdir bytes | SMkdir bytes | SMknod bytes u16 u16 | SUnlink bytes | SLink bytes bytes
  | SKill int | SSleep int | STrace int | SHello | SXv6 int | SSysinfo | SGetpid | SUptime | SSbrk int

text \<open>
  \<open>UExit\<close> is the system call \<open>exit\<close>. \<open>UMore\<close> ends a program whose loop ran as often as the bound given to
  it, and \<open>UTrap\<close> one that reads a null pointer.
\<close>

datatype uprog = UExit int | UCall syscall_req "int \<Rightarrow> bytes \<Rightarrow> uprog" | UMore | UTrap

abbreviation do_call :: "syscall_req \<Rightarrow> (int \<Rightarrow> uprog) \<Rightarrow> uprog" where
  "do_call c k \<equiv> UCall c (\<lambda>r _. k r)"

definition ustr :: "string \<Rightarrow> bytes" where
  "ustr s = map of_char s"

definition O_RDONLY :: u32 where "O_RDONLY = 0"

section \<open>ulib.c\<close>

text \<open>\<open>start\<close>: a \<open>main\<close> that returns exits with status 0. The argument is \<open>main\<close> with its continuation.\<close>

definition start :: "((int \<Rightarrow> uprog) \<Rightarrow> uprog) \<Rightarrow> uprog" where
  "start m = m (\<lambda>_. UExit 0)"

fun strcpy :: "mem \<Rightarrow> addr \<Rightarrow> bytes \<Rightarrow> mem" where
  "strcpy m s [] = m(s := 0)"
| "strcpy m s (c # t) = strcpy (m(s := c)) (s + 1) t"

fun strcmp :: "bytes \<Rightarrow> bytes \<Rightarrow> int" where
  "strcmp [] [] = 0"
| "strcmp [] (d # q) = - uint d"
| "strcmp (c # p) [] = uint c"
| "strcmp (c # p) (d # q) = (if c = d then strcmp p q else uint c - uint d)"

definition strlen :: "bytes \<Rightarrow> u32" where
  "strlen s = of_nat (length s)"

function memset_loop :: "mem \<Rightarrow> addr \<Rightarrow> u8 \<Rightarrow> nat \<Rightarrow> nat \<Rightarrow> mem" where
  "memset_loop m cdst c i n = (if i < n then memset_loop (m(cdst + of_nat i := c)) cdst c (Suc i) n else m)"
  by pat_completeness auto
termination
  by (relation "measure (\<lambda>(m, cdst, c, i, n). n - i)") auto

definition memset :: "mem \<Rightarrow> addr \<Rightarrow> u32 \<Rightarrow> u32 \<Rightarrow> mem" where
  "memset m dst c n = memset_loop m dst (ucast c) 0 (unat n)"

text \<open>The rest of the string from the first \<open>c\<close> on; the NUL at its end is never found.\<close>

fun strchr :: "bytes \<Rightarrow> u8 \<Rightarrow> bytes option" where
  "strchr [] c = None"
| "strchr (d # s) c = (if d = c then Some (d # s) else strchr s c)"

text \<open>\<open>gets\<close>, up to \<open>n\<close> more characters; \<open>got\<close> is \<open>buf[0]\<close> to \<open>buf[i-1]\<close>.\<close>

fun gets_loop :: "nat \<Rightarrow> bytes \<Rightarrow> (bytes \<Rightarrow> uprog) \<Rightarrow> uprog" where
  "gets_loop 0 got k = k got"
| "gets_loop (Suc n) got k =
     UCall (SRead 0 1) (\<lambda>cc d.
       if cc < 1 then k got
       else let c = hd d
            in if c = 10 \<or> c = 13 then k (got @ [c]) else gets_loop n (got @ [c]) k)"

definition gets :: "nat \<Rightarrow> (bytes \<Rightarrow> uprog) \<Rightarrow> uprog" where
  "gets mx k = gets_loop (mx - 1) [] k"

definition stat :: "bytes \<Rightarrow> (int \<Rightarrow> bytes \<Rightarrow> uprog) \<Rightarrow> uprog" where
  "stat n k =
     do_call (SOpen n O_RDONLY) (\<lambda>fd.
       if fd < 0 then k (-1) [] else UCall (SFstat fd) (\<lambda>r st. do_call (SClose fd) (\<lambda>_. k r st)))"

text \<open>\<open>int\<close> arithmetic that overflows wraps around.\<close>

fun atoi_loop :: "bytes \<Rightarrow> u32 \<Rightarrow> u32" where
  "atoi_loop [] n = n"
| "atoi_loop (c # s) n = (if 48 \<le> c \<and> c \<le> 57 then atoi_loop s (n * 10 + ucast c - 48) else n)"

definition atoi :: "bytes \<Rightarrow> int" where
  "atoi s = sint (atoi_loop s 0)"

definition memmove :: "mem \<Rightarrow> addr \<Rightarrow> addr \<Rightarrow> int \<Rightarrow> mem" where
  "memmove m vdst vsrc n =
     (if vsrc > vdst then move_forward m vdst vsrc (nat n)
      else move_backward m (vdst + of_int n) (vsrc + of_int n) (nat n))"

fun memcmp_loop :: "cptr \<Rightarrow> cptr \<Rightarrow> nat \<Rightarrow> nat \<Rightarrow> int" where
  "memcmp_loop p1 p2 i 0 = 0"
| "memcmp_loop p1 p2 i (Suc n) =
     (if p1 i \<noteq> p2 i then uint (p1 i) - uint (p2 i) else memcmp_loop p1 p2 (Suc i) n)"

definition memcmp :: "cptr \<Rightarrow> cptr \<Rightarrow> u32 \<Rightarrow> int" where
  "memcmp s1 s2 n = memcmp_loop s1 s2 0 (unat n)"

definition memcpy :: "mem \<Rightarrow> addr \<Rightarrow> addr \<Rightarrow> u32 \<Rightarrow> mem" where
  "memcpy m dst src n = memmove m dst src (sint n)"

section \<open>printf.c\<close>

definition digits :: "nat \<Rightarrow> u8" where
  "digits d = of_nat (if d < 10 then 48 + d else 65 + (d - 10))"

text \<open>The do-while loop of \<open>printint\<close>: the digits, least significant first.\<close>

function digit_loop :: "nat \<Rightarrow> nat \<Rightarrow> bytes" where
  "digit_loop base x = digits (x mod base) # (if x div base \<noteq> 0 \<and> 1 < base then digit_loop base (x div base) else [])"
  by pat_completeness auto
termination
  by (relation "measure snd") (auto simp: div_greater_zero_iff intro!: div_less_dividend)

declare digit_loop.simps [simp del] memset_loop.simps [simp del]

text \<open>The characters that \<open>printint\<close> and \<open>printptr\<close> write, in order.\<close>

definition printint :: "u32 \<Rightarrow> nat \<Rightarrow> bool \<Rightarrow> bytes" where
  "printint xx base sg =
     (if sg \<and> sint xx < 0 then rev (digit_loop base (unat (- xx)) @ [45]) else rev (digit_loop base (unat xx)))"

definition printptr :: "u64 \<Rightarrow> bytes" where
  "printptr x = [48, 120] @ map (\<lambda>i. digits (unat (drop_bit 60 (push_bit (4 * i) x)))) [0..<16]"

text \<open>The arguments of a call: a number in a 64-bit slot, or a string or null pointer.\<close>

datatype uarg = UNum u64 | UStr "bytes option"

text \<open>
  The text that \<open>vprintf\<close> writes for the rest of a format; the second argument tells whether \<open>state\<close> is the
  percent sign. \<open>%d\<close>, \<open>%ld\<close> and the like hand their argument to \<open>printint\<close> as an \<open>int\<close>. \<open>None\<close> is a conversion
  without an argument of its type.
\<close>

definition take_num :: "(u64 \<Rightarrow> bytes) \<Rightarrow> uarg list \<Rightarrow> (bytes \<times> uarg list) option" where
  "take_num f ap = (case ap of UNum v # ap \<Rightarrow> Some (f v, ap) | _ \<Rightarrow> None)"

definition take_str :: "uarg list \<Rightarrow> (bytes \<times> uarg list) option" where
  "take_str ap = (case ap of UStr (Some s) # ap \<Rightarrow> Some (s, ap) | UStr None # ap \<Rightarrow> Some (ustr ''(null)'', ap) | _ \<Rightarrow> None)"

definition conversion :: "u8 \<Rightarrow> u8 \<Rightarrow> u8 \<Rightarrow> uarg list \<Rightarrow> (nat \<times> (bytes \<times> uarg list) option)" where
  "conversion c0 c1 c2 ap =
     (if c0 = 100 then (0, take_num (\<lambda>v. printint (ucast v) 10 True) ap)
      else if c0 = 108 \<and> c1 = 100 then (1, take_num (\<lambda>v. printint (ucast v) 10 True) ap)
      else if c0 = 108 \<and> c1 = 108 \<and> c2 = 100 then (2, take_num (\<lambda>v. printint (ucast v) 10 True) ap)
      else if c0 = 117 then (0, take_num (\<lambda>v. printint (ucast v) 10 False) ap)
      else if c0 = 108 \<and> c1 = 117 then (1, take_num (\<lambda>v. printint (ucast v) 10 False) ap)
      else if c0 = 108 \<and> c1 = 108 \<and> c2 = 117 then (2, take_num (\<lambda>v. printint (ucast v) 10 False) ap)
      else if c0 = 120 then (0, take_num (\<lambda>v. printint (ucast v) 16 False) ap)
      else if c0 = 108 \<and> c1 = 120 then (1, take_num (\<lambda>v. printint (ucast v) 16 False) ap)
      else if c0 = 108 \<and> c1 = 108 \<and> c2 = 120 then (2, take_num (\<lambda>v. printint (ucast v) 16 False) ap)
      else if c0 = 112 then (0, take_num printptr ap)
      else if c0 = 115 then (0, take_str ap)
      else if c0 = 37 then (0, Some ([37], ap))
      else (0, Some ([37, c0], ap)))"

definition char_at :: "bytes \<Rightarrow> nat \<Rightarrow> u8" where
  "char_at s i = (if i < length s then s ! i else 0)"

function vformat :: "bytes \<Rightarrow> bool \<Rightarrow> uarg list \<Rightarrow> bytes option" where
  "vformat [] percent ap = Some []"
| "vformat (c0 # fmt) False ap =
     (if c0 = 37 then vformat fmt True ap else map_option ((#) c0) (vformat fmt False ap))"
| "vformat (c0 # fmt) True ap =
     (case conversion c0 (char_at fmt 0) (char_at fmt 1) ap of
        (k, None) \<Rightarrow> None
      | (k, Some (out, ap)) \<Rightarrow> map_option ((@) out) (vformat (drop k fmt) False ap))"
  by pat_completeness auto
termination
  by (relation "measure (\<lambda>(fmt, percent, ap). length fmt)") auto

text \<open>\<open>putc\<close> for each character.\<close>

fun put_chars :: "int \<Rightarrow> bytes \<Rightarrow> uprog \<Rightarrow> uprog" where
  "put_chars fd [] k = k"
| "put_chars fd (c # cs) k = do_call (SWrite fd [c]) (\<lambda>_. put_chars fd cs k)"

definition vprintf :: "int \<Rightarrow> bytes \<Rightarrow> uarg list \<Rightarrow> uprog \<Rightarrow> uprog" where
  "vprintf fd fmt ap k = (case vformat fmt False ap of None \<Rightarrow> UTrap | Some out \<Rightarrow> put_chars fd out k)"

definition fprintf :: "int \<Rightarrow> string \<Rightarrow> uarg list \<Rightarrow> uprog \<Rightarrow> uprog" where
  "fprintf fd fmt ap k = vprintf fd (ustr fmt) ap k"

definition printf :: "string \<Rightarrow> uarg list \<Rightarrow> uprog \<Rightarrow> uprog" where
  "printf fmt ap k = vprintf 1 (ustr fmt) ap k"

section \<open>Running a program against an environment\<close>

text \<open>
  \<open>env\<close> answers a system call: the value returned, the bytes stored, and the new state of the
  environment. The result is the exit status and the final state; \<open>Blocked\<close> stands for \<open>UMore\<close>.
\<close>

primrec run_prog :: "('w \<Rightarrow> syscall_req \<Rightarrow> int \<times> bytes \<times> 'w) \<Rightarrow> uprog \<Rightarrow> 'w \<Rightarrow> (int \<times> 'w) outcome" where
  "run_prog env (UExit r) w = Ok (r, w)"
| "run_prog env (UCall c k) w = (case env w c of (r, d, w') \<Rightarrow> run_prog env (k r d) w')"
| "run_prog env UMore w = Blocked"
| "run_prog env UTrap w = Panic ''usertrap''"

end
