(* ===== verification/Shell.thy ===== *)
theory Shell
  imports Ulib "HOL-Library.Sublist"
begin

text \<open>
  user/sh.c: the parser of the shell; the commands are run in \<open>Shrun\<close>. A pointer into the line
  that is parsed is given by the characters from it to \<open>es\<close>, the end of the line, where the NUL is; so the
  distance of two pointers is the difference of two lengths. Syntax errors are panics.
\<close>

section \<open>Commands\<close>

definition MAXARGS :: nat where "MAXARGS = 10"
definition O_WRONLY :: u32 where "O_WRONLY = 1"
definition O_RDWR :: u32 where "O_RDWR = 2"
definition O_CREATE :: u32 where "O_CREATE = 0x200"
definition O_TRUNC :: u32 where "O_TRUNC = 0x400"

type_synonym lptr = bytes

text \<open>A string of the line is given by pointers to its start and to the character after it.\<close>

datatype cmd =
    EXEC "(lptr \<times> lptr) list"
  | REDIR cmd lptr lptr u32 int
  | PIPE cmd cmd
  | LIST cmd cmd
  | BACK cmd

text \<open>The constructors of commands.\<close>

abbreviation execcmd :: cmd where
  "execcmd \<equiv> EXEC []"

abbreviation redircmd :: "cmd \<Rightarrow> lptr \<Rightarrow> lptr \<Rightarrow> u32 \<Rightarrow> int \<Rightarrow> cmd" where
  "redircmd subcmd file efile mode fd \<equiv> REDIR subcmd file efile mode fd"

abbreviation pipecmd :: "cmd \<Rightarrow> cmd \<Rightarrow> cmd" where
  "pipecmd left right \<equiv> PIPE left right"

abbreviation listcmd :: "cmd \<Rightarrow> cmd \<Rightarrow> cmd" where
  "listcmd left right \<equiv> LIST left right"

abbreviation backcmd :: "cmd \<Rightarrow> cmd" where
  "backcmd subcmd \<equiv> BACK subcmd"

section \<open>Tokens\<close>

definition whitespace :: bytes where "whitespace = [32, 9, 13, 10, 11]"
definition symbols :: bytes where "symbols = map of_char ''<|>&;()''"

definition is_space :: "u8 \<Rightarrow> bool" where "is_space c \<longleftrightarrow> strchr whitespace c \<noteq> None"
definition is_symbol :: "u8 \<Rightarrow> bool" where "is_symbol c \<longleftrightarrow> strchr symbols c \<noteq> None"

text \<open>\<open>*s\<close>, which is 0 at the end of the line.\<close>

definition char0 :: "lptr \<Rightarrow> u8" where
  "char0 s = (case s of [] \<Rightarrow> 0 | c # _ \<Rightarrow> c)"

text \<open>The switch of \<open>gettoken\<close>: the token that starts at \<open>s\<close>, and where it ends.\<close>

definition scan_token :: "lptr \<Rightarrow> u8 \<times> lptr" where
  "scan_token s =
     (let c = char0 s
      in if c = 0 then (0, s)
         else if c \<in> set (map of_char ''|();&<'') then (c, tl s)
         else if c = of_char CHR ''>''
         then (let s = tl s in if char0 s = of_char CHR ''>'' then (of_char CHR ''+'', tl s) else (c, s))
         else (of_char CHR ''a'', dropWhile (\<lambda>c. \<not> is_space c \<and> \<not> is_symbol c) s))"

text \<open>The token, the pointers \<open>q\<close> and \<open>eq\<close> to its text, and the new value of \<open>*ps\<close>.\<close>

definition gettoken :: "lptr \<Rightarrow> u8 \<times> lptr \<times> lptr \<times> lptr" where
  "gettoken ps =
     (let q = dropWhile is_space ps;
          (ret, s) = scan_token q
      in (ret, q, s, dropWhile is_space s))"

definition peek :: "lptr \<Rightarrow> bytes \<Rightarrow> bool \<times> lptr" where
  "peek ps toks =
     (let s = dropWhile is_space ps
      in (char0 s \<noteq> 0 \<and> strchr toks (char0 s) \<noteq> None, s))"

abbreviation next_token :: "lptr \<Rightarrow> lptr" where
  "next_token s \<equiv> snd (snd (snd (gettoken s)))"

section \<open>Progress\<close>

lemma length_dropWhile_le: "length (dropWhile P xs) \<le> length xs"
  by (induction xs) auto

lemma is_symbol_iff: "is_symbol c \<longleftrightarrow> c = of_char CHR ''>'' \<or> c \<in> set (map of_char ''|();&<'')"
  by (auto simp: is_symbol_def symbols_def)

lemma scan_token_le:
  assumes "scan_token q = (t, s)" "q = [] \<or> \<not> is_space (hd q)"
  shows "length s \<le> length q" "t \<noteq> 0 \<Longrightarrow> length s < length q"
proof -
  have "length s \<le> length q \<and> (t \<noteq> 0 \<longrightarrow> length s < length q)"
  proof (cases q)
    case (Cons c r)
    have "length (dropWhile (\<lambda>c. \<not> is_space c \<and> \<not> is_symbol c) q) < length q" if "\<not> is_symbol c"
      using that assms(2) Cons le_imp_less_Suc [OF length_dropWhile_le] by simp
    then show ?thesis using assms(1) Cons
      by (cases r) (auto simp: scan_token_def Let_def char0_def is_symbol_iff split: if_splits)
  qed (use assms(1) in \<open>simp add: scan_token_def char0_def\<close>)
  then show "length s \<le> length q" "t \<noteq> 0 \<Longrightarrow> length s < length q" by auto
qed

lemma dropWhile_hd: "dropWhile P xs = [] \<or> \<not> P (hd (dropWhile P xs))"
  using hd_dropWhile by blast

lemma gettoken_le:
  assumes "gettoken s = (t, q, eq, s')"
  shows "length q \<le> length s" "length eq \<le> length q" "length s' \<le> length eq" "t \<noteq> 0 \<Longrightarrow> length eq < length q"
proof -
  have q: "q = dropWhile is_space s" and s': "s' = dropWhile is_space eq" and t: "scan_token q = (t, eq)"
    using assms by (auto simp: gettoken_def Let_def split: prod.splits)
  show "length q \<le> length s" "length s' \<le> length eq" unfolding q s' by (rule length_dropWhile_le)+
  show "length eq \<le> length q" "t \<noteq> 0 \<Longrightarrow> length eq < length q"
    using scan_token_le [OF t] dropWhile_hd [of is_space s] unfolding q by auto
qed

lemma peek_le: "peek s toks = (b, s') \<Longrightarrow> length s' \<le> length s"
  using length_dropWhile_le by (auto simp: peek_def Let_def)

text \<open>A token that \<open>peek\<close> has seen is consumed by \<open>gettoken\<close>.\<close>

lemma peek_next:
  assumes "peek s toks = (True, s')"
  shows "length (next_token s') < length s"
proof -
  have s': "s' = dropWhile is_space s" "char0 s' \<noteq> 0" using assms by (auto simp: peek_def Let_def)
  obtain t q eq u where g: "gettoken s' = (t, q, eq, u)" by (metis prod_cases4)
  have "dropWhile is_space s' = s'" unfolding s'(1) by simp
  then have "q = s'" "t \<noteq> 0" using g s'(2) by (auto simp: gettoken_def scan_token_def Let_def split: if_splits prod.splits)
  then have "length u < length s'" using gettoken_le [OF g] by simp
  also have "\<dots> \<le> length s" unfolding s'(1) by (rule length_dropWhile_le)
  finally show ?thesis using g by simp
qed

lemma peek_next2:
  assumes "peek s toks = (True, s0)" "gettoken s0 = (t0, q0, e0, s1)" "gettoken s1 = (t, q, eq, s2)"
  shows "length s2 < length s"
  using peek_next [OF assms(1)] gettoken_le [OF assms(3)] assms(2) by simp

lemma args_next:
  assumes "peek s toks = (b, s0)" "gettoken s0 = (t, q, eq, s1)"
  shows "t \<noteq> 0 \<Longrightarrow> length s1 < length s" "length s1 \<le> length s"
  using peek_le [OF assms(1)] gettoken_le [OF assms(2)] by simp_all

section \<open>Parsing\<close>

text \<open>The loop of \<open>parseredirs\<close>.\<close>

definition redir :: "u8 \<Rightarrow> cmd \<Rightarrow> lptr \<Rightarrow> lptr \<Rightarrow> cmd" where
  "redir tok cmd q eq =
     (if tok = of_char CHR ''<'' then redircmd cmd q eq O_RDONLY 0
      else if tok = of_char CHR ''>'' then redircmd cmd q eq (O_WRONLY OR O_CREATE OR O_TRUNC) 1
      else if tok = of_char CHR ''+'' then redircmd cmd q eq (O_WRONLY OR O_CREATE) 1
      else cmd)"

function parseredirs :: "cmd \<Rightarrow> lptr \<Rightarrow> (cmd \<times> lptr) outcome" where
  "parseredirs cmd ps =
     (case peek ps (ustr ''<>'') of
        (False, s) \<Rightarrow> Ok (cmd, s)
      | (True, s) \<Rightarrow>
          (case gettoken s of (tok, _, _, s1) \<Rightarrow>
           case gettoken s1 of (t, q, eq, s2) \<Rightarrow>
             if t \<noteq> of_char CHR ''a'' then Panic ''missing file for redirection''
             else parseredirs (redir tok cmd q eq) s2))"
  by pat_completeness auto
termination
  by (relation "measure (\<lambda>(cmd, ps). length ps)") (auto dest: peek_next2 [OF sym sym sym])

declare parseredirs.simps [simp del]

lemma parseredirs_le: "parseredirs cmd s = Ok (c, s') \<Longrightarrow> length s' \<le> length s"
proof (induction cmd s rule: parseredirs.induct)
  case (1 cmd s)
  obtain b s0 where p: "peek s (ustr ''<>'') = (b, s0)" by force
  obtain tok q0 e0 s1 where g: "gettoken s0 = (tok, q0, e0, s1)" by (metis prod_cases4)
  obtain t q eq s2 where g': "gettoken s1 = (t, q, eq, s2)" by (metis prod_cases4)
  show ?case
  proof (cases b)
    case True
    then have "parseredirs (redir tok cmd q eq) s2 = Ok (c, s')" and t: "t = of_char CHR ''a''"
      using "1.prems" p g g' parseredirs.simps [of cmd s] by (auto split: if_splits)
    then have "length s' \<le> length s2" using "1.IH" [OF p [symmetric] _ g [symmetric] refl refl g' [symmetric] refl refl] True by simp
    then show ?thesis using peek_next2 [OF _ g g', of s] p True by fastforce
  next
    case False
    then show ?thesis using "1.prems" p parseredirs.simps [of cmd s] peek_le [OF p] by simp
  qed
qed

text \<open>
  \<open>parseexec\<close> stores the arguments in the \<open>execcmd\<close> that it has made first, through the pointer \<open>cmd\<close>, while
  \<open>ret\<close> may already point to redirections around it.
\<close>

primrec set_argv :: "(lptr \<times> lptr) list \<Rightarrow> cmd \<Rightarrow> cmd" where
  "set_argv a (EXEC _) = EXEC a"
| "set_argv a (REDIR c q eq mode fd) = REDIR (set_argv a c) q eq mode fd"
| "set_argv a (PIPE l r) = PIPE l r"
| "set_argv a (LIST l r) = LIST l r"
| "set_argv a (BACK c) = BACK c"

text \<open>The loop of \<open>parseexec\<close>; \<open>argv\<close> are the arguments so far.\<close>

function parseargs :: "(lptr \<times> lptr) list \<Rightarrow> cmd \<Rightarrow> lptr \<Rightarrow> (cmd \<times> lptr) outcome" where
  "parseargs argv ret ps =
     (case peek ps (ustr ''|)&;'') of
        (True, s) \<Rightarrow> Ok (set_argv argv ret, s)
      | (False, s) \<Rightarrow>
          (case gettoken s of (tok, q, eq, s1) \<Rightarrow>
             if tok = 0 then Ok (set_argv argv ret, s1)
             else if tok \<noteq> of_char CHR ''a'' then Panic ''syntax''
             else let argv = argv @ [(q, eq)]
                  in if MAXARGS \<le> length argv then Panic ''too many args''
                     else bnd (parseredirs ret s1) (\<lambda>(ret, s2). parseargs argv ret s2)))"
  by pat_completeness auto
termination
  by (relation "measure (\<lambda>(argv, ret, ps). length ps)") (auto dest!: parseredirs_le dest: args_next [OF sym sym])

text \<open>The loop of \<open>parseline\<close> over the ampersands.\<close>

function parsebacks :: "cmd \<Rightarrow> lptr \<Rightarrow> cmd \<times> lptr" where
  "parsebacks cmd ps =
     (case peek ps (ustr ''&'') of (False, s) \<Rightarrow> (cmd, s) | (True, s) \<Rightarrow> parsebacks (backcmd cmd) (next_token s))"
  by pat_completeness auto
termination
  by (relation "measure (\<lambda>(cmd, ps). length ps)") (auto dest: peek_next [OF sym])

declare parseargs.simps [simp del] parsebacks.simps [simp del]

text \<open>
  The recursive functions; the first argument bounds the depth of the recursion. Each level of it consumes a
  token, so that four times the length of the line is enough.
\<close>

fun parseline :: "nat \<Rightarrow> lptr \<Rightarrow> (cmd \<times> lptr) outcome"
  and parsepipe :: "nat \<Rightarrow> lptr \<Rightarrow> (cmd \<times> lptr) outcome"
  and parseblock :: "nat \<Rightarrow> lptr \<Rightarrow> (cmd \<times> lptr) outcome"
  and parseexec :: "nat \<Rightarrow> lptr \<Rightarrow> (cmd \<times> lptr) outcome" where
  "parseline 0 s = Blocked"
| "parseline (Suc n) s =
     bnd (parsepipe n s) (\<lambda>(cmd, s).
     (case parsebacks cmd s of (cmd, s) \<Rightarrow>
      (case peek s (ustr '';'') of
         (True, s) \<Rightarrow> bnd (parseline n (next_token s)) (\<lambda>(right, s). Ok (listcmd cmd right, s))
       | (False, s) \<Rightarrow> Ok (cmd, s))))"
| "parsepipe 0 s = Blocked"
| "parsepipe (Suc n) s =
     bnd (parseexec n s) (\<lambda>(cmd, s).
     case peek s (ustr ''|'') of
       (True, s) \<Rightarrow> bnd (parsepipe n (next_token s)) (\<lambda>(right, s). Ok (pipecmd cmd right, s))
     | (False, s) \<Rightarrow> Ok (cmd, s))"
| "parseblock 0 s = Blocked"
| "parseblock (Suc n) s =
     (case peek s (ustr ''('') of
        (False, s) \<Rightarrow> Panic ''parseblock''
      | (True, s) \<Rightarrow>
          bnd (parseline n (next_token s)) (\<lambda>(cmd, s).
          case peek s (ustr '')'') of
            (False, s) \<Rightarrow> Panic ''syntax - missing )''
          | (True, s) \<Rightarrow> parseredirs cmd (next_token s)))"
| "parseexec 0 s = Blocked"
| "parseexec (Suc n) s =
     (case peek s (ustr ''('') of
        (True, s) \<Rightarrow> parseblock n s
      | (False, s) \<Rightarrow> bnd (parseredirs execcmd s) (\<lambda>(ret, s). parseargs [] ret s))"

text \<open>
  \<open>nulterminate\<close> writes into the line \<open>buf\<close>, which has one more place for the NUL at its end: the pointer
  \<open>p\<close> is at index \<open>length line - length p\<close>.
\<close>

definition put_nul :: "lptr \<Rightarrow> bytes \<Rightarrow> bytes" where
  "put_nul p buf = buf[length buf - 1 - length p := 0]"

fun nulterminate :: "cmd \<Rightarrow> bytes \<Rightarrow> bytes" where
  "nulterminate (EXEC argv) buf = foldl (\<lambda>buf (q, eq). put_nul eq buf) buf argv"
| "nulterminate (REDIR c q eq mode fd) buf = put_nul eq (nulterminate c buf)"
| "nulterminate (PIPE l r) buf = nulterminate r (nulterminate l buf)"
| "nulterminate (LIST l r) buf = nulterminate r (nulterminate l buf)"
| "nulterminate (BACK c) buf = nulterminate c buf"

text \<open>\<open>parsecmd\<close> on a line of which \<open>line\<close> are the characters before the NUL: the command and the new line.\<close>

definition parsecmd :: "bytes \<Rightarrow> (cmd \<times> bytes) outcome" where
  "parsecmd line =
     bnd (parseline (4 * length line + 4) line) (\<lambda>(cmd, s).
     let s = snd (peek s [])
     in if s \<noteq> [] then Panic ''syntax'' else Ok (cmd, nulterminate cmd (line @ [0])))"

section \<open>The parser terminates\<close>

lemma bnd_eq_Blocked: "bnd x f = Blocked \<longleftrightarrow> x = Blocked \<or> (\<exists>z. x = Ok z \<and> f z = Blocked)"
  by (cases x) auto

lemma parseredirs_returns: "parseredirs cmd s \<noteq> Blocked"
proof (induction cmd s rule: parseredirs.induct)
  case (1 cmd s)
  obtain b s0 where p: "peek s (ustr ''<>'') = (b, s0)" by force
  obtain tok q0 e0 s1 where g: "gettoken s0 = (tok, q0, e0, s1)" by (metis prod_cases4)
  obtain t q eq s2 where g': "gettoken s1 = (t, q, eq, s2)" by (metis prod_cases4)
  have "parseredirs (redir tok cmd q eq) s2 \<noteq> Blocked" if b "t = of_char CHR ''a''"
    using "1.IH" [OF p [symmetric] _ g [symmetric] refl refl g' [symmetric] refl refl] that by simp
  then show ?case using p g g' by (cases b) (simp_all add: parseredirs.simps [of cmd s])
qed

lemma parseargs_returns: "parseargs argv ret s \<noteq> Blocked"
proof (induction argv ret s rule: parseargs.induct)
  case (1 argv ret s)
  obtain b s0 where p: "peek s (ustr ''|)&;'') = (b, s0)" by force
  obtain t q eq s1 where g: "gettoken s0 = (t, q, eq, s1)" by (metis prod_cases4)
  have "parseargs (argv @ [(q, eq)]) ret' s2 \<noteq> Blocked"
    if "\<not> b" "t = of_char CHR ''a''" "\<not> MAXARGS \<le> length (argv @ [(q, eq)])" "parseredirs ret s1 = Ok (ret', s2)" for ret' s2
    using "1.IH" [OF p [symmetric] _ g [symmetric] refl refl _ _ refl _ that(4) refl] that by simp
  then show ?case using p g parseredirs_returns
    by (cases b) (auto simp: parseargs.simps [of argv ret s] Let_def bnd_eq_Blocked)
qed

lemma parseargs_le: "parseargs argv ret s = Ok (c, s') \<Longrightarrow> length s' \<le> length s"
proof (induction argv ret s rule: parseargs.induct)
  case (1 argv ret s)
  obtain b s0 where p: "peek s (ustr ''|)&;'') = (b, s0)" by force
  obtain t q eq s1 where g: "gettoken s0 = (t, q, eq, s1)" by (metis prod_cases4)
  note le = peek_le [OF p] args_next(2) [OF p g]
  show ?case
  proof (cases "b \<or> t = 0")
    case True
    then show ?thesis using "1.prems" p g le parseargs.simps [of argv ret s] by (auto split: bool.splits)
  next
    case False
    then obtain ret' s2 where r: "parseredirs ret s1 = Ok (ret', s2)" and a: "parseargs (argv @ [(q, eq)]) ret' s2 = Ok (c, s')"
      and c: "t = of_char CHR ''a''" "\<not> MAXARGS \<le> length (argv @ [(q, eq)])"
      using "1.prems" p g parseargs.simps [of argv ret s] by (auto simp: Let_def split: if_splits)
    have "length s' \<le> length s2"
      using "1.IH" [OF p [symmetric] _ g [symmetric] refl refl _ _ refl _ r refl a] False c by simp
    then show ?thesis using parseredirs_le [OF r] le by simp
  qed
qed

lemma parsebacks_le: "parsebacks cmd s = (c, s') \<Longrightarrow> length s' \<le> length s"
proof (induction cmd s rule: parsebacks.induct)
  case (1 cmd s)
  obtain b s0 where p: "peek s (ustr ''&'') = (b, s0)" by force
  show ?case
  proof (cases b)
    case True
    then have "length s' \<le> length (next_token s0)"
      using "1.IH" [OF p [symmetric]] "1.prems" p parsebacks.simps [of cmd s] by simp
    then show ?thesis using peek_next [of s _ s0] p True by fastforce
  next
    case False
    then show ?thesis using "1.prems" p parsebacks.simps [of cmd s] peek_le [OF p] by simp
  qed
qed

lemma parse_le:
  "parseline n s = Ok (c, s') \<Longrightarrow> length s' \<le> length s"
  "parsepipe n s = Ok (c, s') \<Longrightarrow> length s' \<le> length s"
  "parseblock n s = Ok (c, s') \<Longrightarrow> length s' \<le> length s"
  "parseexec n s = Ok (c, s') \<Longrightarrow> length s' \<le> length s"
proof (induction n arbitrary: s c s')
  case (Suc n)
  {
    case 1
    obtain c1 s1 where a: "parsepipe n s = Ok (c1, s1)" using 1 by auto
    obtain c2 s2 where b: "parsebacks c1 s1 = (c2, s2)" by force
    obtain d s3 where p: "peek s2 (ustr '';'') = (d, s3)" by force
    have "length s3 \<le> length s" using Suc.IH(2) [OF a] parsebacks_le [OF b] peek_le [OF p] by simp
    moreover have "length s' \<le> length (next_token s3) \<and> length (next_token s3) < length s2" if d
      using 1 a b p that Suc.IH(1) [of "next_token s3"] peek_next [of s2 _ s3] by auto
    ultimately show ?case using 1 a b p Suc.IH(2) [OF a] parsebacks_le [OF b] by (cases d) auto
  next
    case 2
    obtain c1 s1 where a: "parseexec n s = Ok (c1, s1)" using 2 by auto
    obtain d s3 where p: "peek s1 (ustr ''|'') = (d, s3)" by force
    have "length s3 \<le> length s" using Suc.IH(4) [OF a] peek_le [OF p] by simp
    moreover have "length s' \<le> length (next_token s3) \<and> length (next_token s3) < length s1" if d
      using 2 a p that Suc.IH(2) [of "next_token s3"] peek_next [of s1 _ s3] by auto
    ultimately show ?case using 2 a p Suc.IH(4) [OF a] by (cases d) auto
  next
    case 3
    obtain d s1 where p: "peek s (ustr ''('') = (d, s1)" by force
    have d: d using 3 p by (cases d) auto
    obtain c2 s2 where a: "parseline n (next_token s1) = Ok (c2, s2)" using 3 p d by auto
    obtain e s3 where q: "peek s2 (ustr '')'') = (e, s3)" by force
    have e: e using 3 p d a q by (cases e) auto
    have "parseredirs c2 (next_token s3) = Ok (c, s')" using 3 p d a q e by simp
    then show ?case
      using Suc.IH(1) [OF a] peek_next [of s _ s1] peek_next [of s2 _ s3] p q d e parseredirs_le [of c2 "next_token s3" c s'] by fastforce
  next
    case 4
    obtain d s1 where p: "peek s (ustr ''('') = (d, s1)" by force
    show ?case
    proof (cases d)
      case True
      then show ?thesis using 4 p Suc.IH(3) [of s1 c s'] peek_le [OF p] by simp
    next
      case False
      then obtain c2 s2 where a: "parseredirs (EXEC []) s1 = Ok (c2, s2)" "parseargs [] c2 s2 = Ok (c, s')" using 4 p by auto
      then show ?thesis using parseredirs_le [OF a(1)] parseargs_le [OF a(2)] peek_le [OF p] by simp
    qed
  }
qed simp_all

lemma parse_returns:
  "4 * length s + 3 \<le> n \<Longrightarrow> parseline n s \<noteq> Blocked"
  "4 * length s + 2 \<le> n \<Longrightarrow> parsepipe n s \<noteq> Blocked"
  "4 * length s \<le> n \<Longrightarrow> 0 < n \<Longrightarrow> parseblock n s \<noteq> Blocked"
  "4 * length s + 1 \<le> n \<Longrightarrow> parseexec n s \<noteq> Blocked"
proof (induction n arbitrary: s)
  case (Suc n)
  {
    case 1
    have ne: "parsepipe n s \<noteq> Blocked" using 1 Suc.IH(2) by simp
    show ?case
    proof (cases "parsepipe n s")
      case (Ok z)
      obtain c1 s1 where z: "z = (c1, s1)" by force
      obtain c2 s2 where b: "parsebacks c1 s1 = (c2, s2)" by force
      obtain d s3 where p: "peek s2 (ustr '';'') = (d, s3)" by force
      have "parseline n (next_token s3) \<noteq> Blocked" if d
        using Suc.IH(1) [of "next_token s3"] 1 parse_le(2) [OF Ok [unfolded z]] parsebacks_le [OF b] peek_next [of s2 "ustr '';''" s3] p that by simp
      then show ?thesis using Ok z b p by (cases d) (auto simp: bnd_eq_Blocked)
    qed (use ne in auto)
  next
    case 2
    have ne: "parseexec n s \<noteq> Blocked" using 2 Suc.IH(4) by simp
    show ?case
    proof (cases "parseexec n s")
      case (Ok z)
      obtain c1 s1 where z: "z = (c1, s1)" by force
      obtain d s3 where p: "peek s1 (ustr ''|'') = (d, s3)" by force
      have "parsepipe n (next_token s3) \<noteq> Blocked" if d
        using Suc.IH(2) [of "next_token s3"] 2 parse_le(4) [OF Ok [unfolded z]] peek_next [of s1 "ustr ''|''" s3] p that by simp
      then show ?thesis using Ok z p by (cases d) (auto simp: bnd_eq_Blocked)
    qed (use ne in auto)
  next
    case 3
    obtain d s1 where p: "peek s (ustr ''('') = (d, s1)" by force
    have "parseline n (next_token s1) \<noteq> Blocked" if d
      using Suc.IH(1) [of "next_token s1"] 3 peek_next [of s "ustr ''(''" s1] p that by simp
    moreover have "(case peek s2 t of (True, s3) \<Rightarrow> parseredirs c2 (next_token s3) | (False, s3) \<Rightarrow> Panic e) \<noteq> Blocked" for s2 t e c2
      using parseredirs_returns by (cases "peek s2 t"; cases "fst (peek s2 t)") simp_all
    ultimately show ?case using p by (cases d) (auto simp: bnd_eq_Blocked)
  next
    case 4
    obtain d s1 where p: "peek s (ustr ''('') = (d, s1)" by force
    have "parseblock n s1 \<noteq> Blocked" if d
    proof -
      have "0 < length s" using peek_next [of s "ustr ''(''" s1] p that by (cases s) simp_all
      then have "0 < n" using 4 by (cases s) simp_all
      then show ?thesis using Suc.IH(3) [of s1] 4 peek_le [OF p] by simp
    qed
    then show ?case using p by (cases d) (auto simp: bnd_eq_Blocked parseredirs_returns parseargs_returns)
  }
qed simp_all

section \<open>The strings of a parsed command\<close>

text \<open>The text between two pointers, and the strings that a command refers to.\<close>

definition text_of :: "lptr \<times> lptr \<Rightarrow> bytes" where
  "text_of t = take (length (fst t) - length (snd t)) (fst t)"

primrec toks :: "cmd \<Rightarrow> (lptr \<times> lptr) list" where
  "toks (EXEC argv) = argv"
| "toks (REDIR c q eq mode fd) = (q, eq) # toks c"
| "toks (PIPE l r) = toks l @ toks r"
| "toks (LIST l r) = toks l @ toks r"
| "toks (BACK c) = toks c"

definition word_char :: "u8 \<Rightarrow> bool" where
  "word_char c \<longleftrightarrow> c \<noteq> 0 \<and> \<not> is_space c \<and> \<not> is_symbol c"

text \<open>A token of a line: its characters are those of a word, and the character after it is not.\<close>

definition tok_ok :: "bytes \<Rightarrow> lptr \<times> lptr \<Rightarrow> bool" where
  "tok_ok line t \<longleftrightarrow> suffix (fst t) line \<and> suffix (snd t) (fst t) \<and> (\<forall>c\<in>set (text_of t). word_char c) \<and>
     (snd t = [] \<or> \<not> word_char (hd (snd t)))"

definition cmd_ok :: "bytes \<Rightarrow> cmd \<times> lptr \<Rightarrow> bool" where
  "cmd_ok line r \<longleftrightarrow> suffix (snd r) line \<and> (\<forall>t\<in>set (toks (fst r)). tok_ok line t)"

lemma suffix_dropWhile: "suffix (dropWhile P xs) xs"
  by (metis suffixI takeWhile_dropWhile_id)

lemma suffix_tl: "suffix (tl xs) xs"
  by (cases xs) (auto simp: suffix_def)

lemma text_of_dropWhile: "text_of (xs, dropWhile P xs) = takeWhile P xs"
proof -
  have "length xs - length (dropWhile P xs) = length (takeWhile P xs)"
    by (metis add_diff_cancel_right' length_append takeWhile_dropWhile_id)
  then show ?thesis by (metis append_eq_conv_conj fst_conv snd_conv takeWhile_dropWhile_id text_of_def)
qed

lemma peek_suffix: "peek s ts = (b, s') \<Longrightarrow> suffix s' s"
  by (auto simp: peek_def Let_def suffix_dropWhile)

lemma scan_token_suffix: "scan_token s = (t, s') \<Longrightarrow> suffix s' s"
  by (cases s; cases "tl s") (auto simp: scan_token_def Let_def char0_def suffix_dropWhile suffix_Cons split: if_splits)

lemma gettoken_suffix:
  assumes "gettoken s = (t, q, eq, s')"
  shows "suffix q s" "suffix eq q" "suffix s' eq"
proof -
  have q: "q = dropWhile is_space s" and s': "s' = dropWhile is_space eq" and t: "scan_token q = (t, eq)"
    using assms by (auto simp: gettoken_def Let_def split: prod.splits)
  show "suffix q s" "suffix s' eq" unfolding q s' by (rule suffix_dropWhile)+
  show "suffix eq q" using scan_token_suffix [OF t] .
qed

lemmas suffix_tr = suffix_order.trans

lemma gettoken_rest: "gettoken s = (t, q, eq, s') \<Longrightarrow> suffix s' s"
  using gettoken_suffix [of s t q eq s'] by (blast intro: suffix_tr)

lemma next_token_suffix: "suffix (next_token s) s"
proof -
  obtain t q eq s' where g: "gettoken s = (t, q, eq, s')" by (metis prod_cases4)
  then show ?thesis using gettoken_rest [OF g] by simp
qed

lemma gettoken_word:
  assumes "gettoken s = (of_char CHR ''a'', q, eq, s')" "suffix s line" "0 \<notin> set line"
  shows "tok_ok line (q, eq)"
proof -
  let ?P = "\<lambda>c. \<not> is_space c \<and> \<not> is_symbol c"
  have q: "q = dropWhile is_space s" and t: "scan_token q = (of_char CHR ''a'', eq)"
    using assms(1) by (auto simp: gettoken_def Let_def split: prod.splits)
  have e: "eq = dropWhile ?P q"
    using t by (auto simp: scan_token_def Let_def split: if_splits)
  have sq: "suffix q line" using assms(2) unfolding q by (meson suffix_dropWhile suffix_order.trans)
  then have "0 \<notin> set q" using assms(3) set_mono_suffix by blast
  then have "\<forall>c\<in>set (text_of (q, eq)). word_char c" unfolding e text_of_dropWhile
    by (auto simp: word_char_def dest: set_takeWhileD)
  moreover have "eq = [] \<or> \<not> word_char (hd eq)" using dropWhile_hd [of ?P q] unfolding e by (auto simp: word_char_def)
  ultimately show ?thesis using sq suffix_dropWhile [of ?P q] unfolding e by (simp add: tok_ok_def)
qed

lemma toks_redir: "set (toks (redir t c q eq)) \<subseteq> insert (q, eq) (set (toks c))"
  by (auto simp: redir_def)

lemma parseredirs_ok:
  assumes "0 \<notin> set line"
  shows "parseredirs cmd s = Ok r \<Longrightarrow> cmd_ok line (cmd, s) \<Longrightarrow> cmd_ok line r"
proof (induction cmd s rule: parseredirs.induct)
  case (1 cmd s)
  obtain b s0 where p: "peek s (ustr ''<>'') = (b, s0)" by force
  obtain tok q0 e0 s1 where g: "gettoken s0 = (tok, q0, e0, s1)" by (metis prod_cases4)
  obtain t q eq s2 where g': "gettoken s1 = (t, q, eq, s2)" by (metis prod_cases4)
  have "suffix s line" using "1.prems"(2) by (simp add: cmd_ok_def)
  note s0 = suffix_tr [OF peek_suffix [OF p] this]
  note s1 = suffix_tr [OF gettoken_rest [OF g] s0]
  note s2 = suffix_tr [OF gettoken_rest [OF g'] s1]
  show ?case
  proof (cases b)
    case True
    then have r: "parseredirs (redir tok cmd q eq) s2 = Ok r" and t: "t = of_char CHR ''a''"
      using "1.prems" p g g' parseredirs.simps [of cmd s] by (auto split: if_splits)
    have "cmd_ok line (redir tok cmd q eq, s2)"
      using "1.prems"(2) s2 gettoken_word [OF g' [unfolded t] s1 assms] toks_redir [of tok cmd q eq] by (auto simp: cmd_ok_def)
    then show ?thesis
      using "1.IH" [OF p [symmetric] _ g [symmetric] refl refl g' [symmetric] refl refl] True r t by simp
  next
    case False
    then show ?thesis using "1.prems" p s0 parseredirs.simps [of cmd s] by (auto simp: cmd_ok_def)
  qed
qed

lemma toks_set_argv: "set (toks (set_argv a c)) \<subseteq> set a \<union> set (toks c)"
  by (induction c) auto

lemma parseargs_ok:
  assumes "0 \<notin> set line"
  shows "parseargs argv ret s = Ok r \<Longrightarrow> cmd_ok line (ret, s) \<Longrightarrow> \<forall>t\<in>set argv. tok_ok line t \<Longrightarrow> cmd_ok line r"
proof (induction argv ret s rule: parseargs.induct)
  case (1 argv ret s)
  obtain b s0 where p: "peek s (ustr ''|)&;'') = (b, s0)" by force
  obtain t q eq s1 where g: "gettoken s0 = (t, q, eq, s1)" by (metis prod_cases4)
  have "suffix s line" using "1.prems"(2) by (simp add: cmd_ok_def)
  note s0 = suffix_tr [OF peek_suffix [OF p] this]
  note s1 = suffix_tr [OF gettoken_rest [OF g] s0]
  show ?case
  proof (cases "b \<or> t = 0")
    case True
    have "\<forall>t\<in>set (toks (set_argv argv ret)). tok_ok line t" using "1.prems"(2,3) toks_set_argv [of argv ret] by (auto simp: cmd_ok_def)
    then show ?thesis using True "1.prems" p g s0 s1 parseargs.simps [of argv ret s] by (cases b) (auto simp: cmd_ok_def)
  next
    case False
    then obtain ret' s2 where r: "parseredirs ret s1 = Ok (ret', s2)" and a: "parseargs (argv @ [(q, eq)]) ret' s2 = Ok r"
      and c: "t = of_char CHR ''a''" "\<not> MAXARGS \<le> length (argv @ [(q, eq)])"
      using "1.prems" p g parseargs.simps [of argv ret s] by (auto simp: Let_def split: if_splits)
    have "cmd_ok line (ret', s2)" using parseredirs_ok [OF assms r] "1.prems"(2) s1 by (simp add: cmd_ok_def)
    moreover have "tok_ok line (q, eq)" using gettoken_word [OF g [unfolded c(1)] s0 assms] .
    ultimately show ?thesis
      using "1.IH" [OF p [symmetric] _ g [symmetric] refl refl _ _ refl _ r refl a] False c "1.prems"(3) by simp
  qed
qed

lemma parsebacks_ok: "cmd_ok line (cmd, s) \<Longrightarrow> cmd_ok line (parsebacks cmd s)"
proof (induction cmd s rule: parsebacks.induct)
  case (1 cmd s)
  obtain b s0 where p: "peek s (ustr ''&'') = (b, s0)" by force
  have "suffix s line" using "1.prems" by (simp add: cmd_ok_def)
  note s0 = suffix_tr [OF peek_suffix [OF p] this]
  from s0 suffix_tr [OF next_token_suffix s0] show ?case using "1.IH" [OF p [symmetric]] "1.prems" p parsebacks.simps [of cmd s] by (cases b) (simp_all add: cmd_ok_def)
qed

lemma peek_step_ok: "cmd_ok line (c, s) \<Longrightarrow> peek s ts = (b, s') \<Longrightarrow> cmd_ok line (c, s') \<and> cmd_ok line (c, next_token s')"
  using peek_suffix [of s ts b s'] next_token_suffix [of s'] by (auto simp: cmd_ok_def intro: suffix_tr)

lemma parse_ok:
  assumes z: "0 \<notin> set line"
  shows "suffix s line \<Longrightarrow> parseline n s = Ok r \<Longrightarrow> cmd_ok line r"
    "suffix s line \<Longrightarrow> parsepipe n s = Ok r \<Longrightarrow> cmd_ok line r"
    "suffix s line \<Longrightarrow> parseblock n s = Ok r \<Longrightarrow> cmd_ok line r"
    "suffix s line \<Longrightarrow> parseexec n s = Ok r \<Longrightarrow> cmd_ok line r"
proof (induction n arbitrary: s r)
  case (Suc n)
  {
    case 1
    obtain c1 s1 where a: "parsepipe n s = Ok (c1, s1)" using 1 by auto
    obtain c2 s2 where b: "parsebacks c1 s1 = (c2, s2)" by force
    obtain d s3 where p: "peek s2 (ustr '';'') = (d, s3)" by force
    have "cmd_ok line (c1, s1)" using Suc.IH(2) [OF 1(1) a] .
    from parsebacks_ok [OF this] have "cmd_ok line (c2, s2)" by (simp add: b)
    note k = peek_step_ok [OF this p]
    have "cmd_ok line r'" if "parseline n (next_token s3) = Ok r'" for r'
      using Suc.IH(1) [OF _ that] k by (simp add: cmd_ok_def)
    then show ?case using 1 a b p k by (cases d) (auto simp: cmd_ok_def)
  next
    case 2
    obtain c1 s1 where a: "parseexec n s = Ok (c1, s1)" using 2 by auto
    obtain d s3 where p: "peek s1 (ustr ''|'') = (d, s3)" by force
    note k = peek_step_ok [OF Suc.IH(4) [OF 2(1) a] p]
    have "cmd_ok line r'" if "parsepipe n (next_token s3) = Ok r'" for r'
      using Suc.IH(2) [OF _ that] k by (simp add: cmd_ok_def)
    then show ?case using 2 a p k by (cases d) (auto simp: cmd_ok_def)
  next
    case 3
    obtain d s1 where p: "peek s (ustr ''('') = (d, s1)" by force
    have d: d using 3 p by (cases d) auto
    obtain c2 s2 where a: "parseline n (next_token s1) = Ok (c2, s2)" using 3 p d by auto
    obtain e s3 where q: "peek s2 (ustr '')'') = (e, s3)" by force
    have e: e using 3 p d a q by (cases e) auto
    have r: "parseredirs c2 (next_token s3) = Ok r" using 3 p d a q e by simp
    have "suffix (next_token s1) line" using 3(1) peek_suffix [OF p] next_token_suffix [of s1] by (blast intro: suffix_tr)
    from peek_step_ok [OF Suc.IH(1) [OF this a] q] show ?case using parseredirs_ok [OF z r] by simp
  next
    case 4
    obtain d s1 where p: "peek s (ustr ''('') = (d, s1)" by force
    have s1: "suffix s1 line" using 4(1) peek_suffix [OF p] by (blast intro: suffix_tr)
    show ?case
    proof (cases d)
      case True
      then show ?thesis using 4 p Suc.IH(3) [OF s1, of r] by simp
    next
      case False
      then obtain c2 s2 where a: "parseredirs (EXEC []) s1 = Ok (c2, s2)" "parseargs [] c2 s2 = Ok r" using 4 p by auto
      have "cmd_ok line (EXEC [], s1)" using s1 by (simp add: cmd_ok_def)
      then show ?thesis using parseargs_ok [OF z a(2) parseredirs_ok [OF z a(1)]] by simp
    qed
  }
qed simp_all

text \<open>The string at a pointer into a line that ends with a NUL.\<close>

definition string_at :: "bytes \<Rightarrow> lptr \<Rightarrow> bytes" where
  "string_at buf p = takeWhile (\<lambda>c. c \<noteq> 0) (drop (length buf - 1 - length p) buf)"

text \<open>\<open>nulterminate\<close> writes a NUL behind every token and nowhere else.\<close>

lemma nulterminate_eq:
  "nulterminate c buf = map (\<lambda>i. if \<exists>t\<in>set (toks c). i = length buf - 1 - length (snd t) then 0 else buf ! i) [0..<length buf]"
proof (induction c arbitrary: buf)
  case (EXEC argv)
  show ?case
  proof (induction argv arbitrary: buf)
    case (Cons t argv)
    obtain q eq where t: "t = (q, eq)" by force
    have "length (put_nul eq buf) = length buf" by (simp add: put_nul_def)
    then show ?case using Cons.IH [of "put_nul eq buf"] unfolding t
      by (auto simp: put_nul_def nth_list_update intro!: nth_equalityI)
  qed (simp add: map_nth)
next
  case (REDIR c q eq mode fd)
  show ?case by (rule nth_equalityI) (auto simp: REDIR put_nul_def nth_list_update)
qed (auto intro!: nth_equalityI)

lemma suffix_nth: "suffix p xs \<Longrightarrow> i < length p \<Longrightarrow> xs ! (length xs - length p + i) = p ! i"
  by (auto simp: suffix_def nth_append)

lemma nulterminated_string:
  assumes ok: "\<forall>t\<in>set (toks c). tok_ok line t" and t: "(q, eq) \<in> set (toks c)"
  shows "string_at (nulterminate c (line @ [0])) q = text_of (q, eq)"
proof -
  let ?b = "nulterminate c (line @ [0])" and ?n = "length q - length eq"
  have tk: "suffix q line" "suffix eq q" "\<forall>c\<in>set (text_of (q, eq)). word_char c" using ok t by (auto simp: tok_ok_def)
  have len: "length eq \<le> length q" "length q \<le> length line" using tk suffix_length_le by blast+
  have nb: "?b ! i = (if \<exists>t\<in>set (toks c). i = length line - length (snd t) then 0 else (line @ [0]) ! i)" if "i \<le> length line" for i
    using that by (simp add: nulterminate_eq del: upt_Suc)
  have in_word: "word_char (line ! i)" "?b ! i = line ! i" if "length line - length q \<le> i" "i < length line - length eq" for i
  proof -
    let ?j = "i - (length line - length q)"
    have j: "?j < ?n" using that len by simp
    have e: "line ! i = q ! ?j" using suffix_nth [OF tk(1), of ?j] that len by simp
    moreover have "q ! ?j \<in> set (text_of (q, eq))" using j len by (auto simp: text_of_def in_set_conv_nth intro!: exI [of _ ?j])
    ultimately show w: "word_char (line ! i)" using tk(3) by simp
    have "i \<noteq> length line - length (snd u)" if u: "u \<in> set (toks c)" for u
    proof
      assume i: "i = length line - length (snd u)"
      have su: "suffix (snd u) line" "snd u = [] \<or> \<not> word_char (hd (snd u))" using ok u by (auto simp: tok_ok_def intro: suffix_tr)
      have "length (snd u) \<le> length line" using suffix_length_le [OF su(1)] .
      then have ne: "0 < length (snd u)" using i \<open>i < length line - length eq\<close> by linarith
      then have "line ! i = hd (snd u)" using suffix_nth [OF su(1), of 0] i by (simp add: hd_conv_nth)
      then show False using w su(2) ne by auto
    qed
    then show "?b ! i = line ! i" using nb [of i] that len by (auto simp: nth_append)
  qed
  have lb: "length ?b = Suc (length line)" by (simp add: nulterminate_eq)
  let ?d = "drop (length line - length q) ?b"
  have "takeWhile (\<lambda>c. c \<noteq> 0) ?d = take ?n ?d"
  proof (rule takeWhile_eq_take_P_nth)
    show "?d ! i \<noteq> 0" if "i < ?n" "i < length ?d" for i
      using in_word [of "length line - length q + i"] that len lb by (simp add: word_char_def)
    show "\<not> ?d ! ?n \<noteq> 0" if "?n < length ?d"
    proof -
      have "\<exists>t\<in>set (toks c). length line - length eq = length line - length (snd t)" using t by (intro bexI [of _ "(q, eq)"]) auto
      then show ?thesis using nb [of "length line - length eq"] len lb by simp
    qed
  qed
  also have "\<dots> = take ?n q"
  proof (rule nth_equalityI)
    show "length (take ?n ?d) = length (take ?n q)" using len lb by simp
    show "take ?n ?d ! i = take ?n q ! i" if "i < length (take ?n ?d)" for i
      using in_word(2) [of "length line - length q + i"] suffix_nth [OF tk(1), of i] that len lb by simp
  qed
  finally show ?thesis using lb by (simp add: string_at_def text_of_def)
qed

end
