(* ===== verification/Grammar.thy ===== *)
theory Grammar
  imports Shell
begin

text \<open>
  The language of the shell: the commands that a user means, how they are written as sequences of tokens and how
  tokens are typed, given by inductive relations; and the proof that the parser of user/sh.c accepts exactly
  this language and finds the command that was meant.
\<close>

section \<open>Commands as a user means them\<close>

datatype acmd =
    AExec "bytes list"
  | ARedir acmd bytes u32 int
  | APipe acmd acmd
  | AList acmd acmd
  | ABack acmd

text \<open>The command in memory, with its strings read from the line \<open>buf\<close>, and with the text of its tokens.\<close>

primrec command_in :: "bytes \<Rightarrow> cmd \<Rightarrow> acmd" where
  "command_in buf (EXEC argv) = AExec (map (\<lambda>t. string_at buf (fst t)) argv)"
| "command_in buf (REDIR c q eq mode fd) = ARedir (command_in buf c) (string_at buf q) mode fd"
| "command_in buf (PIPE l r) = APipe (command_in buf l) (command_in buf r)"
| "command_in buf (LIST l r) = AList (command_in buf l) (command_in buf r)"
| "command_in buf (BACK c) = ABack (command_in buf c)"

primrec command_of :: "cmd \<Rightarrow> acmd" where
  "command_of (EXEC argv) = AExec (map text_of argv)"
| "command_of (REDIR c q eq mode fd) = ARedir (command_of c) (text_of (q, eq)) mode fd"
| "command_of (PIPE l r) = APipe (command_of l) (command_of r)"
| "command_of (LIST l r) = AList (command_of l) (command_of r)"
| "command_of (BACK c) = ABack (command_of c)"

lemma command_in_of:
  "\<forall>(q, eq)\<in>set (toks c). string_at buf q = text_of (q, eq) \<Longrightarrow> command_in buf c = command_of c"
  by (induction c) auto

section \<open>How commands are typed\<close>

datatype token = Word bytes | Sym bytes

definition operators :: "bytes list" where
  "operators = map ustr [''<'', ''>'', ''>>'', ''|'', ''&'', '';'', ''('', '')'']"

definition word_ok :: "bytes \<Rightarrow> bool" where
  "word_ok w \<longleftrightarrow> w \<noteq> [] \<and> (\<forall>c\<in>set w. word_char c)"

definition blanks :: "bytes \<Rightarrow> bool" where
  "blanks b \<longleftrightarrow> (\<forall>c\<in>set b. is_space c)"

text \<open>
  The lines that spell a sequence of tokens: any blanks may stand before a token and at the end of the line. None
  is needed between two tokens, except after a word before another word, and between two operators \<open>>\<close>.
\<close>

inductive spells :: "token list \<Rightarrow> bytes \<Rightarrow> bool" where
  spell_end: "blanks b \<Longrightarrow> spells [] b"
| spell_word: "blanks b \<Longrightarrow> word_ok w \<Longrightarrow> spells ts s \<Longrightarrow> s = [] \<or> \<not> word_char (hd s) \<Longrightarrow> spells (Word w # ts) (b @ w @ s)"
| spell_op: "blanks b \<Longrightarrow> x \<in> set operators \<Longrightarrow> spells ts s \<Longrightarrow> x = ustr ''>'' \<longrightarrow> s = [] \<or> hd s \<noteq> of_char CHR ''>'' \<Longrightarrow>
    spells (Sym x # ts) (b @ x @ s)"

inductive_cases spells_WordE: "spells (Word w # ts) s"
inductive_cases spells_SymE: "spells (Sym x # ts) s"

text \<open>A redirection: the name of the file, the mode for \<open>open\<close> and the descriptor.\<close>

type_synonym redirection = "bytes \<times> u32 \<times> int"

definition redir_ok :: "redirection \<Rightarrow> bool" where
  "redir_ok d \<longleftrightarrow> word_ok (fst d) \<and> snd d \<in> {(O_RDONLY, 0), (O_WRONLY OR O_CREATE OR O_TRUNC, 1), (O_WRONLY OR O_CREATE, 1)}"

definition redir_sym :: "u32 \<Rightarrow> int \<Rightarrow> bytes" where
  "redir_sym mode fd = (if fd = 0 then ustr ''<'' else if mode AND O_TRUNC \<noteq> 0 then ustr ''>'' else ustr ''>>'')"

definition redir_tokens :: "redirection list \<Rightarrow> token list" where
  "redir_tokens ds = concat (map (\<lambda>(f, mode, fd). [Sym (redir_sym mode fd), Word f]) ds)"

definition with_redirs :: "acmd \<Rightarrow> redirection list \<Rightarrow> acmd" where
  "with_redirs a ds = foldl (\<lambda>a (f, mode, fd). ARedir a f mode fd) a ds"

text \<open>An argument of a simple command with the redirections that follow it.\<close>

type_synonym arg = "bytes \<times> redirection list"

definition arg_ok :: "arg \<Rightarrow> bool" where
  "arg_ok x \<longleftrightarrow> word_ok (fst x) \<and> (\<forall>d\<in>set (snd x). redir_ok d)"

definition arg_tokens :: "arg list \<Rightarrow> token list" where
  "arg_tokens xs = concat (map (\<lambda>(w, ds). Word w # redir_tokens ds) xs)"

text \<open>
  The grammar, with the command that a sequence of tokens means. A simple command has fewer than MAXARGS
  arguments, with redirections anywhere; a block is a line in parentheses, with redirections after it. Both bind
  stronger than the pipe, which binds stronger than the ampersand, which binds stronger than the semicolon.
\<close>

inductive simple_cmd :: "acmd \<Rightarrow> token list \<Rightarrow> bool"
  and pipeline :: "acmd \<Rightarrow> token list \<Rightarrow> bool"
  and background :: "acmd \<Rightarrow> token list \<Rightarrow> bool"
  and command_line :: "acmd \<Rightarrow> token list \<Rightarrow> bool" where
  simple_args: "\<forall>d\<in>set ds. redir_ok d \<Longrightarrow> \<forall>x\<in>set xs. arg_ok x \<Longrightarrow> length xs < MAXARGS \<Longrightarrow>
    simple_cmd (with_redirs (AExec (map fst xs)) (ds @ concat (map snd xs))) (redir_tokens ds @ arg_tokens xs)"
| simple_block: "command_line a ts \<Longrightarrow> \<forall>d\<in>set ds. redir_ok d \<Longrightarrow>
    simple_cmd (with_redirs a ds) (Sym (ustr ''('') # ts @ Sym (ustr '')'') # redir_tokens ds)"
| pipe_last: "simple_cmd a ts \<Longrightarrow> pipeline a ts"
| pipe_more: "simple_cmd a ts \<Longrightarrow> pipeline b us \<Longrightarrow> pipeline (APipe a b) (ts @ Sym (ustr ''|'') # us)"
| back_none: "pipeline a ts \<Longrightarrow> background a ts"
| back_more: "background a ts \<Longrightarrow> background (ABack a) (ts @ [Sym (ustr ''&'')])"
| line_last: "background a ts \<Longrightarrow> command_line a ts"
| line_more: "background a ts \<Longrightarrow> command_line b us \<Longrightarrow> command_line (AList a b) (ts @ Sym (ustr '';'') # us)"

section \<open>Reading tokens\<close>

abbreviation skip :: "lptr \<Rightarrow> lptr" where
  "skip \<equiv> dropWhile is_space"

lemma strchr_None: "strchr s c = None \<longleftrightarrow> c \<notin> set s"
  by (induction s) auto

lemma operator_cases:
  assumes "x \<in> set operators"
  obtains c where "x = [c]" "c \<in> set (map of_char ''|();&<'') \<or> c = of_char CHR ''>''"
    | "x = [of_char CHR ''>'', of_char CHR ''>'']"
  using assms by (auto simp: operators_def ustr_def)

lemma symbol_not_space: "is_symbol c \<Longrightarrow> \<not> is_space c" "is_symbol c \<Longrightarrow> c \<noteq> 0"
  by (auto simp: is_symbol_iff is_space_def whitespace_def)

lemma operator_first:
  assumes "x \<in> set operators"
  shows "x \<noteq> []" "is_symbol (hd x)"
  using assms by (auto elim!: operator_cases simp: is_symbol_iff)

lemma skip_blanks: "blanks b \<Longrightarrow> s = [] \<or> \<not> is_space (hd s) \<Longrightarrow> skip (b @ s) = s"
  by (cases s) (auto simp: blanks_def dropWhile_append)

text \<open>What is left after the blanks spells the same tokens.\<close>

lemma spells_cases:
  assumes "spells ts s"
  obtains "ts = []" "skip s = []"
    | w us r where "ts = Word w # us" "skip s = w @ r" "word_ok w" "spells us r" "r = [] \<or> \<not> word_char (hd r)"
    | x us r where "ts = Sym x # us" "skip s = x @ r" "x \<in> set operators" "spells us r"
        "x = ustr ''>'' \<longrightarrow> r = [] \<or> hd r \<noteq> of_char CHR ''>''"
  using assms
proof cases
  case spell_end
  then show ?thesis using that(1) by (simp add: blanks_def)
next
  case (spell_word b w us r)
  have "skip s = w @ r" using spell_word(2,3,4)
    by (simp only:) (rule skip_blanks, auto simp: word_ok_def word_char_def neq_Nil_conv)
  then show ?thesis using that(2) spell_word by blast
next
  case (spell_op b x us r)
  have "skip s = x @ r" using spell_op(2,3,4) operator_first [OF spell_op(4)] symbol_not_space
    by (simp only:) (rule skip_blanks, auto simp: neq_Nil_conv)
  then show ?thesis using that(3) spell_op by blast
qed

lemma spells_skip: "spells ts s \<Longrightarrow> spells ts (skip s)"
  by (erule spells_cases) (auto simp: blanks_def simp del: dropWhile_eq_Nil_conv intro: spells.intros [of "[]", simplified])

text \<open>The character of the next token, and the value that \<open>gettoken\<close> returns for it.\<close>

fun first_sym :: "token list \<Rightarrow> u8 option" where
  "first_sym (Sym x # ts) = Some (hd x)"
| "first_sym ts = None"

fun code :: "token list \<Rightarrow> u8" where
  "code [] = 0"
| "code (Word w # ts) = of_char CHR ''a''"
| "code (Sym x # ts) = (if x = ustr ''>>'' then of_char CHR ''+'' else hd x)"

lemma peek_spelled:
  assumes "spells ts s" "\<forall>c\<in>set cs. is_symbol c"
  shows "peek s cs = (first_sym ts \<in> Some ` set cs, skip s)"
  using assms(1)
proof (cases rule: spells_cases)
  case (2 w us r)
  then obtain c w' where "w = c # w'" "word_char c" by (cases w) (auto simp: word_ok_def)
  then show ?thesis using 2 assms(2) by (auto simp: peek_def Let_def char0_def strchr_None word_char_def)
next
  case (3 x us r)
  then obtain c x' where "x = c # x'" "is_symbol c" using operator_first [of x] by (cases x) auto
  then show ?thesis using 3 symbol_not_space [of c] by (auto simp: peek_def Let_def char0_def strchr_None)
qed (simp add: peek_def Let_def char0_def del: dropWhile_eq_Nil_conv)

lemma dropWhile_word:
  assumes "word_ok w" "r = [] \<or> \<not> word_char (hd r)" "r = [] \<or> hd r \<noteq> 0"
  shows "dropWhile (\<lambda>c. \<not> is_space c \<and> \<not> is_symbol c) (w @ r) = r"
proof -
  have "\<forall>c\<in>set w. \<not> is_space c \<and> \<not> is_symbol c" using assms(1) by (auto simp: word_ok_def word_char_def)
  moreover have "r = [] \<or> is_space (hd r) \<or> is_symbol (hd r)" using assms(2,3) by (auto simp: word_char_def)
  ultimately show ?thesis by (cases r) (auto simp: dropWhile_append)
qed

lemma spells_nonzero: "spells ts s \<Longrightarrow> 0 \<notin> set s"
proof (induction rule: spells.induct)
  case (spell_op b x ts s)
  then show ?case by (auto simp: blanks_def is_space_def whitespace_def elim!: operator_cases)
qed (auto simp: blanks_def is_space_def whitespace_def word_ok_def word_char_def)

lemma text_of_word: "text_of (w @ r, r) = w"
  by (simp add: text_of_def)

lemma gettoken_spelled:
  assumes "spells ts s"
  obtains q eq s' where "gettoken s = (code ts, q, eq, s')" "spells (tl ts) s'"
    "\<And>w us. ts = Word w # us \<Longrightarrow> word_ok w \<and> text_of (q, eq) = w"
  using assms
proof (cases rule: spells_cases)
  case 1
  then show ?thesis using that [of "[]" "[]" "[]"] spell_end [of "[]"]
    by (simp add: gettoken_def scan_token_def char0_def blanks_def del: dropWhile_eq_Nil_conv)
next
  case (2 w us r)
  then obtain c w' where c: "w = c # w'" "word_char c" by (cases w) (auto simp: word_ok_def)
  have "r = [] \<or> hd r \<noteq> 0" using spells_nonzero [OF 2(4)] by (cases r) auto
  then have "dropWhile (\<lambda>c. \<not> is_space c \<and> \<not> is_symbol c) (w @ r) = r" using 2 by (intro dropWhile_word)
  moreover have "c \<noteq> 0" "c \<notin> set (map of_char ''|();&<'')" "c \<noteq> of_char CHR ''>''" using c(2) by (auto simp: word_char_def is_symbol_iff)
  ultimately have "scan_token (w @ r) = (of_char CHR ''a'', r)" using c(1) by (simp add: scan_token_def char0_def Let_def)
  then have "gettoken s = (code ts, w @ r, r, skip r)" using 2 by (simp add: gettoken_def)
  then show ?thesis using 2 spells_skip [OF 2(4)] by (intro that [of "w @ r" r "skip r"]) (auto simp: text_of_word)
next
  case (3 x us r)
  have "scan_token (x @ r) = (code ts, r)"
  proof (cases rule: operator_cases [OF 3(3)])
    case (1 c)
    then show ?thesis using 3 by (cases r) (auto simp: scan_token_def char0_def Let_def ustr_def)
  next
    case 2
    then show ?thesis using 3(1) by (simp add: scan_token_def char0_def Let_def ustr_def)
  qed
  then have "gettoken s = (code ts, x @ r, r, skip r)" using 3 by (simp add: gettoken_def)
  then show ?thesis using 3 spells_skip [OF 3(4)] by (intro that [of "x @ r" r "skip r"]) auto
qed

lemma next_spelled: "spells (t # ts) s \<Longrightarrow> spells ts (next_token s)"
  by (erule gettoken_spelled) simp

text \<open>Every line without a NUL spells some tokens.\<close>

lemma spells_some: "0 \<notin> set s \<Longrightarrow> \<exists>ts. spells ts s"
proof (induction s rule: length_induct)
  case (1 s)
  obtain b r where s: "s = b @ r" "blanks b" "r = [] \<or> \<not> is_space (hd r)"
    using takeWhile_dropWhile_id [of is_space s] dropWhile_hd [of is_space s] set_takeWhileD
    by (metis blanks_def)
  show ?case
  proof (cases r)
    case Nil
    then show ?thesis using s spell_end by auto
  next
    case (Cons c r')
    show ?thesis
    proof (cases "is_symbol c")
      case False
      let ?w = "takeWhile word_char r" and ?r = "dropWhile word_char r"
      have c: "word_char c" using False Cons s "1.prems" by (auto simp: word_char_def)
      then have w: "word_ok ?w" using Cons by (auto simp: word_ok_def dest: set_takeWhileD)
      have e: "s = b @ ?w @ ?r" using s(1) by simp
      have "length ?r < length s" using c Cons s(1) length_dropWhile_le [of word_char r'] by simp
      moreover have "0 \<notin> set ?r" using "1.prems" s(1) by (auto dest: set_dropWhileD)
      ultimately obtain ts where "spells ts ?r" using "1.IH" by blast
      then have "spells (Word ?w # ts) (b @ ?w @ ?r)" using s(2) w dropWhile_hd [of word_char r] by (intro spell_word)
      then show ?thesis using e by metis
    next
      case True
      have z: "0 \<notin> set r'" using "1.prems" s(1) Cons by simp
      show ?thesis
      proof (cases "c = of_char CHR ''>'' \<and> r' \<noteq> [] \<and> hd r' = of_char CHR ''>''")
        case True
        then obtain r'' where r: "r' = of_char CHR ''>'' # r''" by (cases r') auto
        obtain ts where "spells ts r''" using "1.IH" s(1) Cons r z by force
        then have "spells (Sym (ustr ''>>'') # ts) (b @ ustr ''>>'' @ r'')" using s(2) by (intro spell_op) (auto simp: operators_def ustr_def)
        then show ?thesis using True s(1) Cons r by (auto simp: ustr_def)
      next
        case False
        obtain ts where "spells ts r'" using "1.IH" s(1) Cons z by force
        then have "spells (Sym [c] # ts) (b @ [c] @ r')" using s(2) True False
          by (intro spell_op) (auto simp: operators_def ustr_def is_symbol_iff)
        then show ?thesis using s(1) Cons by auto
      qed
    qed
  qed
qed

section \<open>Parsing what was typed\<close>

lemma with_redirs_simps:
  "with_redirs a [] = a" "with_redirs a ((f, mode, fd) # ds) = with_redirs (ARedir a f mode fd) ds"
  "with_redirs a (ds @ es) = with_redirs (with_redirs a ds) es"
  by (simp_all add: with_redirs_def)

lemma tokens_simps:
  "redir_tokens [] = []" "redir_tokens ((f, mode, fd) # ds) = Sym (redir_sym mode fd) # Word f # redir_tokens ds"
  "arg_tokens [] = []" "arg_tokens ((w, ds) # xs) = Word w # redir_tokens ds @ arg_tokens xs"
  by (simp_all add: redir_tokens_def arg_tokens_def)

text \<open>The operators of the grammar, as \<open>peek\<close> sees them.\<close>

lemma symbols_ok [simp]:
  "\<forall>c\<in>set (ustr ''<>''). is_symbol c" "\<forall>c\<in>set (ustr ''|)&;''). is_symbol c" "\<forall>c\<in>set (ustr ''&''). is_symbol c"
  "\<forall>c\<in>set (ustr '';''). is_symbol c" "\<forall>c\<in>set (ustr ''|''). is_symbol c" "\<forall>c\<in>set (ustr ''(''). is_symbol c"
  "\<forall>c\<in>set (ustr '')''). is_symbol c"
  by (simp_all add: ustr_def is_symbol_def symbols_def)

abbreviation starts :: "token list \<Rightarrow> string \<Rightarrow> bool" where
  "starts ts cs \<equiv> first_sym ts \<in> Some ` set (ustr cs)"

lemma redir_token:
  assumes "redir_ok (f, mode, fd)"
  shows "starts (Sym (redir_sym mode fd) # ts) ''<>''" "redir (code (Sym (redir_sym mode fd) # ts)) c q eq = REDIR c q eq mode fd"
  using assms by (auto simp: redir_ok_def redir_sym_def ustr_def redir_def O_WRONLY_def O_CREATE_def O_TRUNC_def)

lemma parseredirs_typed:
  assumes "\<forall>d\<in>set ds. redir_ok d" "spells (redir_tokens ds @ us) s" "\<not> starts us ''<>''"
  shows "\<exists>c' s'. parseredirs c s = Ok (c', s') \<and> spells us s' \<and> command_of c' = with_redirs (command_of c) ds \<and>
    (\<forall>argv. command_of (set_argv argv c') = with_redirs (command_of (set_argv argv c)) ds)"
  using assms(1,2)
proof (induction ds arbitrary: c s)
  case Nil
  then show ?case using peek_spelled [of us s "ustr ''<>''"] assms(3) spells_skip [of us s]
    by (subst parseredirs.simps) (simp add: tokens_simps with_redirs_simps)
next
  case (Cons d ds)
  obtain f mode fd where d: "d = (f, mode, fd)" using prod_cases3 by blast
  let ?ts = "Sym (redir_sym mode fd) # Word f # redir_tokens ds @ us"
  note r = redir_token [of f mode fd]
  have s: "spells ?ts s" "redir_ok (f, mode, fd)" using Cons.prems d by (simp_all add: tokens_simps)
  have pk: "peek s (ustr ''<>'') = (True, skip s)" using peek_spelled [OF s(1), of "ustr ''<>''"] r(1) [OF s(2)] by simp
  obtain q0 e0 s1 where g: "gettoken (skip s) = (code ?ts, q0, e0, s1)" "spells (Word f # redir_tokens ds @ us) s1"
    using gettoken_spelled [OF spells_skip [OF s(1)]] by (metis list.sel(3))
  obtain q eq s2 where g': "gettoken s1 = (of_char CHR ''a'', q, eq, s2)" "spells (redir_tokens ds @ us) s2" "text_of (q, eq) = f"
    using gettoken_spelled [OF g(2)] by (metis code.simps(2) list.sel(3))
  have "parseredirs c s = parseredirs (REDIR c q eq mode fd) s2"
    using pk g(1) g'(1) r(2) [OF s(2)] by (subst parseredirs.simps) (simp del: code.simps)
  then show ?case using Cons.IH [OF _ g'(2), of "REDIR c q eq mode fd"] Cons.prems(1) d g'(3) by (simp add: with_redirs_simps)
qed

text \<open>What can follow a simple command.\<close>

definition stops :: "token list \<Rightarrow> bool" where
  "stops us \<longleftrightarrow> us = [] \<or> starts us ''|)&;''"

lemma stops_no_redir: "stops us \<Longrightarrow> \<not> starts us ''<>''"
  by (auto simp: stops_def ustr_def)

lemma arg_no_redir: "xs \<noteq> [] \<Longrightarrow> \<not> starts (arg_tokens xs @ us) cs"
  by (cases xs) (auto simp: tokens_simps)

lemma parseargs_typed:
  assumes "\<forall>x\<in>set xs. arg_ok x" "spells (arg_tokens xs @ us) s" "stops us" "length argv + length xs < MAXARGS"
  shows "\<exists>c s' argv'. parseargs argv ret s = Ok (c, s') \<and> spells us s' \<and> map text_of argv' = map text_of argv @ map fst xs \<and>
    command_of c = with_redirs (command_of (set_argv argv' ret)) (concat (map snd xs))"
  using assms(1,2,4)
proof (induction xs arbitrary: argv ret s)
  case Nil
  then have s: "spells us s" by (simp add: tokens_simps)
  note pk = peek_spelled [OF s, of "ustr ''|)&;''"]
  obtain q eq s' where g: "gettoken (skip s) = (code us, q, eq, s')" "spells (tl us) s'" using gettoken_spelled [OF spells_skip [OF s]] by metis
  show ?case
  proof (cases "us = []")
    case True
    then show ?thesis using pk g by (subst parseargs.simps) (auto simp: with_redirs_simps)
  next
    case False
    then show ?thesis using pk assms(3) spells_skip [OF s] by (subst parseargs.simps) (auto simp: with_redirs_simps stops_def)
  qed
next
  case (Cons x xs)
  obtain w ds where x: "x = (w, ds)" by force
  let ?ts = "redir_tokens ds @ arg_tokens xs @ us"
  have s: "spells (Word w # ?ts) s" using Cons.prems(2) x by (simp add: tokens_simps)
  have pk: "peek s (ustr ''|)&;'') = (False, skip s)" using peek_spelled [OF s, of "ustr ''|)&;''"] by simp
  obtain q eq s1 where g: "gettoken (skip s) = (of_char CHR ''a'', q, eq, s1)" "spells ?ts s1" "text_of (q, eq) = w"
    using gettoken_spelled [OF spells_skip [OF s]] by (metis code.simps(2) list.sel(3))
  have "\<not> starts (arg_tokens xs @ us) ''<>''" using arg_no_redir [of xs us "''<>''"] stops_no_redir [OF assms(3)] by (cases "xs = []") (auto simp: tokens_simps)
  then obtain c' s2 where r: "parseredirs ret s1 = Ok (c', s2)" "spells (arg_tokens xs @ us) s2"
    "\<And>argv. command_of (set_argv argv c') = with_redirs (command_of (set_argv argv ret)) ds"
    using parseredirs_typed [of ds "arg_tokens xs @ us" s1 ret] g(2) Cons.prems(1) x by (auto simp: arg_ok_def)
  have "parseargs argv ret s = parseargs (argv @ [(q, eq)]) c' s2"
    using pk g(1) r(1) Cons.prems(3) by (subst parseargs.simps) (simp add: Let_def)
  then show ?case using Cons.IH [of s2 "argv @ [(q, eq)]" c'] Cons.prems r(2,3) x g(3) by (auto simp: with_redirs_simps)
qed

text \<open>What the parsers do with the tokens of a command, if the recursion may go deep enough.\<close>

definition exec_typed :: "acmd \<Rightarrow> token list \<Rightarrow> bool" where
  "exec_typed a ts \<longleftrightarrow> (\<forall>us s. spells (ts @ us) s \<longrightarrow> stops us \<longrightarrow>
     (\<exists>n0 c s'. command_of c = a \<and> spells us s' \<and> (\<forall>n\<ge>n0. parseexec n s = Ok (c, s'))))"

definition pipe_typed :: "acmd \<Rightarrow> token list \<Rightarrow> bool" where
  "pipe_typed a ts \<longleftrightarrow> (\<forall>us s. spells (ts @ us) s \<longrightarrow> stops us \<longrightarrow> \<not> starts us ''|'' \<longrightarrow>
     (\<exists>n0 c s'. command_of c = a \<and> spells us s' \<and> (\<forall>n\<ge>n0. parsepipe n s = Ok (c, s'))))"

definition back_typed :: "acmd \<Rightarrow> token list \<Rightarrow> bool" where
  "back_typed a ts \<longleftrightarrow> (\<forall>us s. spells (ts @ us) s \<longrightarrow> stops us \<longrightarrow> \<not> starts us ''|'' \<longrightarrow>
     (\<exists>n0 c s' c1 s1. command_of c = a \<and> spells us s' \<and> parsebacks c1 s1 = parsebacks c s' \<and> (\<forall>n\<ge>n0. parsepipe n s = Ok (c1, s1))))"

definition line_typed :: "acmd \<Rightarrow> token list \<Rightarrow> bool" where
  "line_typed a ts \<longleftrightarrow> (\<forall>us s. spells (ts @ us) s \<longrightarrow> us = [] \<or> starts us '')'' \<longrightarrow>
     (\<exists>n0 c s'. command_of c = a \<and> spells us s' \<and> (\<forall>n\<ge>n0. parseline n s = Ok (c, s'))))"

lemma ge_Suc: "(\<And>n. n0 \<le> n \<Longrightarrow> P (Suc n)) \<Longrightarrow> \<forall>n\<ge>Suc n0. P n"
  by (metis Suc_le_D Suc_le_mono)

lemma exec_from_args:
  assumes "\<forall>d\<in>set ds. redir_ok d" "\<forall>x\<in>set xs. arg_ok x" "length xs < MAXARGS"
  shows "exec_typed (with_redirs (AExec (map fst xs)) (ds @ concat (map snd xs))) (redir_tokens ds @ arg_tokens xs)"
  unfolding exec_typed_def
proof (intro allI impI)
  fix us s assume s: "spells ((redir_tokens ds @ arg_tokens xs) @ us) s" and us: "stops us"
  let ?a = "with_redirs (AExec (map fst xs)) (ds @ concat (map snd xs))"
  have nr: "\<not> starts (arg_tokens xs @ us) ''<>''" using arg_no_redir [of xs us "''<>''"] stops_no_redir [OF us] by (cases "xs = []") (auto simp: tokens_simps)
  have "\<not> starts (redir_tokens ds @ arg_tokens xs @ us) ''(''"
    using arg_no_redir [of xs us "''(''"] us assms(1)
    by (cases ds; cases "xs = []") (auto simp: tokens_simps stops_def ustr_def redir_sym_def split: if_splits)
  then have pk: "peek s (ustr ''('') = (False, skip s)" using peek_spelled [OF s, of "ustr ''(''"] by simp
  obtain c' s1 where r: "parseredirs (EXEC []) (skip s) = Ok (c', s1)" "spells (arg_tokens xs @ us) s1"
    "\<And>argv. command_of (set_argv argv c') = with_redirs (AExec (map text_of argv)) ds"
    using parseredirs_typed [OF assms(1) _ nr, of "skip s" "EXEC []"] spells_skip [OF s] by auto
  obtain c s' argv' where p: "parseargs [] c' s1 = Ok (c, s')" "spells us s'" "map text_of argv' = map fst xs"
    "command_of c = with_redirs (command_of (set_argv argv' c')) (concat (map snd xs))"
    using parseargs_typed [OF assms(2) r(2) us, of "[]" c'] assms(3) by auto
  have "command_of c = ?a" using p(3,4) r(3) by (simp add: with_redirs_simps)
  moreover have "\<forall>n\<ge>Suc 0. parseexec n s = Ok (c, s')" using pk r(1) p(1) by (intro ge_Suc) simp
  ultimately show "\<exists>n0 c s'. command_of c = ?a \<and> spells us s' \<and> (\<forall>n\<ge>n0. parseexec n s = Ok (c, s'))" using p(2) by blast
qed

lemma exec_from_block:
  assumes "line_typed a ts" "\<forall>d\<in>set ds. redir_ok d"
  shows "exec_typed (with_redirs a ds) (Sym (ustr ''('') # ts @ Sym (ustr '')'') # redir_tokens ds)"
  unfolding exec_typed_def
proof (intro allI impI)
  fix us s
  assume "spells ((Sym (ustr ''('') # ts @ Sym (ustr '')'') # redir_tokens ds) @ us) s" and us: "stops us"
  then have s: "spells (Sym (ustr ''('') # ts @ Sym (ustr '')'') # redir_tokens ds @ us) s" by simp
  have pk: "peek s (ustr ''('') = (True, skip s)" "peek (skip s) (ustr ''('') = (True, skip s)"
    using peek_spelled [OF s, of "ustr ''(''"] peek_spelled [OF spells_skip [OF s], of "ustr ''(''"] by (simp_all add: ustr_def)
  have "spells (ts @ Sym (ustr '')'') # redir_tokens ds @ us) (next_token (skip s))" by (rule next_spelled [OF spells_skip [OF s]])
  then obtain n0 c s1 where c: "command_of c = a" "spells (Sym (ustr '')'') # redir_tokens ds @ us) s1"
    "\<And>n. n0 \<le> n \<Longrightarrow> parseline n (next_token (skip s)) = Ok (c, s1)"
    using assms(1) [unfolded line_typed_def, rule_format, of "Sym (ustr '')'') # redir_tokens ds @ us" "next_token (skip s)"]
    by (auto simp: ustr_def)
  have pk1: "peek s1 (ustr '')'') = (True, skip s1)" using peek_spelled [OF c(2), of "ustr '')''"] by (simp add: ustr_def)
  have "spells (redir_tokens ds @ us) (next_token (skip s1))" by (rule next_spelled [OF spells_skip [OF c(2)]])
  then obtain c' s' where r: "parseredirs c (next_token (skip s1)) = Ok (c', s')" "spells us s'" "command_of c' = with_redirs a ds"
    using parseredirs_typed [OF assms(2) _ stops_no_redir [OF us]] c(1) by blast
  have "\<forall>n\<ge>Suc n0. parseblock n (skip s) = Ok (c', s')" using pk(2) c(3) pk1 r(1) by (intro ge_Suc) simp
  then have "\<forall>n\<ge>Suc (Suc n0). parseexec n s = Ok (c', s')" using pk(1) by (intro ge_Suc) simp
  with r(2,3) show "\<exists>n0 c s'. command_of c = with_redirs a ds \<and> spells us s' \<and> (\<forall>n\<ge>n0. parseexec n s = Ok (c, s'))" by blast
qed

lemma pipe_from_exec:
  assumes "exec_typed a ts"
  shows "pipe_typed a ts"
  unfolding pipe_typed_def
proof (intro allI impI)
  fix us s assume s: "spells (ts @ us) s" and us: "stops us" "\<not> starts us ''|''"
  obtain n0 c s1 where c: "command_of c = a" "spells us s1" "\<And>n. n0 \<le> n \<Longrightarrow> parseexec n s = Ok (c, s1)"
    using assms [unfolded exec_typed_def, rule_format, OF s us(1)] by blast
  have "peek s1 (ustr ''|'') = (False, skip s1)" using peek_spelled [OF c(2), of "ustr ''|''"] us(2) by simp
  then have "\<forall>n\<ge>Suc n0. parsepipe n s = Ok (c, skip s1)" using c(3) by (intro ge_Suc) simp
  with c(1) spells_skip [OF c(2)] show "\<exists>n0 c s'. command_of c = a \<and> spells us s' \<and> (\<forall>n\<ge>n0. parsepipe n s = Ok (c, s'))" by blast
qed

lemma pipe_from_pipe:
  assumes "exec_typed a ts" "pipe_typed b us"
  shows "pipe_typed (APipe a b) (ts @ Sym (ustr ''|'') # us)"
  unfolding pipe_typed_def
proof (intro allI impI)
  fix vs s assume s: "spells ((ts @ Sym (ustr ''|'') # us) @ vs) s" and vs: "stops vs" "\<not> starts vs ''|''"
  let ?r = "Sym (ustr ''|'') # us @ vs"
  obtain n0 c s1 where c: "command_of c = a" "spells ?r s1" "\<And>n. n0 \<le> n \<Longrightarrow> parseexec n s = Ok (c, s1)"
    using assms(1) [unfolded exec_typed_def, rule_format, of ?r s] s by (auto simp: stops_def ustr_def)
  have pk: "peek s1 (ustr ''|'') = (True, skip s1)" using peek_spelled [OF c(2), of "ustr ''|''"] by (simp add: ustr_def)
  have "spells (us @ vs) (next_token (skip s1))" by (rule next_spelled [OF spells_skip [OF c(2)]])
  from assms(2) [unfolded pipe_typed_def, rule_format, OF this vs]
  obtain n1 d s' where d: "command_of d = b" "spells vs s'" "\<And>n. n1 \<le> n \<Longrightarrow> parsepipe n (next_token (skip s1)) = Ok (d, s')" by blast
  have "\<forall>n\<ge>Suc (max n0 n1). parsepipe n s = Ok (PIPE c d, s')" using c(3) pk d(3) by (intro ge_Suc) simp
  then show "\<exists>n0 c s'. command_of c = APipe a b \<and> spells vs s' \<and> (\<forall>n\<ge>n0. parsepipe n s = Ok (c, s'))"
    using c(1) d(1,2) by (intro exI [of _ "Suc (max n0 n1)"] exI [of _ "PIPE c d"] exI [of _ s']) simp
qed

lemma back_from_pipe:
  assumes "pipe_typed a ts"
  shows "back_typed a ts"
  unfolding back_typed_def
proof (intro allI impI)
  fix us s assume "spells (ts @ us) s" "stops us" "\<not> starts us ''|''"
  from assms [unfolded pipe_typed_def, rule_format, OF this]
  show "\<exists>n0 c s' c1 s1. command_of c = a \<and> spells us s' \<and> parsebacks c1 s1 = parsebacks c s' \<and> (\<forall>n\<ge>n0. parsepipe n s = Ok (c1, s1))"
    by blast
qed

lemma back_from_back:
  assumes "back_typed a ts"
  shows "back_typed (ABack a) (ts @ [Sym (ustr ''&'')])"
  unfolding back_typed_def
proof (intro allI impI)
  fix us s assume s: "spells ((ts @ [Sym (ustr ''&'')]) @ us) s" and us: "stops us" "\<not> starts us ''|''"
  let ?r = "Sym (ustr ''&'') # us"
  have st: "stops ?r" "\<not> starts ?r ''|''" and s': "spells (ts @ ?r) s" using s by (simp_all add: stops_def ustr_def)
  obtain n0 c s1 c1 s2 where c: "command_of c = a" "spells ?r s1" "parsebacks c1 s2 = parsebacks c s1" "\<And>n. n0 \<le> n \<Longrightarrow> parsepipe n s = Ok (c1, s2)"
    using assms [unfolded back_typed_def, rule_format, OF s' st] by blast
  have "peek s1 (ustr ''&'') = (True, skip s1)" using peek_spelled [OF c(2), of "ustr ''&''"] by (simp add: ustr_def)
  then have "parsebacks c1 s2 = parsebacks (BACK c) (next_token (skip s1))" using c(3) by (subst (asm) (2) parsebacks.simps) simp
  moreover have "spells us (next_token (skip s1))" by (rule next_spelled [OF spells_skip [OF c(2)]])
  ultimately show "\<exists>n0 c s' c1 s1. command_of c = ABack a \<and> spells us s' \<and> parsebacks c1 s1 = parsebacks c s' \<and> (\<forall>n\<ge>n0. parsepipe n s = Ok (c1, s1))"
    using c(1,4) by (intro exI [of _ n0] exI [of _ "BACK c"] exI [of _ "next_token (skip s1)"] exI [of _ c1] exI [of _ s2]) simp
qed

lemma parsebacks_none: "spells us s \<Longrightarrow> \<not> starts us ''&'' \<Longrightarrow> parsebacks c s = (c, skip s)"
  using peek_spelled [of us s "ustr ''&''"] by (subst parsebacks.simps) simp

lemma line_from_back:
  assumes "back_typed a ts"
  shows "line_typed a ts"
  unfolding line_typed_def
proof (intro allI impI)
  fix us s assume s: "spells (ts @ us) s" and us: "us = [] \<or> starts us '')''"
  have st: "stops us" "\<not> starts us ''|''" "\<not> starts us ''&''" "\<not> starts us '';''" using us by (auto simp: stops_def ustr_def)
  obtain n0 c s1 c1 s2 where c: "command_of c = a" "spells us s1" "parsebacks c1 s2 = parsebacks c s1" "\<And>n. n0 \<le> n \<Longrightarrow> parsepipe n s = Ok (c1, s2)"
    using assms [unfolded back_typed_def, rule_format, OF s st(1,2)] by blast
  have "parsebacks c1 s2 = (c, skip s1)" using c(3) parsebacks_none [OF c(2) st(3)] by simp
  moreover have "peek (skip s1) (ustr '';'') = (False, skip s1)" using peek_spelled [OF spells_skip [OF c(2)], of "ustr '';''"] st(4) by simp
  ultimately have "\<forall>n\<ge>Suc n0. parseline n s = Ok (c, skip s1)" using c(4) by (intro ge_Suc) simp
  with c(1) spells_skip [OF c(2)] show "\<exists>n0 c s'. command_of c = a \<and> spells us s' \<and> (\<forall>n\<ge>n0. parseline n s = Ok (c, s'))" by blast
qed

lemma line_from_list:
  assumes "back_typed a ts" "line_typed b us"
  shows "line_typed (AList a b) (ts @ Sym (ustr '';'') # us)"
  unfolding line_typed_def
proof (intro allI impI)
  fix vs s assume s: "spells ((ts @ Sym (ustr '';'') # us) @ vs) s" and vs: "vs = [] \<or> starts vs '')''"
  let ?r = "Sym (ustr '';'') # us @ vs"
  have st: "stops ?r" "\<not> starts ?r ''|''" and s': "spells (ts @ ?r) s" using s by (simp_all add: stops_def ustr_def)
  obtain n0 c s1 c1 s2 where c: "command_of c = a" "spells ?r s1" "parsebacks c1 s2 = parsebacks c s1" "\<And>n. n0 \<le> n \<Longrightarrow> parsepipe n s = Ok (c1, s2)"
    using assms(1) [unfolded back_typed_def, rule_format, OF s' st] by blast
  have b: "parsebacks c1 s2 = (c, skip s1)" using c(3) parsebacks_none [OF c(2)] by (simp add: ustr_def)
  have pk: "peek (skip s1) (ustr '';'') = (True, skip s1)" using peek_spelled [OF spells_skip [OF c(2)], of "ustr '';''"] by (simp add: ustr_def)
  have "spells (us @ vs) (next_token (skip s1))" by (rule next_spelled [OF spells_skip [OF c(2)]])
  from assms(2) [unfolded line_typed_def, rule_format, OF this vs]
  obtain n1 d s' where d: "command_of d = b" "spells vs s'" "\<And>n. n1 \<le> n \<Longrightarrow> parseline n (next_token (skip s1)) = Ok (d, s')" by blast
  have "\<forall>n\<ge>Suc (max n0 n1). parseline n s = Ok (LIST c d, s')" using c(4) b pk d(3) by (intro ge_Suc) simp
  then show "\<exists>n0 c s'. command_of c = AList a b \<and> spells vs s' \<and> (\<forall>n\<ge>n0. parseline n s = Ok (c, s'))"
    using c(1) d(1,2) by (intro exI [of _ "Suc (max n0 n1)"] exI [of _ "LIST c d"] exI [of _ s']) simp
qed

lemma all_typed:
  "(simple_cmd a ts \<longrightarrow> exec_typed a ts) \<and> (pipeline a' ts' \<longrightarrow> pipe_typed a' ts') \<and>
   (background a'' ts'' \<longrightarrow> back_typed a'' ts'') \<and> (command_line b us \<longrightarrow> line_typed b us)"
  by (rule simple_cmd_pipeline_background_command_line.induct)
    (auto intro: exec_from_args exec_from_block pipe_from_exec pipe_from_pipe back_from_pipe back_from_back line_from_back line_from_list)

section \<open>Nothing else is parsed\<close>

lemma first_sym_op: "spells ts s \<Longrightarrow> first_sym ts = Some c \<Longrightarrow> \<exists>x us. ts = Sym x # us \<and> x \<in> set operators \<and> hd x = c"
  by (erule spells_cases) auto

lemma starts_op:
  assumes "spells ts s" "starts ts [c]" "c \<in> set ''|();&<''"
  obtains us where "ts = Sym (ustr [c]) # us"
proof -
  have "first_sym ts = Some (of_char c)" using assms(2) by (auto simp: ustr_def)
  from first_sym_op [OF assms(1) this] obtain x us where x: "ts = Sym x # us" "x \<in> set operators" "hd x = of_char c" by blast
  have "x = ustr [c]" using x(2,3) assms(3) by (auto simp: ustr_def elim!: operator_cases)
  then show ?thesis using that x(1) by blast
qed

lemma starts_redir:
  assumes "spells ts s" "starts ts ''<>''"
  obtains x mode fd us where "ts = Sym x # us" "x = redir_sym mode fd"
    "(mode, fd) \<in> {(O_RDONLY, 0), (O_WRONLY OR O_CREATE OR O_TRUNC, 1), (O_WRONLY OR O_CREATE, 1)}"
proof -
  obtain c where "first_sym ts = Some c" "c = of_char CHR ''<'' \<or> c = of_char CHR ''>''" using assms(2) by (auto simp: ustr_def)
  with first_sym_op [OF assms(1)] obtain x us where x: "ts = Sym x # us" "x \<in> set operators" "hd x = of_char CHR ''<'' \<or> hd x = of_char CHR ''>''"
    by blast
  then have "x = ustr ''<'' \<or> x = ustr ''>'' \<or> x = ustr ''>>''" by (auto simp: ustr_def elim!: operator_cases)
  then have "x = redir_sym O_RDONLY 0 \<or> x = redir_sym (O_WRONLY OR O_CREATE OR O_TRUNC) 1 \<or> x = redir_sym (O_WRONLY OR O_CREATE) 1"
    by (simp add: redir_sym_def O_WRONLY_def O_CREATE_def O_TRUNC_def)
  then show ?thesis using that x(1) by blast
qed

lemma code_word: "spells ts s \<Longrightarrow> code ts = of_char CHR ''a'' \<Longrightarrow> \<exists>w us. ts = Word w # us"
  by (erule spells_cases) (auto elim!: operator_cases simp: ustr_def split: if_splits)

lemma code_zero: "spells ts s \<Longrightarrow> code ts = 0 \<Longrightarrow> ts = []"
  by (erule spells_cases) (auto elim!: operator_cases simp: ustr_def split: if_splits)

lemma parseredirs_sound:
  assumes "parseredirs c s = Ok (c', s')" "spells ts s"
  shows "\<exists>ds us. ts = redir_tokens ds @ us \<and> (\<forall>d\<in>set ds. redir_ok d) \<and> spells us s' \<and> command_of c' = with_redirs (command_of c) ds \<and>
    (\<forall>argv. command_of (set_argv argv c') = with_redirs (command_of (set_argv argv c)) ds)"
  using assms
proof (induction c s arbitrary: ts rule: parseredirs.induct)
  case (1 c s)
  note pk = peek_spelled [OF "1.prems"(2), of "ustr ''<>''"]
  show ?case
  proof (cases "starts ts ''<>''")
    case False
    then show ?thesis using "1.prems" pk spells_skip [of ts s]
      by (intro exI [of _ "[]"] exI [of _ ts]) (auto simp: parseredirs.simps [of c s] tokens_simps with_redirs_simps)
  next
    case True
    then obtain x mode fd us where x: "ts = Sym x # us" "x = redir_sym mode fd"
      "(mode, fd) \<in> {(O_RDONLY, 0), (O_WRONLY OR O_CREATE OR O_TRUNC, 1), (O_WRONLY OR O_CREATE, 1)}"
      by (rule starts_redir [OF "1.prems"(2)])
    obtain q0 e0 s1 where g: "gettoken (skip s) = (code ts, q0, e0, s1)" "spells us s1"
      using gettoken_spelled [OF spells_skip [OF "1.prems"(2)]] x(1) by (metis list.sel(3))
    obtain q eq s2 where g': "gettoken s1 = (code us, q, eq, s2)" "spells (tl us) s2" "\<And>w vs. us = Word w # vs \<Longrightarrow> word_ok w \<and> text_of (q, eq) = w"
      using gettoken_spelled [OF g(2)] by metis
    have p: "(True, skip s) = peek s (ustr ''<>'')" using pk True by simp
    have a: "code us = of_char CHR ''a''" using "1.prems"(1) True pk g(1) g'(1) by (auto simp: parseredirs.simps [of c s] split: if_splits)
    then obtain f vs where f: "us = Word f # vs" "word_ok f" "text_of (q, eq) = f" using code_word [OF g(2)] g'(3) by blast
    have ok: "redir_ok (f, mode, fd)" using x(3) f(2) by (simp add: redir_ok_def)
    note r = redir_token(2) [OF ok, of us c q eq, folded x(2), folded x(1)]
    have "parseredirs (redir (code ts) c q eq) s2 = Ok (c', s')"
      using "1.prems"(1) True pk g(1) g'(1) a by (simp add: parseredirs.simps [of c s])
    then have "\<exists>ds us. vs = redir_tokens ds @ us \<and> (\<forall>d\<in>set ds. redir_ok d) \<and> spells us s' \<and>
        command_of c' = with_redirs (command_of (REDIR c q eq mode fd)) ds \<and>
        (\<forall>argv. command_of (set_argv argv c') = with_redirs (command_of (set_argv argv (REDIR c q eq mode fd))) ds)"
      using "1.IH" [OF p refl g(1) [symmetric] refl refl g'(1) [symmetric] refl refl] a g'(2) f(1) r by simp
    then obtain ds ws where d: "vs = redir_tokens ds @ ws" "\<forall>d\<in>set ds. redir_ok d" "spells ws s'"
      "command_of c' = with_redirs (command_of (REDIR c q eq mode fd)) ds"
      "\<forall>argv. command_of (set_argv argv c') = with_redirs (command_of (set_argv argv (REDIR c q eq mode fd))) ds" by blast
    then show ?thesis using x f ok by (intro exI [of _ "(f, mode, fd) # ds"] exI [of _ ws]) (simp add: tokens_simps with_redirs_simps)
  qed
qed

lemma parseargs_sound:
  assumes "parseargs argv ret s = Ok (c, s')" "spells ts s" "length argv < MAXARGS"
  shows "\<exists>xs us argv'. ts = arg_tokens xs @ us \<and> (\<forall>x\<in>set xs. arg_ok x) \<and> length argv + length xs < MAXARGS \<and> spells us s' \<and>
    map text_of argv' = map text_of argv @ map fst xs \<and> command_of c = with_redirs (command_of (set_argv argv' ret)) (concat (map snd xs))"
  using assms
proof (induction argv ret s arbitrary: ts rule: parseargs.induct)
  case (1 argv ret s)
  note pk = peek_spelled [OF "1.prems"(2), of "ustr ''|)&;''"]
  obtain q eq s1 where g: "gettoken (skip s) = (code ts, q, eq, s1)" "spells (tl ts) s1" "\<And>w us. ts = Word w # us \<Longrightarrow> word_ok w \<and> text_of (q, eq) = w"
    using gettoken_spelled [OF spells_skip [OF "1.prems"(2)]] by metis
  have last: ?case if "c = set_argv argv ret" "spells ts s'"
    using that "1.prems"(3) by (intro exI [of _ "[]"] exI [of _ ts] exI [of _ argv]) (simp add: tokens_simps with_redirs_simps)
  show ?case
  proof (cases "starts ts ''|)&;''")
    case True
    then show ?thesis using "1.prems"(1) pk spells_skip [OF "1.prems"(2)] by (intro last) (auto simp: parseargs.simps [of argv ret s])
  next
    case ns: False
    show ?thesis
    proof (cases "code ts = 0")
      case True
      then have "ts = []" by (rule code_zero [OF "1.prems"(2)])
      then show ?thesis using "1.prems"(1) pk ns g True by (intro last) (auto simp: parseargs.simps [of argv ret s])
    next
      case False
      let ?a = "argv @ [(q, eq)]"
      have a: "code ts = of_char CHR ''a''" and m: "\<not> MAXARGS \<le> length ?a"
        using "1.prems"(1) pk ns g(1) False by (auto simp: parseargs.simps [of argv ret s] Let_def split: if_splits)
      then obtain w us where w: "ts = Word w # us" "word_ok w" "text_of (q, eq) = w" using code_word [OF "1.prems"(2)] g(3) by blast
      obtain r s2 where r: "parseredirs ret s1 = Ok (r, s2)" "parseargs ?a r s2 = Ok (c, s')"
        using "1.prems"(1) pk ns g(1) a m by (auto simp: parseargs.simps [of argv ret s] Let_def)
      obtain ds vs where d: "us = redir_tokens ds @ vs" "\<forall>d\<in>set ds. redir_ok d" "spells vs s2"
        "\<And>argv. command_of (set_argv argv r) = with_redirs (command_of (set_argv argv ret)) ds"
        using parseredirs_sound [OF r(1), of us] g(2) w(1) by auto
      have p: "(False, skip s) = peek s (ustr ''|)&;'')" using pk ns by simp
      have "\<exists>xs us argv'. vs = arg_tokens xs @ us \<and> (\<forall>x\<in>set xs. arg_ok x) \<and> length ?a + length xs < MAXARGS \<and> spells us s' \<and>
          map text_of argv' = map text_of ?a @ map fst xs \<and> command_of c = with_redirs (command_of (set_argv argv' r)) (concat (map snd xs))"
        using "1.IH" [OF p refl g(1) [symmetric] refl refl _ _ refl _ r(1) refl r(2) d(3)] a m False by simp
      then obtain xs ws argv' where x: "vs = arg_tokens xs @ ws" "\<forall>x\<in>set xs. arg_ok x" "length ?a + length xs < MAXARGS" "spells ws s'"
        "map text_of argv' = map text_of ?a @ map fst xs" "command_of c = with_redirs (command_of (set_argv argv' r)) (concat (map snd xs))" by blast
      then show ?thesis using w d
        by (intro exI [of _ "(w, ds) # xs"] exI [of _ ws] exI [of _ argv']) (simp add: tokens_simps with_redirs_simps arg_ok_def)
    qed
  qed
qed

lemma parsebacks_sound:
  assumes "parsebacks c s = (c', s')" "spells ts s" "background (command_of c) us"
  shows "\<exists>bs vs. ts = bs @ vs \<and> spells vs s' \<and> background (command_of c') (us @ bs)"
  using assms
proof (induction c s arbitrary: ts us rule: parsebacks.induct)
  case (1 c s)
  note pk = peek_spelled [OF "1.prems"(2), of "ustr ''&''"]
  show ?case
  proof (cases "starts ts ''&''")
    case False
    then show ?thesis using "1.prems" pk spells_skip [of ts s] by (intro exI [of _ "[]"] exI [of _ ts]) (auto simp: parsebacks.simps [of c s])
  next
    case True
    then obtain vs where v: "ts = Sym (ustr ''&'') # vs" using starts_op [OF "1.prems"(2), of "CHR ''&''"] by auto
    have n: "spells vs (next_token (skip s))" using next_spelled spells_skip [OF "1.prems"(2)] v by blast
    have p: "(True, skip s) = peek s (ustr ''&'')" using pk True by simp
    have e: "parsebacks (BACK c) (next_token (skip s)) = (c', s')" using "1.prems"(1) pk True by (simp add: parsebacks.simps [of c s])
    have "background (command_of (BACK c)) (us @ [Sym (ustr ''&'')])" using back_more [OF "1.prems"(3)] by simp
    from "1.IH" [OF p refl e n this] obtain bs ws where "vs = bs @ ws" "spells ws s'" "background (command_of c') ((us @ [Sym (ustr ''&'')]) @ bs)" by blast
    then show ?thesis using v by (intro exI [of _ "Sym (ustr ''&'') # bs"] exI [of _ ws]) simp
  qed
qed

lemma parse_sound:
  "parseline n s = Ok (c, s') \<Longrightarrow> spells ts s \<Longrightarrow> \<exists>us vs. ts = us @ vs \<and> spells vs s' \<and> command_line (command_of c) us"
  "parsepipe n s = Ok (c, s') \<Longrightarrow> spells ts s \<Longrightarrow> \<exists>us vs. ts = us @ vs \<and> spells vs s' \<and> pipeline (command_of c) us"
  "parseblock n s = Ok (c, s') \<Longrightarrow> spells ts s \<Longrightarrow> \<exists>us vs. ts = us @ vs \<and> spells vs s' \<and> simple_cmd (command_of c) us"
  "parseexec n s = Ok (c, s') \<Longrightarrow> spells ts s \<Longrightarrow> \<exists>us vs. ts = us @ vs \<and> spells vs s' \<and> simple_cmd (command_of c) us"
proof (induction n arbitrary: s c s' ts)
  case (Suc n)
  {
    case 1
    then obtain c1 s1 where a: "parsepipe n s = Ok (c1, s1)" by auto
    obtain us vs where u: "ts = us @ vs" "spells vs s1" "pipeline (command_of c1) us" using Suc.IH(2) [OF a 1(2)] by blast
    obtain c2 s2 where b: "parsebacks c1 s1 = (c2, s2)" by force
    obtain bs ws where w: "vs = bs @ ws" "spells ws s2" "background (command_of c2) (us @ bs)"
      using parsebacks_sound [OF b u(2) back_none [OF u(3)]] by blast
    note pk = peek_spelled [OF w(2), of "ustr '';''"]
    show ?case
    proof (cases "starts ws '';''")
      case True
      then obtain xs where x: "ws = Sym (ustr '';'') # xs" using starts_op [OF w(2), of "CHR '';''"] by auto
      have n: "spells xs (next_token (skip s2))" using next_spelled spells_skip [OF w(2)] x by blast
      obtain d s3 where d: "parseline n (next_token (skip s2)) = Ok (d, s3)" "c = LIST c2 d" "s' = s3" using 1(1) a b pk True by auto
      from Suc.IH(1) [OF d(1) n] obtain ys zs where "xs = ys @ zs" "spells zs s3" "command_line (command_of d) ys" by blast
      then show ?thesis using u w x d line_more [OF w(3)]
        by (intro exI [of _ "(us @ bs) @ Sym (ustr '';'') # ys"] exI [of _ zs]) simp
    next
      case False
      then have "c = c2" "s' = skip s2" using 1(1) a b pk by auto
      then show ?thesis using u w line_last [OF w(3)] spells_skip [OF w(2)] by (intro exI [of _ "us @ bs"] exI [of _ ws]) simp
    qed
  next
    case 2
    then obtain c1 s1 where a: "parseexec n s = Ok (c1, s1)" by auto
    obtain us vs where u: "ts = us @ vs" "spells vs s1" "simple_cmd (command_of c1) us" using Suc.IH(4) [OF a 2(2)] by blast
    note pk = peek_spelled [OF u(2), of "ustr ''|''"]
    show ?case
    proof (cases "starts vs ''|''")
      case True
      then obtain xs where x: "vs = Sym (ustr ''|'') # xs" using starts_op [OF u(2), of "CHR ''|''"] by auto
      have n: "spells xs (next_token (skip s1))" using next_spelled spells_skip [OF u(2)] x by blast
      obtain d s3 where d: "parsepipe n (next_token (skip s1)) = Ok (d, s3)" "c = PIPE c1 d" "s' = s3" using 2(1) a pk True by auto
      from Suc.IH(2) [OF d(1) n] obtain ys zs where "xs = ys @ zs" "spells zs s3" "pipeline (command_of d) ys" by blast
      then show ?thesis using u x d pipe_more [OF u(3)] by (intro exI [of _ "us @ Sym (ustr ''|'') # ys"] exI [of _ zs]) simp
    next
      case False
      then have "c = c1" "s' = skip s1" using 2(1) a pk by auto
      then show ?thesis using u pipe_last [OF u(3)] spells_skip [OF u(2)] by (intro exI [of _ us] exI [of _ vs]) simp
    qed
  next
    case 3
    note pk = peek_spelled [OF 3(2), of "ustr ''(''"]
    have st: "starts ts ''(''" using 3(1) pk by (cases "starts ts ''(''") auto
    then obtain xs where x: "ts = Sym (ustr ''('') # xs" using starts_op [OF 3(2), of "CHR ''(''"] by auto
    have n: "spells xs (next_token (skip s))" using next_spelled spells_skip [OF 3(2)] x by blast
    obtain d s1 where d: "parseline n (next_token (skip s)) = Ok (d, s1)" using 3(1) pk st by auto
    from Suc.IH(1) [OF d n] obtain ys zs where y: "xs = ys @ zs" "spells zs s1" "command_line (command_of d) ys" by blast
    note pk1 = peek_spelled [OF y(2), of "ustr '')''"]
    have st1: "starts zs '')''" using 3(1) pk st d pk1 by (cases "starts zs '')''") auto
    then obtain rs where r: "zs = Sym (ustr '')'') # rs" using starts_op [OF y(2), of "CHR '')''"] by auto
    have n1: "spells rs (next_token (skip s1))" using next_spelled spells_skip [OF y(2)] r by blast
    have "parseredirs d (next_token (skip s1)) = Ok (c, s')" using 3(1) pk st d pk1 st1 by simp
    from parseredirs_sound [OF this n1] obtain ds vs where v: "rs = redir_tokens ds @ vs" "\<forall>d\<in>set ds. redir_ok d" "spells vs s'"
      "command_of c = with_redirs (command_of d) ds" by blast
    then show ?case using x y r simple_block [OF y(3) v(2)]
      by (intro exI [of _ "Sym (ustr ''('') # ys @ Sym (ustr '')'') # redir_tokens ds"] exI [of _ vs]) simp
  next
    case 4
    note pk = peek_spelled [OF 4(2), of "ustr ''(''"]
    show ?case
    proof (cases "starts ts ''(''")
      case True
      then have "parseblock n (skip s) = Ok (c, s')" using 4(1) pk by simp
      then show ?thesis using Suc.IH(3) spells_skip [OF 4(2)] by blast
    next
      case False
      then obtain r s1 where r: "parseredirs (EXEC []) (skip s) = Ok (r, s1)" "parseargs [] r s1 = Ok (c, s')" using 4(1) pk by auto
      obtain ds us where d: "ts = redir_tokens ds @ us" "\<forall>d\<in>set ds. redir_ok d" "spells us s1"
        "\<And>argv. command_of (set_argv argv r) = with_redirs (AExec (map text_of argv)) ds"
        using parseredirs_sound [OF r(1) spells_skip [OF 4(2)]] by auto
      obtain xs vs argv' where x: "us = arg_tokens xs @ vs" "\<forall>x\<in>set xs. arg_ok x" "length xs < MAXARGS" "spells vs s'"
        "map text_of argv' = map fst xs" "command_of c = with_redirs (command_of (set_argv argv' r)) (concat (map snd xs))"
        using parseargs_sound [OF r(2) d(3)] by (auto simp: MAXARGS_def)
      then show ?thesis using d simple_args [OF d(2) x(2,3)]
        by (intro exI [of _ "redir_tokens ds @ arg_tokens xs"] exI [of _ vs]) (simp add: with_redirs_simps)
    qed
  }
qed simp_all

section \<open>The bound on the recursion\<close>

lemma parse_Suc:
  "parseline n s \<noteq> Blocked \<Longrightarrow> parseline (Suc n) s = parseline n s"
  "parsepipe n s \<noteq> Blocked \<Longrightarrow> parsepipe (Suc n) s = parsepipe n s"
  "parseblock n s \<noteq> Blocked \<Longrightarrow> parseblock (Suc n) s = parseblock n s"
  "parseexec n s \<noteq> Blocked \<Longrightarrow> parseexec (Suc n) s = parseexec n s"
proof (induction n arbitrary: s)
  case (Suc n)
  {
    case 1
    have a: "parsepipe (Suc n) s = parsepipe n s" using 1 by (intro Suc.IH(2)) auto
    show ?case
    proof (cases "parsepipe n s")
      case (Ok z)
      obtain c1 s1 where z: "z = (c1, s1)" by force
      obtain c2 s2 where b: "parsebacks c1 s1 = (c2, s2)" by force
      obtain d s3 where p: "peek s2 (ustr '';'') = (d, s3)" by force
      have "parseline (Suc n) (next_token s3) = parseline n (next_token s3)" if d
        using 1 Ok z b p that by (intro Suc.IH(1)) auto
      then show ?thesis using Ok z a b p by (cases d) (simp_all only: parseline.simps bnd.simps prod.case bool.case)
    qed (use a in \<open>simp_all only: parseline.simps bnd.simps\<close>)
  next
    case 2
    have a: "parseexec (Suc n) s = parseexec n s" using 2 by (intro Suc.IH(4)) auto
    show ?case
    proof (cases "parseexec n s")
      case (Ok z)
      obtain c1 s1 where z: "z = (c1, s1)" by force
      obtain d s3 where p: "peek s1 (ustr ''|'') = (d, s3)" by force
      have "parsepipe (Suc n) (next_token s3) = parsepipe n (next_token s3)" if d
        using 2 Ok z p that by (intro Suc.IH(2)) auto
      then show ?thesis using Ok z a p by (cases d) (simp_all only: parsepipe.simps bnd.simps prod.case bool.case)
    qed (use a in \<open>simp_all only: parsepipe.simps bnd.simps\<close>)
  next
    case 3
    obtain d s1 where p: "peek s (ustr ''('') = (d, s1)" by force
    have "parseline (Suc n) (next_token s1) = parseline n (next_token s1)" if d
      using 3 p that by (intro Suc.IH(1)) auto
    then show ?case using p by (cases d) (simp_all only: parseblock.simps prod.case bool.case)
  next
    case 4
    obtain d s1 where p: "peek s (ustr ''('') = (d, s1)" by force
    have "parseblock (Suc n) s1 = parseblock n s1" if d using 4 p that by (intro Suc.IH(3)) auto
    then show ?case using p by (cases d) (simp_all only: parseexec.simps prod.case bool.case)
  }
qed simp_all

lemma parseline_fuel: "parseline n s \<noteq> Blocked \<Longrightarrow> n \<le> m \<Longrightarrow> parseline m s = parseline n s"
proof (induction m)
  case (Suc m)
  then show ?case by (cases "n = Suc m") (auto simp del: parseline.simps simp: parse_Suc(1))
qed simp

section \<open>The language of the parser\<close>

lemma spells_blank: "spells ts s \<Longrightarrow> skip s = [] \<Longrightarrow> ts = []"
  by (erule spells_cases) (auto simp: word_ok_def dest: operator_first(1) simp del: dropWhile_eq_Nil_conv)

lemma parsecmd_Ok:
  "parsecmd line = Ok (c, buf) \<longleftrightarrow>
     (\<exists>s. parseline (4 * length line + 4) line = Ok (c, s) \<and> skip s = [] \<and> buf = nulterminate c (line @ [0]))"
  by (auto simp: parsecmd_def peek_def Let_def simp del: parseline.simps dropWhile_eq_Nil_conv split: if_splits)

lemma parsecmd_strings:
  assumes "0 \<notin> set line" "parsecmd line = Ok (c, buf)"
  shows "command_in buf c = command_of c"
proof -
  obtain s where s: "parseline (4 * length line + 4) line = Ok (c, s)" "buf = nulterminate c (line @ [0])" using assms(2) parsecmd_Ok by blast
  have "\<forall>t\<in>set (toks c). tok_ok line t" using parse_ok(1) [OF assms(1) _ s(1)] by (simp add: cmd_ok_def)
  then have "\<forall>(q, eq)\<in>set (toks c). string_at buf q = text_of (q, eq)" unfolding s(2) using nulterminated_string by blast
  then show ?thesis by (rule command_in_of)
qed

lemma parseline_typed:
  assumes "spells ts line" "command_line a ts"
  shows "\<exists>c s. command_of c = a \<and> skip s = [] \<and> parseline (4 * length line + 4) line = Ok (c, s)"
proof -
  have "line_typed a ts" using all_typed assms(2) by blast
  then obtain n0 c s where c: "command_of c = a" "spells [] s" "\<And>n. n0 \<le> n \<Longrightarrow> parseline n line = Ok (c, s)"
    using assms(1) unfolding line_typed_def by (metis append_Nil2)
  have "parseline (4 * length line + 4) line \<noteq> Blocked" by (rule parse_returns) simp
  then have "parseline (max n0 (4 * length line + 4)) line = parseline (4 * length line + 4) line" by (rule parseline_fuel) simp
  moreover have "skip s = []" using c(2) by (rule spells_cases) simp_all
  ultimately show ?thesis using c(1) c(3) [of "max n0 (4 * length line + 4)"] by (intro exI [of _ c] exI [of _ s]) simp
qed

lemma parsecmd_complete:
  assumes "spells ts line" "command_line a ts"
  shows "\<exists>c buf. parsecmd line = Ok (c, buf) \<and> command_in buf c = a"
proof -
  obtain c s where c: "command_of c = a" "skip s = []" "parseline (4 * length line + 4) line = Ok (c, s)" using parseline_typed [OF assms] by blast
  then have "parsecmd line = Ok (c, nulterminate c (line @ [0]))" by (simp only: parsecmd_Ok) blast
  then show ?thesis using parsecmd_strings [OF spells_nonzero [OF assms(1)]] c(1) by blast
qed

lemma parsecmd_sound:
  assumes "0 \<notin> set line" "parsecmd line = Ok (c, buf)"
  shows "\<exists>ts. spells ts line \<and> command_line (command_in buf c) ts"
proof -
  obtain s where s: "parseline (4 * length line + 4) line = Ok (c, s)" "skip s = []" using assms(2) parsecmd_Ok by blast
  obtain ts where ts: "spells ts line" using spells_some [OF assms(1)] by blast
  obtain us vs where "ts = us @ vs" "spells vs s" "command_line (command_of c) us" using parse_sound(1) [OF s(1) ts] by blast
  then show ?thesis using ts spells_blank [of vs s] s(2) parsecmd_strings [OF assms] by auto
qed

text \<open>
  C20: the parser of the shell terminates: on every line \<open>parsecmd\<close> returns a command or stops with the
  message of a syntax error; the bound of the model on the depth of the recursion is never reached.\<close>

theorem parsecmd_terminates: "\<exists>r. parsecmd line = Ok r \<or> (\<exists>m. parsecmd line = Panic m)"
proof -
  have "parseline (4 * length line + 4) line \<noteq> Blocked" by (rule parse_returns) simp
  then show ?thesis by (cases "parseline (4 * length line + 4) line") (auto simp: parsecmd_def Let_def simp del: parseline.simps split: if_splits)
qed

text \<open>
  C19: the parser recognises the language of the shell. On a line, which has no NUL, \<open>parsecmd\<close> returns a
  command whose strings, read from the line that \<open>nulterminate\<close> has cut into pieces, give the command \<open>a\<close>, exactly if
  the line spells a sequence of tokens that means \<open>a\<close> in the grammar: with any blanks or none between the
  tokens, redirections anywhere among the arguments, and blocks in parentheses. So every such line is parsed
  into the command that was meant, and any other line is a syntax error.\<close>

theorem parsecmd_language:
  assumes "0 \<notin> set line"
  shows "(\<exists>c buf. parsecmd line = Ok (c, buf) \<and> command_in buf c = a) \<longleftrightarrow> (\<exists>ts. spells ts line \<and> command_line a ts)"
  using parsecmd_sound [OF assms] parsecmd_complete by blast

lemma simple_word: "word_ok w \<Longrightarrow> simple_cmd (AExec [w]) [Word w]"
  using simple_args [of "[]" "[(w, [])]"] by (simp add: arg_ok_def tokens_simps with_redirs_simps MAXARGS_def)

text \<open>An example: \<open>(ls|wc)>y &\<close> and a newline.\<close>

lemmas char_simps = ustr_def blanks_def is_space_def whitespace_def word_ok_def word_char_def is_symbol_def symbols_def operators_def

lemma spell_example:
  "spells ([Sym (ustr ''(''), Word (ustr ''ls''), Sym (ustr ''|''), Word (ustr ''wc''), Sym (ustr '')''), Sym (ustr ''>''),
     Word (ustr ''y''), Sym (ustr ''&'')]) (ustr ''(ls|wc)>y &'' @ [10])"
proof -
  have "spells [] [10]" by (rule spell_end) (simp add: char_simps)
  from spell_op [OF _ _ this, of "[32]" "ustr ''&''"] have "spells [Sym (ustr ''&'')] (ustr '' &'' @ [10])" by (simp add: char_simps)
  from spell_word [OF _ _ this, of "[]" "ustr ''y''"] have "spells [Word (ustr ''y''), Sym (ustr ''&'')] (ustr ''y &'' @ [10])"
    by (simp add: char_simps)
  from spell_op [OF _ _ this, of "[]" "ustr ''>''"]
  have "spells [Sym (ustr ''>''), Word (ustr ''y''), Sym (ustr ''&'')] (ustr ''>y &'' @ [10])" by (simp add: char_simps)
  from spell_op [OF _ _ this, of "[]" "ustr '')''"]
  have "spells [Sym (ustr '')''), Sym (ustr ''>''), Word (ustr ''y''), Sym (ustr ''&'')] (ustr '')>y &'' @ [10])" by (simp add: char_simps)
  from spell_word [OF _ _ this, of "[]" "ustr ''wc''"]
  have "spells [Word (ustr ''wc''), Sym (ustr '')''), Sym (ustr ''>''), Word (ustr ''y''), Sym (ustr ''&'')] (ustr ''wc)>y &'' @ [10])"
    by (simp add: char_simps)
  from spell_op [OF _ _ this, of "[]" "ustr ''|''"]
  have "spells [Sym (ustr ''|''), Word (ustr ''wc''), Sym (ustr '')''), Sym (ustr ''>''), Word (ustr ''y''), Sym (ustr ''&'')]
    (ustr ''|wc)>y &'' @ [10])" by (simp add: char_simps)
  from spell_word [OF _ _ this, of "[]" "ustr ''ls''"]
  have "spells [Word (ustr ''ls''), Sym (ustr ''|''), Word (ustr ''wc''), Sym (ustr '')''), Sym (ustr ''>''), Word (ustr ''y''), Sym (ustr ''&'')]
    (ustr ''ls|wc)>y &'' @ [10])" by (simp add: char_simps)
  from spell_op [OF _ _ this, of "[]" "ustr ''(''"] show ?thesis by (simp add: char_simps)
qed

definition example_cmd :: acmd where
  "example_cmd = ABack (ARedir (APipe (AExec [ustr ''ls'']) (AExec [ustr ''wc''])) (ustr ''y'') (O_WRONLY OR O_CREATE OR O_TRUNC) 1)"

lemma example_line:
  "command_line example_cmd ([Sym (ustr ''(''), Word (ustr ''ls''), Sym (ustr ''|''), Word (ustr ''wc''), Sym (ustr '')''), Sym (ustr ''>''),
     Word (ustr ''y''), Sym (ustr ''&'')])"
proof -
  have w: "word_ok (ustr ''ls'')" "word_ok (ustr ''wc'')" "word_ok (ustr ''y'')" by (simp_all add: char_simps)
  have "pipeline (APipe (AExec [ustr ''ls'']) (AExec [ustr ''wc''])) [Word (ustr ''ls''), Sym (ustr ''|''), Word (ustr ''wc'')]"
    using pipe_more [OF simple_word [OF w(1)] pipe_last [OF simple_word [OF w(2)]]] by simp
  from line_last [OF back_none [OF this]] simple_block [of _ _ "[(ustr ''y'', O_WRONLY OR O_CREATE OR O_TRUNC, 1)]"]
  have "simple_cmd (ARedir (APipe (AExec [ustr ''ls'']) (AExec [ustr ''wc''])) (ustr ''y'') (O_WRONLY OR O_CREATE OR O_TRUNC) 1)
    ([Sym (ustr ''(''), Word (ustr ''ls''), Sym (ustr ''|''), Word (ustr ''wc''), Sym (ustr '')''), Sym (ustr ''>''), Word (ustr ''y'')])"
    using w(3) by (fastforce simp: redir_ok_def tokens_simps with_redirs_simps redir_sym_def O_TRUNC_def O_CREATE_def O_WRONLY_def)
  from line_last [OF back_more [OF back_none [OF pipe_last [OF this]]]] show ?thesis by (simp add: example_cmd_def)
qed

theorem parsecmd_language_witness:
  "\<exists>c buf. parsecmd (ustr ''(ls|wc)>y &'' @ [10]) = Ok (c, buf) \<and> command_in buf c = example_cmd"
  using parsecmd_language [OF spells_nonzero [OF spell_example], of example_cmd] spell_example example_line by blast

end
