(* ===== verification/Shrun.thy ===== *)
theory Shrun
  imports Grammar
begin

text \<open>
  user/sh.c: the shell runs the commands that it has parsed. A command is interpreted by a tree of system
  calls. The lemmas show which programs are started and what their descriptors refer to.
\<close>

section \<open>runcmd\<close>

definition panic :: "string \<Rightarrow> uprog" where
  "panic s = fprintf 2 (''%s'' @ [CHR 0x0A]) [UStr (Some (ustr s))] (UExit 1)"

definition fork1 :: "(int \<Rightarrow> uprog) \<Rightarrow> uprog" where
  "fork1 k = do_call SFork (\<lambda>pid. if pid = -1 then panic ''fork'' else k pid)"

text \<open>The element \<open>i\<close> of the array \<open>p\<close> that \<open>pipe\<close> has filled.\<close>

definition pipe_fd :: "bytes \<Rightarrow> nat \<Rightarrow> int" where
  "pipe_fd d i = sint (get32 d (4 * i))"

text \<open>
  \<open>buf\<close> is the line after \<open>nulterminate\<close>, to which the strings of the command point. There are no null and
  no unknown commands; \<open>malloc\<close> does not fail.
\<close>

fun runcmd :: "bytes \<Rightarrow> cmd \<Rightarrow> uprog" where
  "runcmd buf (EXEC argv) =
     (case argv of
        [] \<Rightarrow> UExit 1
      | t # _ \<Rightarrow>
          do_call (SExec (string_at buf (fst t)) (map (\<lambda>t. string_at buf (fst t)) argv)) (\<lambda>_.
          fprintf 2 (''exec %s failed'' @ [CHR 0x0A]) [UStr (Some (string_at buf (fst t)))] (UExit 0)))"
| "runcmd buf (REDIR c file efile mode fd) =
     do_call (SClose fd) (\<lambda>_.
     do_call (SOpen (string_at buf file) mode) (\<lambda>r.
     if r < 0 then fprintf 2 (''open %s failed'' @ [CHR 0x0A]) [UStr (Some (string_at buf file))] (UExit 1)
     else runcmd buf c))"
| "runcmd buf (LIST l r) =
     fork1 (\<lambda>pid. if pid = 0 then runcmd buf l else do_call SWait (\<lambda>_. runcmd buf r))"
| "runcmd buf (PIPE l r) =
     UCall SPipe (\<lambda>rc p.
     if rc < 0 then panic ''pipe''
     else fork1 (\<lambda>pid.
       if pid = 0
       then do_call (SClose 1) (\<lambda>_. do_call (SDup (pipe_fd p 1)) (\<lambda>_.
            do_call (SClose (pipe_fd p 0)) (\<lambda>_. do_call (SClose (pipe_fd p 1)) (\<lambda>_. runcmd buf l))))
       else fork1 (\<lambda>pid.
         if pid = 0
         then do_call (SClose 0) (\<lambda>_. do_call (SDup (pipe_fd p 0)) (\<lambda>_.
              do_call (SClose (pipe_fd p 0)) (\<lambda>_. do_call (SClose (pipe_fd p 1)) (\<lambda>_. runcmd buf r))))
         else do_call (SClose (pipe_fd p 0)) (\<lambda>_. do_call (SClose (pipe_fd p 1)) (\<lambda>_.
              do_call SWait (\<lambda>_. do_call SWait (\<lambda>_. UExit 0)))))))"
| "runcmd buf (BACK c) = fork1 (\<lambda>pid. if pid = 0 then runcmd buf c else UExit 0)"

section \<open>main\<close>

text \<open>What the child of the shell does with a line: \<open>runcmd(parsecmd(buf))\<close>, and what is left over after the command.\<close>

definition leftovers :: "bytes \<Rightarrow> bytes" where
  "leftovers line = (case parseline (4 * length line + 4) line of Ok (cmd, s) \<Rightarrow> snd (peek s []) | _ \<Rightarrow> [])"

definition run_line :: "bytes \<Rightarrow> uprog" where
  "run_line line =
     (if leftovers line \<noteq> [] then fprintf 2 (''leftovers: %s'' @ [CHR 0x0A]) [UStr (Some (leftovers line))] (panic ''syntax'')
      else case parsecmd line of Ok (cmd, buf) \<Rightarrow> runcmd buf cmd | Panic m \<Rightarrow> panic m | Blocked \<Rightarrow> UMore)"

text \<open>\<open>getcmd\<close> continues with what \<open>gets\<close> has stored in the buffer of \<open>nbuf\<close> zero bytes, or \<open>None\<close> at the end of the input.\<close>

definition getcmd :: "nat \<Rightarrow> (bytes option \<Rightarrow> uprog) \<Rightarrow> uprog" where
  "getcmd nbuf k =
     do_call (SWrite 2 (ustr ''$ '')) (\<lambda>_.
     gets nbuf (\<lambda>buf. k (if char_at buf 0 = 0 then None else Some (takeWhile (\<lambda>c. c \<noteq> 0) buf))))"

text \<open>The loops of \<open>main\<close>; \<open>n\<close> bounds the number of rounds.\<close>

primrec open_console :: "nat \<Rightarrow> uprog \<Rightarrow> uprog" where
  "open_console 0 k = UMore"
| "open_console (Suc n) k =
     do_call (SOpen (ustr ''console'') O_RDWR) (\<lambda>fd.
     if fd \<ge> 0 then if fd \<ge> 3 then do_call (SClose fd) (\<lambda>_. k) else open_console n k else k)"

definition is_cd :: "bytes \<Rightarrow> bool" where
  "is_cd buf \<longleftrightarrow> char_at buf 0 = of_char CHR ''c'' \<and> char_at buf 1 = of_char CHR ''d'' \<and> char_at buf 2 = 32"

primrec command_loop :: "nat \<Rightarrow> uprog" where
  "command_loop 0 = UMore"
| "command_loop (Suc n) =
     getcmd 100 (\<lambda>b. case b of
       None \<Rightarrow> UExit 0
     | Some buf \<Rightarrow>
         if is_cd buf
         then let dir = drop 3 (butlast buf)
              in do_call (SChdir dir) (\<lambda>r.
                 if r < 0 then fprintf 2 (''cannot cd %s'' @ [CHR 0x0A]) [UStr (Some dir)] (command_loop n)
                 else command_loop n)
         else fork1 (\<lambda>pid. if pid = 0 then run_line buf else do_call SWait (\<lambda>_. command_loop n)))"

definition main :: "nat \<Rightarrow> uprog" where
  "main n = open_console n (command_loop n)"

section \<open>The programs that a command starts\<close>

text \<open>What a descriptor refers to: an end of a pipe, an opened file, or something the shell was started with.\<close>

datatype fobj = PipeR nat | PipeW nat | Opened bytes u32 | Given nat

type_synonym fdtab = "int \<Rightarrow> fobj option"

text \<open>A program, its arguments and its descriptors when it is started.\<close>

type_synonym started = "bytes \<times> bytes list \<times> fdtab"

definition fd_new :: "fdtab \<Rightarrow> int option" where
  "fd_new T = find (\<lambda>fd. T fd = None) [0..15]"

text \<open>
  A program and its children are run with the descriptor table \<open>T\<close> in a kernel in which no call fails, until
  each of them has exited or started another program; \<open>n\<close> counts the pipes.
\<close>

primrec launch :: "uprog \<Rightarrow> fdtab \<Rightarrow> nat \<Rightarrow> started list \<times> nat" where
  "launch (UExit r) T n = ([], n)"
| "launch (UCall c k) T n =
     (case c of
        SFork \<Rightarrow> (case launch (k 0 []) T n of (a, n) \<Rightarrow> case launch (k 1 []) T n of (b, n) \<Rightarrow> (a @ b, n))
      | SExec path argv \<Rightarrow> ([(path, argv, T)], n)
      | SClose fd \<Rightarrow> launch (k 0 []) (T(fd := None)) n
      | SDup fd \<Rightarrow>
          (case fd_new T of None \<Rightarrow> launch (k (-1) []) T n | Some fd' \<Rightarrow> launch (k fd' []) (T(fd' := T fd)) n)
      | SOpen path mode \<Rightarrow>
          (case fd_new T of None \<Rightarrow> launch (k (-1) []) T n | Some fd \<Rightarrow> launch (k fd []) (T(fd := Some (Opened path mode))) n)
      | SPipe \<Rightarrow>
          (case fd_new T of
             None \<Rightarrow> launch (k (-1) []) T n
           | Some fd0 \<Rightarrow>
               (let T' = T(fd0 := Some (PipeR n))
                in case fd_new T' of
                     None \<Rightarrow> launch (k (-1) []) T n
                   | Some fd1 \<Rightarrow>
                       launch (k 0 (enc32 (word_of_int fd0) @ enc32 (word_of_int fd1))) (T'(fd1 := Some (PipeW n))) (Suc n)))
      | _ \<Rightarrow> launch (k 1 []) T n)"
| "launch UMore T n = ([], n)"
| "launch UTrap T n = ([], n)"

text \<open>The programs that the user has asked for.\<close>

primrec wanted :: "acmd \<Rightarrow> fdtab \<Rightarrow> nat \<Rightarrow> started list \<times> nat" where
  "wanted (AExec argv) T n = (case argv of [] \<Rightarrow> ([], n) | w # _ \<Rightarrow> ([(w, argv, T)], n))"
| "wanted (ARedir c f mode fd) T n = wanted c (T(fd := Some (Opened f mode))) n"
| "wanted (APipe l r) T n =
     (case wanted l (T(1 := Some (PipeW n))) (Suc n) of (a, n1) \<Rightarrow>
      case wanted r (T(0 := Some (PipeR n))) n1 of (b, n2) \<Rightarrow> (a @ b, n2))"
| "wanted (AList l r) T n = (case wanted l T n of (a, n1) \<Rightarrow> case wanted r T n1 of (b, n2) \<Rightarrow> (a @ b, n2))"
| "wanted (ABack c) T n = wanted c T n"

text \<open>The standard descriptors are open, and two more can be opened.\<close>

definition fds_ok :: "fdtab \<Rightarrow> bool" where
  "fds_ok T \<longleftrightarrow> T 0 \<noteq> None \<and> T 1 \<noteq> None \<and> (\<exists>i j. i \<noteq> j \<and> i \<in> {0..15} \<and> j \<in> {0..15} \<and> T i = None \<and> T j = None)"

primrec cmd_fds :: "cmd \<Rightarrow> bool" where
  "cmd_fds (EXEC argv) \<longleftrightarrow> True"
| "cmd_fds (REDIR c q eq mode fd) \<longleftrightarrow> (fd = 0 \<or> fd = 1) \<and> cmd_fds c"
| "cmd_fds (PIPE l r) \<longleftrightarrow> cmd_fds l \<and> cmd_fds r"
| "cmd_fds (LIST l r) \<longleftrightarrow> cmd_fds l \<and> cmd_fds r"
| "cmd_fds (BACK c) \<longleftrightarrow> cmd_fds c"

lemma fds_ok_upd:
  assumes "fds_ok T" "fd = 0 \<or> fd = 1"
  shows "fds_ok (T(fd := Some x))"
proof -
  obtain i j where "i \<noteq> j" "i \<in> {0..15}" "j \<in> {0..15}" "T i = None" "T j = None" and T: "T 0 \<noteq> None" "T 1 \<noteq> None"
    using assms(1) unfolding fds_ok_def by blast
  moreover from this have "i \<noteq> fd" "j \<noteq> fd" using assms(2) by auto
  ultimately show ?thesis unfolding fds_ok_def by (intro conjI exI [of _ i] exI [of _ j]) simp_all
qed

lemma fd_new_free: "T fd = None \<Longrightarrow> fd \<in> {0..15} \<Longrightarrow> \<exists>fd'. fd_new T = Some fd' \<and> T fd' = None \<and> fd' \<in> {0..15}"
  by (cases "fd_new T") (auto simp: fd_new_def find_None_iff find_Some_iff in_set_conv_nth simp del: upto_rec_numeral)

lemma fd_new_first: "T 0 = None \<Longrightarrow> fd_new T = Some 0" "T 0 \<noteq> None \<Longrightarrow> T 1 = None \<Longrightarrow> fd_new T = Some 1"
  by (simp_all add: fd_new_def upto_rec1)

lemma sint_small: "0 \<le> a \<Longrightarrow> a \<le> 15 \<Longrightarrow> sint (word_of_int a :: u32) = a"
  by (simp add: signed_of_int signed_take_bit_int_eq_self)

lemma pipe_fds: "0 \<le> a \<Longrightarrow> a \<le> 15 \<Longrightarrow> 0 \<le> b \<Longrightarrow> b \<le> 15 \<Longrightarrow>
  pipe_fd (enc32 (word_of_int a) @ enc32 (word_of_int b)) 0 = a \<and> pipe_fd (enc32 (word_of_int a) @ enc32 (word_of_int b)) 1 = b"
  by (simp add: pipe_fd_def get32_def slice_def sint_small)

lemma launch_fork1 [simp]:
  "launch (fork1 k) T n = (case launch (k 0) T n of (a, n) \<Rightarrow> case launch (k 1) T n of (b, n) \<Rightarrow> (a @ b, n))"
  by (simp add: fork1_def)

lemma launch_redir:
  assumes "fds_ok T" "fd = 0 \<or> fd = 1"
  shows "launch (runcmd buf (REDIR c f e mode fd)) T n = launch (runcmd buf c) (T(fd := Some (Opened (string_at buf f) mode))) n"
proof -
  have "fd_new (T(fd := None)) = Some fd" using assms fd_new_first [of "T(fd := None)"] by (auto simp: fds_ok_def)
  then show ?thesis using assms(2) by auto
qed

text \<open>The descriptors of the two children of a pipeline: the pipe replaces one of them, and no other changes.\<close>

lemma launch_pipe:
  assumes "fds_ok T"
  shows "launch (runcmd buf (PIPE l r)) T n =
    (case launch (runcmd buf l) (T(1 := Some (PipeW n))) (Suc n) of (a, n1) \<Rightarrow>
     case launch (runcmd buf r) (T(0 := Some (PipeR n))) n1 of (b, n2) \<Rightarrow> (a @ b, n2))"
proof -
  obtain i j where ij: "i \<noteq> j" "i \<in> {0..15}" "j \<in> {0..15}" "T i = None" "T j = None" and T: "T 0 \<noteq> None" "T 1 \<noteq> None"
    using assms unfolding fds_ok_def by blast
  obtain p0 where p0: "fd_new T = Some p0" "T p0 = None" "p0 \<in> {0..15}" using fd_new_free ij by metis
  let ?T = "T(p0 := Some (PipeR n))"
  have "\<exists>m. m \<in> {0..15} \<and> ?T m = None" using ij by (metis fun_upd_other)
  then obtain p1 where p1: "fd_new ?T = Some p1" "?T p1 = None" "p1 \<in> {0..15}" using fd_new_free by metis
  let ?T' = "?T(p1 := Some (PipeW n))" and ?p = "enc32 (word_of_int p0) @ enc32 (word_of_int p1)"
  have ne: "p0 \<noteq> p1" "p0 \<noteq> 0" "p0 \<noteq> 1" "p1 \<noteq> 0" "p1 \<noteq> 1" using p0 p1 T by (auto split: if_splits)
  have fd: "pipe_fd ?p 0 = p0" "pipe_fd ?p (Suc 0) = p1" using pipe_fds [of p0 p1] p0(3) p1(3) by auto
  have "fd_new (?T'(1 := None)) = Some 1" using T ne by (intro fd_new_first) auto
  moreover have "fd_new (?T'(0 := None)) = Some 0" by (intro fd_new_first) simp
  moreover have "?T'(1 := None, 1 := Some (PipeW n), p0 := None, p1 := None) = T(1 := Some (PipeW n))"
    "?T'(0 := None, 0 := Some (PipeR n), p0 := None, p1 := None) = T(0 := Some (PipeR n))"
    using ne p0 p1 by (auto simp: fun_eq_iff)
  ultimately show ?thesis using p0 p1 fd ne by (simp add: Let_def split: prod.splits)
qed

lemma launch_runcmd:
  "fds_ok T \<Longrightarrow> cmd_fds c \<Longrightarrow> launch (runcmd buf c) T n = wanted (command_in buf c) T n"
proof (induction c arbitrary: T n)
  case (EXEC argv)
  then show ?case by (cases argv) simp_all
next
  case (REDIR c f e mode fd)
  then have "fds_ok (T(fd := Some (Opened (string_at buf f) mode)))" by (intro fds_ok_upd) simp_all
  then show ?case using REDIR launch_redir by (simp del: runcmd.simps)
next
  case (PIPE l r)
  then have "fds_ok (T(1 := Some (PipeW n)))" "fds_ok (T(0 := Some (PipeR n)))" by (simp_all add: fds_ok_upd)
  then have "launch (runcmd buf l) (T(1 := Some (PipeW n))) m = wanted (command_in buf l) (T(1 := Some (PipeW n))) m"
    "launch (runcmd buf r) (T(0 := Some (PipeR n))) m = wanted (command_in buf r) (T(0 := Some (PipeR n))) m" for m
    using PIPE by simp_all
  then show ?case by (simp only: launch_pipe [OF PIPE.prems(1)] command_in.simps wanted.simps)
qed (auto split: prod.splits)

primrec acmd_fds :: "acmd \<Rightarrow> bool" where
  "acmd_fds (AExec argv) \<longleftrightarrow> True"
| "acmd_fds (ARedir c f mode fd) \<longleftrightarrow> (fd = 0 \<or> fd = 1) \<and> acmd_fds c"
| "acmd_fds (APipe l r) \<longleftrightarrow> acmd_fds l \<and> acmd_fds r"
| "acmd_fds (AList l r) \<longleftrightarrow> acmd_fds l \<and> acmd_fds r"
| "acmd_fds (ABack c) \<longleftrightarrow> acmd_fds c"

lemma acmd_fds_redirs: "\<forall>d\<in>set ds. redir_ok d \<Longrightarrow> acmd_fds a \<Longrightarrow> acmd_fds (with_redirs a ds)"
  by (induction ds arbitrary: a) (auto simp: with_redirs_def redir_ok_def)

lemma acmd_fds_grammar:
  "(simple_cmd a ts \<longrightarrow> acmd_fds a) \<and> (pipeline a' ts' \<longrightarrow> acmd_fds a') \<and> (background a'' ts'' \<longrightarrow> acmd_fds a'') \<and>
   (command_line b us \<longrightarrow> acmd_fds b)"
  by (rule simple_cmd_pipeline_background_command_line.induct) (auto intro!: acmd_fds_redirs simp: arg_ok_def)

lemma cmd_fds_typed: "acmd_fds (command_in buf c) \<Longrightarrow> cmd_fds c"
  by (induction c) auto

lemma launch_printing [simp]: "launch (put_chars fd cs k) T n = launch k T n"
  by (induction cs) auto

lemma launch_fprintf: "launch k T n = ([], n) \<Longrightarrow> launch (fprintf fd fmt ap k) T n = ([], n)"
  by (simp add: fprintf_def vprintf_def split: option.split)

lemma launch_panic: "launch (panic m) T n = ([], n)"
  unfolding panic_def by (rule launch_fprintf) simp

lemma run_line_Ok:
  assumes "parsecmd line = Ok (c, buf)"
  shows "run_line line = runcmd buf c"
proof -
  have "leftovers line = []" using assms by (auto simp: parsecmd_Ok leftovers_def peek_def simp del: parseline.simps dropWhile_eq_Nil_conv)
  then show ?thesis using assms by (simp add: run_line_def)
qed

text \<open>
  C4: the shell runs what was typed. On a line that spells a command of the grammar the child process of the
  shell starts exactly the wanted programs with the wanted arguments, and the descriptors of each program are
  those of the shell with its redirections and pipes put in place; in particular no program of a pipeline keeps
  another end of a pipe open. On any other line it starts no program. The environment is a kernel in which no
  call fails, and the standard descriptors and two free ones are given.\<close>

theorem shell_runs_typed:
  assumes "0 \<notin> set line" "fds_ok T"
  shows "(\<forall>ts a. spells ts line \<and> command_line a ts \<longrightarrow> launch (run_line line) T n = wanted a T n) \<and>
    ((\<nexists>ts a. spells ts line \<and> command_line a ts) \<longrightarrow> launch (run_line line) T n = ([], n))"
proof (intro conjI impI allI)
  fix ts a assume a: "spells ts line \<and> command_line a ts"
  then obtain c buf where c: "parsecmd line = Ok (c, buf)" "command_in buf c = a" using parsecmd_complete by blast
  have "cmd_fds c" using a acmd_fds_grammar c(2) by (intro cmd_fds_typed) blast
  then show "launch (run_line line) T n = wanted a T n" using launch_runcmd [OF assms(2)] run_line_Ok [OF c(1)] c(2) by simp
next
  assume "\<nexists>ts a. spells ts line \<and> command_line a ts"
  then have "parsecmd line \<noteq> Ok (c, buf)" for c buf using parsecmd_sound [OF assms(1)] by blast
  then show "launch (run_line line) T n = ([], n)"
    by (cases "parsecmd line") (auto simp: run_line_def launch_panic intro!: launch_fprintf)
qed

definition tty :: fdtab where
  "tty fd = (if fd \<in> {0, 1, 2} then Some (Given 0) else None)"

theorem shell_runs_typed_witness:
  "launch (run_line (ustr ''(ls|wc)>y &'' @ [10])) tty 0 =
     ([(ustr ''ls'', [ustr ''ls''], tty(1 := Some (PipeW 0))),
       (ustr ''wc'', [ustr ''wc''], tty(1 := Some (Opened (ustr ''y'') (O_WRONLY OR O_CREATE OR O_TRUNC)), 0 := Some (PipeR 0)))], 1)"
proof -
  have "fds_ok tty" unfolding fds_ok_def by (intro conjI exI [of _ 3] exI [of _ 4]) (simp_all add: tty_def)
  then have "launch (run_line (ustr ''(ls|wc)>y &'' @ [10])) tty 0 = wanted example_cmd tty 0"
    using shell_runs_typed [OF spells_nonzero [OF spell_example]] spell_example example_line by blast
  then show ?thesis by (simp add: example_cmd_def)
qed

end
