(* ===== verification/Grep.thy ===== *)
theory Grep
  imports Ulib
begin

text \<open>
  user/grep.c: the matcher, and the loop that reads a file piece by piece and prints the lines that match. A
  string is the list of its characters before the NUL.
\<close>

section \<open>The matcher\<close>

fun matchhere :: "bytes \<Rightarrow> bytes \<Rightarrow> bool"
  and matchstar :: "u8 \<Rightarrow> bytes \<Rightarrow> bytes \<Rightarrow> bool" where
  "matchhere re text =
     (if re = [] then True
      else if char_at re 1 = of_char CHR ''*'' then matchstar (hd re) (drop 2 re) text
      else if hd re = of_char CHR ''$'' \<and> tl re = [] then text = []
      else if text \<noteq> [] \<and> (hd re = of_char CHR ''.'' \<or> hd re = hd text) then matchhere (tl re) (tl text)
      else False)"
| "matchstar c re text =
     (if matchhere re text then True
      else if text \<noteq> [] \<and> (hd text = c \<or> c = of_char CHR ''.'') then matchstar c re (tl text)
      else False)"

declare matchhere.simps [simp del] matchstar.simps [simp del]

text \<open>The loop of \<open>match\<close> looks at the empty string at the end, too.\<close>

primrec match_loop :: "bytes \<Rightarrow> bytes \<Rightarrow> bool" where
  "match_loop re [] \<longleftrightarrow> matchhere re []"
| "match_loop re (c # text) \<longleftrightarrow> matchhere re (c # text) \<or> match_loop re text"

definition match :: "bytes \<Rightarrow> bytes \<Rightarrow> bool" where
  "match re text = (if char_at re 0 = of_char CHR ''^'' then matchhere (tl re) text else match_loop re text)"

section \<open>grep\<close>

text \<open>The C string in a buffer.\<close>

definition cstr :: "bytes \<Rightarrow> bytes" where
  "cstr b = takeWhile (\<lambda>c. c \<noteq> 0) b"

lemma strchr_Some: "strchr s c = Some r \<Longrightarrow> c \<in> set s"
  by (induction s) (auto split: if_splits)

lemma tl_dropWhile_less: "c \<in> set p \<Longrightarrow> length (dropWhile P p) - Suc 0 < length p"
  using length_dropWhile_le [of P p] length_pos_if_in_set [of c p] by linarith

text \<open>
  The inner loop: \<open>p\<close> is what is in the buffer from \<open>p\<close> on. It writes the lines that match, and continues with
  what is left.
\<close>

function grep_scan :: "bytes \<Rightarrow> bytes \<Rightarrow> (bytes \<Rightarrow> uprog) \<Rightarrow> uprog" where
  "grep_scan pattern p k =
     (case strchr (cstr p) 10 of
        None \<Rightarrow> k p
      | Some _ \<Rightarrow>
          let line = takeWhile (\<lambda>c. c \<noteq> 10) p;
              p' = tl (dropWhile (\<lambda>c. c \<noteq> 10) p)
          in if match pattern line
             then do_call (SWrite 1 (line @ [10])) (\<lambda>_. grep_scan pattern p' k)
             else grep_scan pattern p' k)"
  by pat_completeness auto
termination
  by (relation "measure (\<lambda>(pattern, p, k). length p)") (auto simp: cstr_def dest!: strchr_Some set_takeWhileD intro!: tl_dropWhile_less)

declare grep_scan.simps [simp del]

text \<open>The outer loop; \<open>b\<close> are the first \<open>m\<close> bytes of the buffer, and \<open>n\<close> bounds the number of reads.\<close>

primrec grep_loop :: "nat \<Rightarrow> bytes \<Rightarrow> int \<Rightarrow> bytes \<Rightarrow> uprog \<Rightarrow> uprog" where
  "grep_loop 0 pattern fd b k = UMore"
| "grep_loop (Suc n) pattern fd b k =
     UCall (SRead fd (1024 - length b - 1)) (\<lambda>r d.
       if r > 0
       then grep_scan pattern (b @ take (nat r) d) (\<lambda>b'. grep_loop n pattern fd b' k)
       else k)"

definition grep :: "nat \<Rightarrow> bytes \<Rightarrow> int \<Rightarrow> uprog \<Rightarrow> uprog" where
  "grep n pattern fd k = grep_loop n pattern fd [] k"

fun grep_files :: "nat \<Rightarrow> bytes \<Rightarrow> bytes list \<Rightarrow> uprog" where
  "grep_files n pattern [] = UExit 0"
| "grep_files n pattern (f # fs) =
     do_call (SOpen f O_RDONLY) (\<lambda>fd.
       if fd < 0 then printf (''grep: cannot open %s'' @ [CHR 0x0A]) [UStr (Some f)] (UExit 1)
       else grep n pattern fd (do_call (SClose fd) (\<lambda>_. grep_files n pattern fs)))"

definition main :: "nat \<Rightarrow> bytes list \<Rightarrow> uprog" where
  "main n argv =
     (case argv of
        _ # pattern # fs \<Rightarrow> if fs = [] then grep n pattern 0 (UExit 0) else grep_files n pattern fs
      | _ \<Rightarrow> fprintf 2 (''usage: grep pattern [file ...]'' @ [CHR 0x0A]) [] (UExit 1))"

section \<open>What a pattern means\<close>

text \<open>
  A pattern is a sequence of characters, \<open>None\<close> being the dot, each with a star or not, and is possibly
  anchored at the start or at the end. \<open>lang\<close> is the set of texts that the sequence stands for.
\<close>

type_synonym item = "u8 option \<times> bool"

definition dot_char :: "u8 \<Rightarrow> u8 option" where
  "dot_char c = (if c = of_char CHR ''.'' then None else Some c)"

function items :: "bytes \<Rightarrow> item list \<times> bool" where
  "items [] = ([], False)"
| "items (c # re) =
     (if re \<noteq> [] \<and> hd re = of_char CHR ''*'' then let (is, d) = items (tl re) in ((dot_char c, True) # is, d)
      else if c = of_char CHR ''$'' \<and> re = [] then ([], True)
      else let (is, d) = items re in ((dot_char c, False) # is, d))"
  by pat_completeness auto
termination
  by (relation "measure length") auto

definition accepts :: "u8 option \<Rightarrow> u8 \<Rightarrow> bool" where
  "accepts a c \<longleftrightarrow> a = None \<or> a = Some c"

definition item_lang :: "item \<Rightarrow> bytes set" where
  "item_lang i = {w. (\<forall>c\<in>set w. accepts (fst i) c) \<and> (\<not> snd i \<longrightarrow> length w = 1)}"

primrec lang :: "item list \<Rightarrow> bytes set" where
  "lang [] = {[]}"
| "lang (i # is) = {u @ v | u v. u \<in> item_lang i \<and> v \<in> lang is}"

text \<open>The pattern without the anchor at its start.\<close>

definition anchored :: "bytes \<Rightarrow> bool" where
  "anchored re \<longleftrightarrow> re \<noteq> [] \<and> hd re = of_char CHR ''^''"

definition body :: "bytes \<Rightarrow> item list" where
  "body re = fst (items (if anchored re then tl re else re))"

definition at_end :: "bytes \<Rightarrow> bool" where
  "at_end re = snd (items (if anchored re then tl re else re))"

text \<open>That a text starts with a match, and with one after characters that the starred \<open>c\<close> stands for.\<close>

definition here :: "bytes \<Rightarrow> bytes \<Rightarrow> bool" where
  "here re text \<longleftrightarrow> (\<exists>v w. text = v @ w \<and> v \<in> lang (fst (items re)) \<and> (snd (items re) \<longrightarrow> w = []))"

definition star :: "u8 \<Rightarrow> bytes \<Rightarrow> bytes \<Rightarrow> bool" where
  "star c re text \<longleftrightarrow> (\<exists>u t. text = u @ t \<and> (\<forall>x\<in>set u. accepts (dot_char c) x) \<and> here re t)"

lemma accepts_dot: "accepts (dot_char c) x \<longleftrightarrow> c = of_char CHR ''.'' \<or> c = x"
  by (auto simp: accepts_def dot_char_def)

lemma here_Nil: "here [] tx"
  by (simp add: here_def)

lemma here_end: "here [of_char CHR ''$''] tx \<longleftrightarrow> tx = []"
  by (simp add: here_def)

lemma here_item:
  assumes "items re = (i # its, d)" "items re' = (its, d)"
  shows "here re tx \<longleftrightarrow> (\<exists>u t. tx = u @ t \<and> u \<in> item_lang i \<and> here re' t)"
proof
  assume "here re tx"
  then obtain v w where "tx = v @ w" "v \<in> lang (i # its)" and d: "d \<longrightarrow> w = []" unfolding here_def assms(1) by auto
  then obtain u v where u: "tx = u @ v @ w" "u \<in> item_lang i" "v \<in> lang its" by auto
  have "here re' (v @ w)" unfolding here_def assms(2) using u(3) d by auto
  then show "\<exists>u t. tx = u @ t \<and> u \<in> item_lang i \<and> here re' t" using u by blast
next
  assume "\<exists>u t. tx = u @ t \<and> u \<in> item_lang i \<and> here re' t"
  then obtain u t where u: "tx = u @ t" "u \<in> item_lang i" "here re' t" by blast
  then obtain v w where v: "t = v @ w" "v \<in> lang its" "d \<longrightarrow> w = []" unfolding here_def assms(2) by auto
  have "u @ v \<in> lang (i # its)" using u(2) v(2) by auto
  moreover have "tx = (u @ v) @ w" using u v by simp
  ultimately show "here re tx" unfolding here_def assms(1) fst_conv snd_conv using v(3) by blast
qed

lemma here_star: "here (c # of_char CHR ''*'' # re) tx \<longleftrightarrow> star c re tx"
proof -
  obtain its d where i: "items re = (its, d)" by force
  show ?thesis using here_item [of _ "(dot_char c, True)" its d re tx] i by (simp add: star_def item_lang_def)
qed

lemma here_char:
  assumes "re = [] \<or> hd re \<noteq> of_char CHR ''*''" "re \<noteq> [] \<or> c \<noteq> of_char CHR ''$''"
  shows "here (c # re) tx \<longleftrightarrow> (\<exists>x t. tx = x # t \<and> accepts (dot_char c) x \<and> here re t)"
proof -
  obtain its d where i: "items re = (its, d)" by force
  have w: "item_lang (a, False) = {[x] | x. accepts a x}" for a by (auto simp: item_lang_def length_Suc_conv)
  have "items (c # re) = ((dot_char c, False) # its, d)" using assms i by auto
  from here_item [OF this i, of tx] have "here (c # re) tx \<longleftrightarrow> (\<exists>x t. tx = [x] @ t \<and> accepts (dot_char c) x \<and> here re t)"
    unfolding w by blast
  then show ?thesis by simp
qed

lemma star_step: "star c re tx \<longleftrightarrow> here re tx \<or> (\<exists>x t. tx = x # t \<and> accepts (dot_char c) x \<and> star c re t)"
proof
  assume "star c re tx"
  then obtain u t where u: "tx = u @ t" "\<forall>x\<in>set u. accepts (dot_char c) x" "here re t" unfolding star_def by blast
  show "here re tx \<or> (\<exists>x t. tx = x # t \<and> accepts (dot_char c) x \<and> star c re t)"
  proof (cases u)
    case (Cons x u')
    then have "star c re (u' @ t)" unfolding star_def using u by auto
    then show ?thesis using u Cons by simp
  qed (use u in simp)
next
  assume "here re tx \<or> (\<exists>x t. tx = x # t \<and> accepts (dot_char c) x \<and> star c re t)"
  then show "star c re tx"
  proof
    assume "here re tx"
    then have "tx = [] @ tx \<and> (\<forall>x\<in>set []. accepts (dot_char c) x) \<and> here re tx" by simp
    then show ?thesis unfolding star_def by blast
  next
    assume "\<exists>x t. tx = x # t \<and> accepts (dot_char c) x \<and> star c re t"
    then obtain x u t where "tx = (x # u) @ t" "\<forall>y\<in>set (x # u). accepts (dot_char c) y" "here re t" unfolding star_def by auto
    then show ?thesis unfolding star_def by blast
  qed
qed

lemma matcher_iff: "matchhere re tx \<longleftrightarrow> here re tx" "matchstar c re tx \<longleftrightarrow> star c re tx"
proof (induction re tx and c re tx rule: matchhere_matchstar.induct)
  case (1 re tx)
  show ?case
  proof (cases re)
    case Nil
    then show ?thesis by (simp add: matchhere.simps here_Nil)
  next
    case (Cons a re')
    consider "char_at re 1 = of_char CHR ''*''" | "char_at re 1 \<noteq> of_char CHR ''*''" "a = of_char CHR ''$''" "re' = []"
      | "char_at re 1 \<noteq> of_char CHR ''*''" "re' \<noteq> [] \<or> a \<noteq> of_char CHR ''$''" by blast
    then show ?thesis
    proof cases
      case 1
      then obtain re2 where "re' = of_char CHR ''*'' # re2" using Cons by (cases re') (auto simp: char_at_def)
      then show ?thesis using "1.IH"(1) 1 Cons here_star [of a re2 tx] by (subst matchhere.simps) simp
    next
      case 2
      then show ?thesis using Cons here_end [of tx] by (subst matchhere.simps) simp
    next
      case 3
      then have "re' = [] \<or> hd re' \<noteq> of_char CHR ''*''" using Cons by (cases re') (auto simp: char_at_def)
      note h = here_char [OF this 3(2), of tx]
      show ?thesis using "1.IH"(2) 3 Cons h accepts_dot by (subst matchhere.simps, cases tx) auto
    qed
  qed
next
  case (2 c re tx)
  then show ?case using accepts_dot by (subst matchstar.simps, subst star_step, cases tx) auto
qed

lemma match_loop_iff: "match_loop re tx \<longleftrightarrow> (\<exists>u t. tx = u @ t \<and> here re t)"
proof (induction tx)
  case (Cons c tx)
  have "(\<exists>u t. c # tx = u @ t \<and> here re t) \<longleftrightarrow> here re (c # tx) \<or> (\<exists>u t. tx = u @ t \<and> here re t)"
    by (auto simp: Cons_eq_append_conv)
  then show ?case using Cons by (simp add: matcher_iff)
qed (simp add: matcher_iff)

text \<open>
  C6: the recursive matcher is correct: \<open>match\<close> finds the pattern in a text exactly if a part of the text is
  one of those that the pattern stands for, a part at the start or at the end of the text if the pattern
  is anchored there.\<close>

theorem match_correct:
  "match re tx \<longleftrightarrow>
     (\<exists>u v w. tx = u @ v @ w \<and> v \<in> lang (body re) \<and> (anchored re \<longrightarrow> u = []) \<and> (at_end re \<longrightarrow> w = []))"
proof (cases "anchored re")
  case True
  then have "match re tx \<longleftrightarrow> here (tl re) tx" by (cases re) (simp_all add: match_def anchored_def char_at_def matcher_iff)
  then show ?thesis using True by (simp add: here_def body_def at_end_def)
next
  case False
  then have "match re tx \<longleftrightarrow> (\<exists>u t. tx = u @ t \<and> here re t)"
    by (cases re) (simp_all add: match_def anchored_def char_at_def match_loop_iff)
  then show ?thesis using False by (auto simp: here_def body_def at_end_def)
qed

theorem match_correct_witness: "ustr ''aab'' \<in> lang (body (ustr ''^a*b$''))"
proof -
  have "match (ustr ''^a*b$'') (ustr ''aab'')"
    by (simp add: ustr_def match_def char_at_def matchhere.simps matchstar.simps)
  moreover have "anchored (ustr ''^a*b$'')" "at_end (ustr ''^a*b$'')" by (simp_all add: ustr_def anchored_def at_end_def)
  ultimately show ?thesis using match_correct [of "ustr ''^a*b$''" "ustr ''aab''"] by auto
qed

section \<open>The lines that are printed\<close>

text \<open>
  The lines of a file, without a last one that no newline ends; and what follows the last newline.
\<close>

primrec full_lines :: "bytes \<Rightarrow> bytes list" where
  "full_lines [] = []"
| "full_lines (c # p) =
     (if c = 10 then [] # full_lines p else case full_lines p of [] \<Rightarrow> [] | l # ls \<Rightarrow> (c # l) # ls)"

definition last_part :: "bytes \<Rightarrow> bytes" where
  "last_part p = rev (takeWhile (\<lambda>c. c \<noteq> 10) (rev p))"

definition printed :: "bytes \<Rightarrow> bytes \<Rightarrow> bytes" where
  "printed re p = concat (map (\<lambda>l. l @ [10]) (filter (match re) (full_lines p)))"

text \<open>
  A file that is read through the system calls: what has not been read, how many more bytes than one each
  of the next calls returns, if there are so many, and what was written to the standard output.
\<close>

type_synonym io = "bytes \<times> nat list \<times> bytes"

definition file_env :: "io \<Rightarrow> syscall_req \<Rightarrow> int \<times> bytes \<times> io" where
  "file_env w c =
     (case w of (rest, sizes, out) \<Rightarrow>
        case c of
          SRead fd n \<Rightarrow>
            (let k = min (min n (length rest)) (case sizes of [] \<Rightarrow> n | m # _ \<Rightarrow> Suc m)
             in (int k, take k rest, (drop k rest, tl sizes, out)))
        | SWrite fd b \<Rightarrow> (int (length b), [], (rest, sizes, if fd = 1 then out @ b else out))
        | _ \<Rightarrow> (0, [], w))"

lemma full_lines_Nil: "full_lines p = [] \<longleftrightarrow> 10 \<notin> set p"
  by (induction p) (auto split: list.splits)

lemma last_part_Cons: "last_part (c # p) = (if 10 \<in> set (c # p) then last_part p else c # p)"
proof (cases "10 \<in> set p")
  case True
  then show ?thesis using takeWhile_append1 [of 10 "rev p" "\<lambda>c. c \<noteq> 10" "[c]"] by (simp add: last_part_def)
next
  case False
  then have "takeWhile (\<lambda>c. c \<noteq> 10) (rev p @ [c]) = rev p @ takeWhile (\<lambda>c. c \<noteq> 10) [c]" "takeWhile (\<lambda>c. c \<noteq> 10) (rev p) = rev p"
    by (intro takeWhile_append2, auto simp only: takeWhile_eq_all_conv set_rev)
  then show ?thesis using False by (simp add: last_part_def del: takeWhile_eq_all_conv)
qed

lemma last_part_set: "10 \<notin> set (last_part p)" "set (last_part p) \<subseteq> set p"
  by (auto simp: last_part_def dest: set_takeWhileD)

lemma last_part_all: "10 \<notin> set p \<Longrightarrow> last_part p = p"
proof -
  assume "10 \<notin> set p"
  then have "takeWhile (\<lambda>c. c \<noteq> 10) (rev p) = rev p" by (subst takeWhile_eq_all_conv) auto
  then show ?thesis by (simp only: last_part_def rev_rev_ident)
qed

lemma last_part_le: "length (last_part p) \<le> length p"
  using length_takeWhile_le [of _ "rev p"] by (simp add: last_part_def)

lemma set_tl_dropWhile: "set (tl (dropWhile P p)) \<subseteq> set p"
proof
  fix x assume "x \<in> set (tl (dropWhile P p))"
  then have "x \<in> set (dropWhile P p)" by (cases "dropWhile P p") auto
  then show "x \<in> set p" by (rule set_dropWhileD)
qed

lemma lines_append: "full_lines (p @ r) = full_lines p @ full_lines (last_part p @ r)"
proof (induction p)
  case (Cons c p)
  show ?case
  proof (cases "10 \<in> set p")
    case True
    then obtain l ls where "full_lines p = l # ls" using full_lines_Nil by (cases "full_lines p") auto
    then show ?thesis using Cons True by (simp add: last_part_Cons)
  next
    case False
    then have "full_lines p = []" using full_lines_Nil by blast
    then show ?thesis using Cons False last_part_all [OF False] by (simp add: last_part_Cons)
  qed
qed (simp add: last_part_def)

lemma lines_first: "10 \<in> set p \<Longrightarrow> full_lines p = takeWhile (\<lambda>c. c \<noteq> 10) p # full_lines (tl (dropWhile (\<lambda>c. c \<noteq> 10) p)) \<and>
   last_part p = last_part (tl (dropWhile (\<lambda>c. c \<noteq> 10) p))"
  by (induction p) (auto simp: last_part_Cons)

lemma cstr_id: "0 \<notin> set p \<Longrightarrow> cstr p = p"
  by (auto simp: cstr_def takeWhile_eq_all_conv)

lemma strchr_eq_None: "strchr s c = None \<longleftrightarrow> c \<notin> set s"
  by (induction s) auto

text \<open>A read returns something unless nothing is asked for or left.\<close>

lemma file_env_read:
  obtains k where "file_env (rest, sizes, out) (SRead fd n) = (int k, take k rest, (drop k rest, tl sizes, out))"
    "k \<le> n" "k \<le> length rest" "k = 0 \<longleftrightarrow> n = 0 \<or> rest = []"
proof
  let ?k = "min (min n (length rest)) (case sizes of [] \<Rightarrow> n | m # _ \<Rightarrow> Suc m)"
  show "file_env (rest, sizes, out) (SRead fd n) = (int ?k, take ?k rest, (drop ?k rest, tl sizes, out))"
    by (simp only: file_env_def Let_def prod.case syscall_req.case)
  show "?k \<le> n" "?k \<le> length rest" by (rule min.coboundedI1, simp)+
  show "?k = 0 \<longleftrightarrow> n = 0 \<or> rest = []" by (cases sizes) (auto simp: min_def)
qed

lemma file_env_write: "file_env (rest, sizes, out) (SWrite 1 b) = (int (length b), [], (rest, sizes, out @ b))"
  by (simp add: file_env_def)

lemma printed_first:
  "10 \<in> set p \<Longrightarrow> printed re p = (if match re (takeWhile (\<lambda>c. c \<noteq> 10) p) then takeWhile (\<lambda>c. c \<noteq> 10) p @ [10] else []) @
     printed re (tl (dropWhile (\<lambda>c. c \<noteq> 10) p))"
  using lines_first [of p] by (simp add: printed_def)

lemma grep_scan_run:
  assumes "0 \<notin> set p"
  shows "run_prog file_env (grep_scan re p k) (rest, sizes, out) = run_prog file_env (k (last_part p)) (rest, sizes, out @ printed re p)"
  using assms
proof (induction re p k arbitrary: out rule: grep_scan.induct)
  case (1 re p k)
  show ?case
  proof (cases "10 \<in> set p")
    case True
    then obtain x where x: "strchr (cstr p) 10 = Some x" using "1.prems" cstr_id strchr_eq_None by (cases "strchr (cstr p) 10") auto
    have z: "0 \<notin> set (tl (dropWhile (\<lambda>c. c \<noteq> 10) p))" using "1.prems" set_tl_dropWhile [of _ p] by auto
    show ?thesis
      using "1.IH"(1) [OF x refl refl _ z] "1.IH"(2) [OF x refl refl _ z] x lines_first [OF True] printed_first [OF True, of re]
      by (subst grep_scan.simps) (simp add: Let_def file_env_write)
  next
    case False
    then have "strchr (cstr p) 10 = None" "last_part p = p" "printed re p = []"
      using "1.prems" cstr_id [of p] strchr_eq_None [of p 10] full_lines_Nil [of p] last_part_all [of p] by (simp_all add: printed_def)
    then show ?thesis by (subst grep_scan.simps) simp
  qed
qed

lemma grep_loop_run:
  assumes "length rest < n" "0 \<notin> set (b @ rest)" "10 \<notin> set b" "length b \<le> 1023" "\<forall>l\<in>set (full_lines (b @ rest)). length l < 1023"
  shows "\<exists>rest' sizes'. run_prog file_env (grep_loop n re fd b k) (rest, sizes, out) =
    run_prog file_env k (rest', sizes', out @ printed re (b @ rest))"
  using assms
proof (induction n arbitrary: rest b sizes out)
  case (Suc n)
  obtain m where rd: "file_env (rest, sizes, out) (SRead fd (1024 - length b - 1)) = (int m, take m rest, (drop m rest, tl sizes, out))"
    and m: "m \<le> 1024 - length b - 1" "m \<le> length rest" "m = 0 \<longleftrightarrow> 1024 - length b - 1 = 0 \<or> rest = []"
    using file_env_read [of rest sizes out fd "1024 - length b - 1"] by blast
  show ?case
  proof (cases "m = 0")
    case True
    have "10 \<notin> set (b @ rest)"
    proof
      assume n: "10 \<in> set (b @ rest)"
      then have lb: "length b = 1023" using True m(3) Suc.prems(3,4) by auto
      have "takeWhile (\<lambda>c. c \<noteq> 10) (b @ rest) = b @ takeWhile (\<lambda>c. c \<noteq> 10) rest" using Suc.prems(3) by (intro takeWhile_append2) auto
      then show False using lines_first [OF n] Suc.prems(5) lb by auto
    qed
    then have "printed re (b @ rest) = []" using full_lines_Nil [of "b @ rest"] by (simp add: printed_def)
    then show ?thesis using rd True by auto
  next
    case False
    let ?p = "b @ take m rest" and ?r = "drop m rest"
    have e: "?p @ ?r = b @ rest" by simp
    have "full_lines (b @ rest) = full_lines ?p @ full_lines (last_part ?p @ ?r)" using lines_append [of ?p ?r] unfolding e .
    then have pr: "printed re (b @ rest) = printed re ?p @ printed re (last_part ?p @ ?r)"
      and ln: "\<forall>l\<in>set (full_lines (last_part ?p @ ?r)). length l < 1023" using Suc.prems(5) by (auto simp: printed_def)
    have z: "0 \<notin> set ?p" "0 \<notin> set (last_part ?p @ ?r)" using Suc.prems(2) last_part_set(2) [of ?p] by (auto dest: in_set_takeD in_set_dropD)
    have lp: "length (last_part ?p) \<le> 1023" using Suc.prems(4) m(1) last_part_le [of ?p] by simp
    have "length ?r < n" using False m(2) Suc.prems(1) by simp
    from Suc.IH [OF this z(2) last_part_set(1) lp ln, of "tl sizes" "out @ printed re ?p"]
    show ?thesis using rd False grep_scan_run [OF z(1), of re "\<lambda>b'. grep_loop n re fd b' k" ?r "tl sizes" out] pr by simp
  qed
qed simp

text \<open>
  C28: \<open>grep\<close> prints exactly the lines of a file that match, in order, however the file is cut into pieces by
  the calls of \<open>read\<close>; a line must have fewer than 1023 characters, and the file no NUL. A last line that no
  newline ends is not printed.\<close>

theorem grep_prints_matching:
  assumes "0 \<notin> set content" "\<forall>l\<in>set (full_lines content). length l < 1023" "length content < n"
  shows "\<exists>rest sizes'. run_prog file_env (grep n re fd (UExit 0)) (content, sizes, out) = Ok (0, (rest, sizes', out @ printed re content))"
  using grep_loop_run [where b = "[]" and rest = content and k = "UExit 0"] assms by (simp add: grep_def)

theorem grep_prints_matching_witness:
  "\<exists>rest sizes'. run_prog file_env (grep 20 (ustr ''a.c'') 3 (UExit 0)) (ustr ''xabc'' @ [10] @ ustr ''ac'' @ [10], [0, 3, 1], []) =
     Ok (0, (rest, sizes', ustr ''xabc'' @ [10]))"
proof -
  let ?f = "ustr ''xabc'' @ [10] @ ustr ''ac'' @ [10]"
  have l: "full_lines ?f = [ustr ''xabc'', ustr ''ac'']" by (simp add: ustr_def)
  have "match (ustr ''a.c'') (ustr ''xabc'')" "\<not> match (ustr ''a.c'') (ustr ''ac'')"
    by (simp_all add: ustr_def match_def char_at_def matchhere.simps)
  then have "printed (ustr ''a.c'') ?f = ustr ''xabc'' @ [10]" unfolding printed_def l by simp
  moreover have "0 \<notin> set ?f" "length ?f < 20" by (simp_all add: ustr_def)
  moreover have "\<forall>l\<in>set (full_lines ?f). length l < 1023" unfolding l by (simp add: ustr_def)
  ultimately show ?thesis using grep_prints_matching [of ?f 20 "ustr ''a.c''" 3 "[0, 3, 1]" "[]"] by simp
qed

end
