(* ===== verification/Progs.thy ===== *)
theory Progs
  imports Shell Grep
begin

text \<open>
  The small user programs: user/cat.c, echo.c, kill.c, ln.c, ls.c, mkdir.c, rm.c, wc.c, init.c, zombie.c,
  stressfs.c, forktest.c, trace.c, xv6.c, testhello.c and sysinfotest.c. \<open>argv\<close> is the list of the
  arguments. A bound on the number of rounds is an argument of the loops that read a file or wait.
\<close>

definition nl :: string where "nl = [CHR 0x0A]"

section \<open>cat, echo\<close>

primrec cat :: "nat \<Rightarrow> int \<Rightarrow> uprog \<Rightarrow> uprog" where
  "cat 0 fd k = UMore"
| "cat (Suc m) fd k =
     UCall (SRead fd 512) (\<lambda>n buf.
       if n > 0
       then do_call (SWrite 1 (take (nat n) buf)) (\<lambda>r.
            if r \<noteq> n then fprintf 2 (''cat: write error'' @ nl) [] (UExit 1) else cat m fd k)
       else if n < 0 then fprintf 2 (''cat: read error'' @ nl) [] (UExit 1)
       else k)"

primrec cat_files :: "nat \<Rightarrow> bytes list \<Rightarrow> uprog" where
  "cat_files m [] = UExit 0"
| "cat_files m (f # fs) =
     do_call (SOpen f O_RDONLY) (\<lambda>fd.
       if fd < 0 then fprintf 2 (''cat: cannot open %s'' @ nl) [UStr (Some f)] (UExit 1)
       else cat m fd (do_call (SClose fd) (\<lambda>_. cat_files m fs)))"

definition cat_main :: "nat \<Rightarrow> bytes list \<Rightarrow> uprog" where
  "cat_main m argv = (if length argv \<le> 1 then cat m 0 (UExit 0) else cat_files m (tl argv))"

primrec echo_args :: "bytes list \<Rightarrow> uprog" where
  "echo_args [] = UExit 0"
| "echo_args (a # as) =
     do_call (SWrite 1 a) (\<lambda>_. do_call (SWrite 1 (if as \<noteq> [] then [32] else [10])) (\<lambda>_. echo_args as))"

definition echo_main :: "bytes list \<Rightarrow> uprog" where
  "echo_main argv = echo_args (tl argv)"

section \<open>kill, ln, mkdir, rm\<close>

primrec kill_args :: "bytes list \<Rightarrow> uprog" where
  "kill_args [] = UExit 0"
| "kill_args (a # as) = do_call (SKill (atoi a)) (\<lambda>_. kill_args as)"

definition kill_main :: "bytes list \<Rightarrow> uprog" where
  "kill_main argv = (if length argv < 2 then fprintf 2 (''usage: kill pid...'' @ nl) [] (UExit 1) else kill_args (tl argv))"

definition ln_main :: "bytes list \<Rightarrow> uprog" where
  "ln_main argv =
     (if length argv \<noteq> 3 then fprintf 2 (''Usage: ln old new'' @ nl) [] (UExit 1)
      else do_call (SLink (argv ! 1) (argv ! 2)) (\<lambda>r.
        if r < 0 then fprintf 2 (''link %s %s: failed'' @ nl) [UStr (Some (argv ! 1)), UStr (Some (argv ! 2))] (UExit 0)
        else UExit 0))"

primrec mkdir_args :: "bytes list \<Rightarrow> uprog" where
  "mkdir_args [] = UExit 0"
| "mkdir_args (a # as) =
     do_call (SMkdir a) (\<lambda>r.
       if r < 0 then fprintf 2 (''mkdir: %s failed to create'' @ nl) [UStr (Some a)] (UExit 0) else mkdir_args as)"

definition mkdir_main :: "bytes list \<Rightarrow> uprog" where
  "mkdir_main argv = (if length argv < 2 then fprintf 2 (''Usage: mkdir files...'' @ nl) [] (UExit 1) else mkdir_args (tl argv))"

primrec rm_args :: "bytes list \<Rightarrow> uprog" where
  "rm_args [] = UExit 0"
| "rm_args (a # as) =
     do_call (SUnlink a) (\<lambda>r.
       if r < 0 then fprintf 2 (''rm: %s failed to delete'' @ nl) [UStr (Some a)] (UExit 0) else rm_args as)"

definition rm_main :: "bytes list \<Rightarrow> uprog" where
  "rm_main argv = (if length argv < 2 then fprintf 2 (''Usage: rm files...'' @ nl) [] (UExit 1) else rm_args (tl argv))"

section \<open>ls\<close>

text \<open>The name after the last slash, filled with blanks up to \<open>DIRSIZ\<close> characters.\<close>

definition fmtname :: "bytes \<Rightarrow> bytes" where
  "fmtname path =
     (let p = rev (takeWhile (\<lambda>c. c \<noteq> of_char CHR ''/'') (rev path))
      in if length p \<ge> DIRSIZ then p else p @ replicate (DIRSIZ - length p) 32)"

text \<open>The fields \<open>type\<close>, \<open>ino\<close> and \<open>size\<close> of a \<open>struct stat\<close>, as \<open>printf\<close> gets them.\<close>

definition st_type :: "bytes \<Rightarrow> u16" where "st_type st = get16 st 8"

definition ls_line :: "bytes \<Rightarrow> bytes \<Rightarrow> uprog \<Rightarrow> uprog" where
  "ls_line path st k =
     printf (''%s %d %d %d'' @ nl)
       [UStr (Some (fmtname path)), UNum (scast (st_type st)), UNum (ucast (get32 st 4)), UNum (scast (get32 st 16))] k"

primrec ls_dir :: "nat \<Rightarrow> int \<Rightarrow> bytes \<Rightarrow> uprog \<Rightarrow> uprog" where
  "ls_dir 0 fd path k = UMore"
| "ls_dir (Suc m) fd path k =
     UCall (SRead fd 16) (\<lambda>r de.
       if r \<noteq> 16 then do_call (SClose fd) (\<lambda>_. k)
       else if get16 de 0 = 0 then ls_dir m fd path k
       else let buf = path @ ustr ''/'' @ cstr (slice de 2 DIRSIZ)
            in stat buf (\<lambda>r st.
               if r < 0 then printf (''ls: cannot stat %s'' @ nl) [UStr (Some buf)] (ls_dir m fd path k)
               else ls_line buf st (ls_dir m fd path k)))"

definition ls :: "nat \<Rightarrow> bytes \<Rightarrow> uprog \<Rightarrow> uprog" where
  "ls m path k =
     do_call (SOpen path O_RDONLY) (\<lambda>fd.
       if fd < 0 then fprintf 2 (''ls: cannot open %s'' @ nl) [UStr (Some path)] k
       else UCall (SFstat fd) (\<lambda>r st.
         if r < 0 then fprintf 2 (''ls: cannot stat %s'' @ nl) [UStr (Some path)] (do_call (SClose fd) (\<lambda>_. k))
         else if st_type st = 3 \<or> st_type st = 2 then ls_line path st (do_call (SClose fd) (\<lambda>_. k))
         else if st_type st = 1
         then if length path + 1 + DIRSIZ + 1 > 512
              then printf (''ls: path too long'' @ nl) [] (do_call (SClose fd) (\<lambda>_. k))
              else ls_dir m fd path k
         else do_call (SClose fd) (\<lambda>_. k)))"

primrec ls_args :: "nat \<Rightarrow> bytes list \<Rightarrow> uprog" where
  "ls_args m [] = UExit 0"
| "ls_args m (a # as) = ls m a (ls_args m as)"

definition ls_main :: "nat \<Rightarrow> bytes list \<Rightarrow> uprog" where
  "ls_main m argv = (if length argv < 2 then ls m (ustr ''.'') (UExit 0) else ls_args m (tl argv))"

section \<open>wc\<close>

record counts =
  wl :: u32
  ww :: u32
  wcc :: u32
  inword :: bool

text \<open>The body of the loop over the buffer.\<close>

definition wc_char :: "u8 \<Rightarrow> counts \<Rightarrow> counts" where
  "wc_char b s =
     (let s = s\<lparr>wcc := wcc s + 1\<rparr>;
          s = (if b = 10 then s\<lparr>wl := wl s + 1\<rparr> else s)
      in if strchr [32, 13, 9, 10, 11] b \<noteq> None then s\<lparr>inword := False\<rparr>
         else if \<not> inword s then s\<lparr>ww := ww s + 1, inword := True\<rparr> else s)"

primrec wc_loop :: "nat \<Rightarrow> int \<Rightarrow> bytes \<Rightarrow> counts \<Rightarrow> uprog \<Rightarrow> uprog" where
  "wc_loop 0 fd name s k = UMore"
| "wc_loop (Suc m) fd name s k =
     UCall (SRead fd 512) (\<lambda>n buf.
       if n > 0 then wc_loop m fd name (fold wc_char (take (nat n) buf) s) k
       else if n < 0 then printf (''wc: read error'' @ nl) [] (UExit 1)
       else printf (''%d %d %d %s'' @ nl) [UNum (scast (wl s)), UNum (scast (ww s)), UNum (scast (wcc s)), UStr (Some name)] k)"

definition wc :: "nat \<Rightarrow> int \<Rightarrow> bytes \<Rightarrow> uprog \<Rightarrow> uprog" where
  "wc m fd name k = wc_loop m fd name \<lparr>wl = 0, ww = 0, wcc = 0, inword = False\<rparr> k"

primrec wc_files :: "nat \<Rightarrow> bytes list \<Rightarrow> uprog" where
  "wc_files m [] = UExit 0"
| "wc_files m (f # fs) =
     do_call (SOpen f O_RDONLY) (\<lambda>fd.
       if fd < 0 then printf (''wc: cannot open %s'' @ nl) [UStr (Some f)] (UExit 1)
       else wc m fd f (do_call (SClose fd) (\<lambda>_. wc_files m fs)))"

definition wc_main :: "nat \<Rightarrow> bytes list \<Rightarrow> uprog" where
  "wc_main m argv = (if length argv \<le> 1 then wc m 0 [] (UExit 0) else wc_files m (tl argv))"

section \<open>init\<close>

definition CONSOLE :: u16 where "CONSOLE = 1"

fun init_loop :: "nat \<Rightarrow> uprog"
  and init_wait :: "nat \<Rightarrow> int \<Rightarrow> uprog" where
  "init_loop 0 = UMore"
| "init_loop (Suc m) =
     printf (''init: starting sh'' @ nl) [] (do_call SFork (\<lambda>pid.
       if pid < 0 then printf (''init: fork failed'' @ nl) [] (UExit 1)
       else if pid = 0
       then do_call (SExec (ustr ''sh'') [ustr ''sh'']) (\<lambda>_. printf (''init: exec sh failed'' @ nl) [] (UExit 1))
       else init_wait m pid))"
| "init_wait 0 pid = UMore"
| "init_wait (Suc m) pid =
     do_call SWait (\<lambda>wpid.
       if wpid = pid then init_loop m
       else if wpid < 0 then printf (''init: wait returned an error'' @ nl) [] (UExit 1)
       else init_wait m pid)"

definition init_main :: "nat \<Rightarrow> uprog" where
  "init_main m =
     (let rest = do_call (SDup 0) (\<lambda>_. do_call (SDup 0) (\<lambda>_. init_loop m))
      in do_call (SOpen (ustr ''console'') O_RDWR) (\<lambda>fd.
           if fd < 0
           then do_call (SMknod (ustr ''console'') CONSOLE 0) (\<lambda>_. do_call (SOpen (ustr ''console'') O_RDWR) (\<lambda>_. rest))
           else rest))"

section \<open>zombie, stressfs, forktest\<close>

definition zombie_main :: uprog where
  "zombie_main = do_call SFork (\<lambda>pid. if pid > 0 then do_call (SSleep 5) (\<lambda>_. UExit 0) else UExit 0)"

text \<open>The first loop of \<open>stressfs\<close>, with \<open>m\<close> rounds left and continued with \<open>i\<close>, and the loops that write and read.\<close>

primrec stress_fork :: "nat \<Rightarrow> nat \<Rightarrow> (nat \<Rightarrow> uprog) \<Rightarrow> uprog" where
  "stress_fork 0 i k = k i"
| "stress_fork (Suc m) i k = do_call SFork (\<lambda>pid. if pid > 0 then k i else stress_fork m (Suc i) k)"

primrec stress_write :: "nat \<Rightarrow> int \<Rightarrow> bytes \<Rightarrow> uprog \<Rightarrow> uprog" where
  "stress_write 0 fd d k = k"
| "stress_write (Suc m) fd d k = do_call (SWrite fd d) (\<lambda>_. stress_write m fd d k)"

primrec stress_read :: "nat \<Rightarrow> int \<Rightarrow> uprog \<Rightarrow> uprog" where
  "stress_read 0 fd k = k"
| "stress_read (Suc m) fd k = do_call (SRead fd 512) (\<lambda>_. stress_read m fd k)"

definition stressfs_main :: uprog where
  "stressfs_main =
     printf (''stressfs starting'' @ nl) [] (stress_fork 4 0 (\<lambda>i.
     printf (''write %d'' @ nl) [UNum (of_nat i)] (
     let path = ustr ''stressfs'' @ [48 + of_nat i]
     in do_call (SOpen path (O_CREATE OR O_RDWR)) (\<lambda>fd.
        stress_write 20 fd (replicate 512 (of_char CHR ''a'')) (do_call (SClose fd) (\<lambda>_.
        printf (''read'' @ nl) [] (do_call (SOpen path O_RDONLY) (\<lambda>fd.
        stress_read 20 fd (do_call (SClose fd) (\<lambda>_. do_call SWait (\<lambda>_. UExit 0)))))))))))"

definition print :: "string \<Rightarrow> uprog \<Rightarrow> uprog" where
  "print s k = do_call (SWrite 1 (ustr s)) (\<lambda>_. k)"

primrec forktest_wait :: "nat \<Rightarrow> uprog \<Rightarrow> uprog" where
  "forktest_wait 0 k = k"
| "forktest_wait (Suc n) k =
     do_call SWait (\<lambda>r. if r < 0 then print (''wait stopped early'' @ nl) (UExit 1) else forktest_wait n k)"

text \<open>The first loop of \<open>forktest\<close> with \<open>m\<close> rounds left; \<open>n\<close> children have been made.\<close>

primrec forktest_fork :: "nat \<Rightarrow> nat \<Rightarrow> uprog \<Rightarrow> uprog" where
  "forktest_fork 0 n k = print (''fork claimed to work N times!'' @ nl) (UExit 1)"
| "forktest_fork (Suc m) n k =
     do_call SFork (\<lambda>pid.
       if pid < 0
       then forktest_wait n (do_call SWait (\<lambda>r.
            if r \<noteq> -1 then print (''wait got too many'' @ nl) (UExit 1) else print (''fork test OK'' @ nl) k))
       else if pid = 0 then UExit 0
       else forktest_fork m (Suc n) k)"

definition forktest :: "uprog \<Rightarrow> uprog" where
  "forktest k = print (''fork test'' @ nl) (forktest_fork 1000 0 k)"

definition forktest_main :: uprog where
  "forktest_main = forktest (UExit 0)"

section \<open>The programs for the added system calls\<close>

definition trace_main :: "bytes list \<Rightarrow> uprog" where
  "trace_main argv =
     (if length argv < 3 then UExit 0
      else do_call (STrace (atoi (argv ! 1))) (\<lambda>r.
        if r < 0 then UExit 0 else do_call (SExec (argv ! 2) (drop 2 argv)) (\<lambda>_. UExit 0)))"

text \<open>Without an argument \<open>xv6\<close> reads its number at address 0, where \<open>code\<close>, the text of the program, is.\<close>

definition xv6_main :: "bytes \<Rightarrow> bytes list \<Rightarrow> uprog" where
  "xv6_main code argv =
     (let n = atoi (if 1 < length argv then argv ! 1 else code)
      in do_call (SXv6 n) (\<lambda>_. UExit 0))"

definition testhello_main :: uprog where
  "testhello_main = do_call SHello (\<lambda>_. UExit 0)"

definition get64 :: "bytes \<Rightarrow> nat \<Rightarrow> u64" where
  "get64 b i = ucast (get32 b i) OR push_bit 32 (ucast (get32 b (i + 4)))"

definition test_sysinfo :: "uprog \<Rightarrow> uprog" where
  "test_sysinfo k =
     UCall SSysinfo (\<lambda>r info.
       if r < 0 then printf (''sysinfo: system call failed'' @ nl) [] (UExit 0)
       else printf (''Free memory: %ld bytes'' @ nl) [UNum (get64 info 0)] (
            printf (''Number of active processes: %ld'' @ nl) [UNum (get64 info 8)] (
            printf (''Number of open files: %ld'' @ nl) [UNum (get64 info 16)] k)))"

definition sysinfotest_main :: uprog where
  "sysinfotest_main = test_sysinfo (UExit 0)"

section \<open>cat copies a file\<close>

lemma cat_run:
  assumes "length rest < m"
  shows "\<exists>sizes'. run_prog file_env (cat m fd k) (rest, sizes, out) = run_prog file_env k ([], sizes', out @ rest)"
  using assms
proof (induction m arbitrary: rest sizes out)
  case (Suc m)
  obtain n where n: "file_env (rest, sizes, out) (SRead fd 512) = (int n, take n rest, (drop n rest, tl sizes, out))"
    "n \<le> length rest" "n = 0 \<longleftrightarrow> rest = []" using file_env_read [of rest sizes out fd 512] by auto
  show ?case
  proof (cases "rest = []")
    case True
    then show ?thesis using n by auto
  next
    case False
    then have "length (drop n rest) < m" "0 < n" using n Suc.prems by auto
    then show ?thesis using Suc.IH [of "drop n rest" "tl sizes" "out @ take n rest"] n by (simp add: file_env_write min_def)
  qed
qed simp

text \<open>
  C30: \<open>cat\<close> without arguments writes its input to its output, unchanged and completely, however the calls of
  \<open>read\<close> cut it into pieces, and exits with status 0.\<close>

theorem cat_copies:
  assumes "length content < m" "length argv \<le> 1"
  shows "\<exists>sizes'. run_prog file_env (cat_main m argv) (content, sizes, out) = Ok (0, ([], sizes', out @ content))"
  using cat_run [OF assms(1), of 0 "UExit 0" sizes out] assms(2) by (simp add: cat_main_def)

theorem cat_copies_witness:
  "\<exists>sizes'. run_prog file_env (cat_main 4 [ustr ''cat'']) ([1, 2, 3], [0, 0], []) = Ok (0, ([], sizes', [1, 2, 3]))"
  using cat_copies [of "[1, 2, 3]" 4 "[ustr ''cat'']" "[0, 0]" "[]"] by simp

section \<open>wc counts lines, words and characters\<close>

definition blank :: "u8 \<Rightarrow> bool" where
  "blank c \<longleftrightarrow> c \<in> {32, 13, 9, 10, 11}"

function words :: "bytes \<Rightarrow> bytes list" where
  "words [] = []"
| "words (c # p) =
     (if blank c then words p
      else takeWhile (\<lambda>c. \<not> blank c) (c # p) # words (dropWhile (\<lambda>c. \<not> blank c) p))"
  by pat_completeness auto
termination
  by (relation "measure length") (auto simp: length_dropWhile_le less_Suc_eq_le)

lemma wc_char_eq:
  "wc_char b s = (if blank b then s\<lparr>wcc := wcc s + 1, wl := wl s + (if b = 10 then 1 else 0), inword := False\<rparr>
     else s\<lparr>wcc := wcc s + 1, ww := ww s + (if inword s then 0 else 1), inword := True\<rparr>)"
  by (auto simp: wc_char_def blank_def Let_def)

lemma words_dropWhile: "words (dropWhile (\<lambda>c. \<not> blank c) (c # p)) = (if blank c then words p else words (dropWhile (\<lambda>c. \<not> blank c) p))"
  by simp

lemma wc_fold:
  "wcc (fold wc_char p s) = wcc s + of_nat (length p) \<and> wl (fold wc_char p s) = wl s + of_nat (count_list p 10) \<and>
   ww (fold wc_char p s) = ww s + of_nat (length (words (if inword s then dropWhile (\<lambda>c. \<not> blank c) p else p)))"
proof (induction p arbitrary: s)
  case (Cons c p)
  have "\<not> blank 10 \<Longrightarrow> False" by (simp add: blank_def)
  then show ?case using Cons [of "wc_char c s"] by (auto simp: wc_char_eq)
qed simp

lemma wc_run:
  assumes "length rest < m"
  shows "\<exists>sizes'. run_prog file_env (wc_loop m fd name s k) (rest, sizes, out) =
    run_prog file_env (printf (''%d %d %d %s'' @ nl) [UNum (scast (wl (fold wc_char rest s))), UNum (scast (ww (fold wc_char rest s))),
      UNum (scast (wcc (fold wc_char rest s))), UStr (Some name)] k) ([], sizes', out)"
  using assms
proof (induction m arbitrary: rest sizes s)
  case (Suc m)
  obtain n where n: "file_env (rest, sizes, out) (SRead fd 512) = (int n, take n rest, (drop n rest, tl sizes, out))"
    "n \<le> length rest" "n = 0 \<longleftrightarrow> rest = []" using file_env_read [of rest sizes out fd 512] by auto
  show ?case
  proof (cases "rest = []")
    case True
    then show ?thesis using n by auto
  next
    case False
    then have "length (drop n rest) < m" "0 < n" using n Suc.prems by auto
    moreover have "fold wc_char (drop n rest) (fold wc_char (take n rest) s) = fold wc_char rest s"
      by (metis append_take_drop_id fold_append comp_apply)
    ultimately show ?thesis using Suc.IH [of "drop n rest" "fold wc_char (take n rest) s" "tl sizes"] n by simp
  qed
qed simp

lemma put_chars_run: "run_prog file_env (put_chars 1 cs k) (rest, sizes, out) = run_prog file_env k (rest, sizes, out @ cs)"
  by (induction cs arbitrary: out) (simp_all add: file_env_write)

lemma ucast_scast32 [simp]: "ucast (scast (a :: u32) :: u64) = a"
  by (rule bit_word_eqI) (auto simp: bit_simps)

lemma wc_format:
  "vformat (ustr (''%d %d %d %s'' @ nl)) False [UNum (scast a), UNum (scast b), UNum (scast c), UStr (Some name)] =
     Some (printint a 10 True @ [32] @ printint b 10 True @ [32] @ printint c 10 True @ [32] @ name @ [10])"
  by (simp add: ustr_def nl_def conversion_def take_num_def take_str_def char_at_def)

text \<open>
  C29: \<open>wc\<close> prints the numbers of the newlines, of the words and of the characters of its input, modulo the
  width of an \<open>int\<close>, however the calls of \<open>read\<close> cut the input, or a word in it, into pieces.\<close>

theorem wc_counts:
  assumes "length content < m"
  shows "\<exists>sizes'. run_prog file_env (wc m fd name (UExit 0)) (content, sizes, out) =
    Ok (0, ([], sizes', out @ printint (of_nat (count_list content 10)) 10 True @ [32] @ printint (of_nat (length (words content))) 10 True @ [32] @
      printint (of_nat (length content)) 10 True @ [32] @ name @ [10]))"
  using wc_run [OF assms, of fd name "\<lparr>wl = 0, ww = 0, wcc = 0, inword = False\<rparr>" "UExit 0" sizes out]
    wc_fold [of content "\<lparr>wl = 0, ww = 0, wcc = 0, inword = False\<rparr>"]
  by (simp add: wc_def printf_def vprintf_def wc_format put_chars_run del: append.simps(2))

theorem wc_counts_witness:
  "\<exists>sizes'. run_prog file_env (wc 20 0 [] (UExit 0)) (ustr ''ab c '' @ [10] @ ustr ''d'', [0, 2], []) =
     Ok (0, ([], sizes', printint 1 10 True @ [32] @ printint 3 10 True @ [32] @ printint 7 10 True @ [32, 10]))"
proof -
  let ?c = "ustr ''ab c '' @ [10] @ ustr ''d''"
  have "count_list ?c 10 = 1" "length (words ?c) = 3" "length ?c = 7" by (simp_all add: ustr_def blank_def)
  then show ?thesis using wc_counts [of ?c 20 0 "[]" "[0, 2]" "[]"] by simp
qed

section \<open>Numbers\<close>

lemma digits_small: "d < 10 \<Longrightarrow> Ulib.digits d = of_nat (48 + d)"
  by (simp add: digits_def)

lemma digit_range: "d < 10 \<Longrightarrow> 48 \<le> Ulib.digits d \<and> Ulib.digits d \<le> 57 \<and> ucast (Ulib.digits d) - 48 = (of_nat d :: u32)"
proof -
  assume "d < 10"
  then have "d \<in> {0, 1, 2, 3, 4, 5, 6, 7, 8, 9}" by auto
  then show ?thesis by (auto simp: digits_def)
qed

lemma atoi_snoc:
  "\<forall>c\<in>set xs. 48 \<le> c \<and> c \<le> 57 \<Longrightarrow> 48 \<le> d \<and> d \<le> 57 \<Longrightarrow> atoi_loop (xs @ [d]) n = atoi_loop xs n * 10 + (ucast d - 48)"
  by (induction xs arbitrary: n) auto

lemma atoi_digits:
  "(\<forall>c\<in>set (digit_loop 10 n). 48 \<le> c \<and> c \<le> 57) \<and> atoi_loop (rev (digit_loop 10 n)) 0 = of_nat n"
proof (induction n rule: less_induct)
  case (less n)
  let ?d = "Ulib.digits (n mod 10)"
  have d: "48 \<le> ?d \<and> ?d \<le> 57" "ucast ?d - 48 = (of_nat (n mod 10) :: u32)" using digit_range [of "n mod 10"] by simp_all
  have n: "(of_nat (n div 10) * 10 + of_nat (n mod 10) :: u32) = of_nat n"
    by (metis div_mult_mod_eq of_nat_add of_nat_mult of_nat_numeral)
  show ?case
  proof (cases "n div 10 = 0")
    case True
    then have "digit_loop 10 n = [?d]" "n mod 10 = n" by (subst digit_loop.simps, simp_all)
    then show ?thesis using d by simp
  next
    case False
    then have e: "digit_loop 10 n = ?d # digit_loop 10 (n div 10)" by (subst digit_loop.simps) simp
    note IH = less.IH [of "n div 10"]
    have "n div 10 < n" using False by simp
    from IH [OF this] have a: "\<forall>c\<in>set (digit_loop 10 (n div 10)). 48 \<le> c \<and> c \<le> 57" "atoi_loop (rev (digit_loop 10 (n div 10))) 0 = of_nat (n div 10)"
      by blast+
    have "atoi_loop (rev (digit_loop 10 n)) 0 = of_nat (n div 10) * 10 + of_nat (n mod 10)"
      unfolding e rev.simps using atoi_snoc [of "rev (digit_loop 10 (n div 10))" ?d 0] a d by (simp only: set_rev)
    then show ?thesis unfolding n using a(1) d(1) e by simp
  qed
qed

text \<open>
  C31: what \<open>printf\<close> prints for a number with \<open>%d\<close> is read back by \<open>atoi\<close>, for every number that is not
  negative.\<close>

theorem atoi_printint:
  assumes "0 \<le> sint x"
  shows "atoi (Ulib.printint x 10 True) = sint x"
  using assms atoi_digits [of "unat x"] by (simp add: atoi_def printint_def)

theorem atoi_printint_witness: "atoi (Ulib.printint 1207 10 True) = 1207"
  using atoi_printint [of 1207] by simp

end
